(* ===== verification/Prelude.thy ===== *)
theory Prelude
  imports Main "HOL-Library.Word" "HOL-Library.Multiset"
begin

text \<open>
  The shared base of the development: the machine types and time arithmetic the
  crate uses, the error type of \<^verbatim>\<open>src/error.rs\<close> with its rendering, the two ways a Rust
  function can fail to return (a panic, a loop that does not end), the sequencing of
  fallible computations that draw from the random source, the little-endian byte codec of
  the layout buffers, and the generic list lemmas the components share.

  Conventions used throughout.
  \<^item> \<^verbatim>\<open>u8\<close>, \<^verbatim>\<open>u32\<close>, \<^verbatim>\<open>u64\<close> are words of that width. \<^verbatim>\<open>usize\<close> values that are lengths,
    indices or cursors into live buffers are natural numbers (a Rust buffer never exceeds
    \<^verbatim>\<open>isize::MAX\<close> bytes); where the source checks for \<^verbatim>\<open>usize\<close> overflow the check is
    written out against \<open>usize_max\<close>, for a 64-bit target.
  \<^item> \<^verbatim>\<open>core::time::Duration\<close> is a number of nanoseconds, at most \<open>duration_max\<close>.
  \<^item> \<^verbatim>\<open>Result<T, Error>\<close> is \<open>'a result\<close>: \<open>Inr v\<close> is \<^verbatim>\<open>Ok(v)\<close>, \<open>Inl (Err e)\<close> is
    \<^verbatim>\<open>Err(e)\<close>, \<open>Inl Panic\<close> a Rust panic, \<open>Inl Segfault\<close> a read of
    memory that is not accessible, and \<open>Inl Diverge\<close> a loop that has run out of the fuel
    the model gives it.
\<close>

section \<open>Lemma collections\<close>

named_theorems result_simps \<open>unfolding the sequencing of fallible computations\<close>
named_theorems layout_simps \<open>lengths and round trips of the byte codec\<close>

section \<open>Machine types\<close>

type_synonym u8 = "8 word"
type_synonym u32 = "32 word"
type_synonym u64 = "64 word"
type_synonym bytes = "u8 list"

text \<open>\<^verbatim>\<open>usize::MAX\<close> on a 64-bit target and \<^verbatim>\<open>u32::MAX\<close>, as numbers.\<close>

definition usize_max :: nat where
  "usize_max = 18446744073709551615"

text \<open>\<^verbatim>\<open>isize::MAX\<close>: an allocation that would be larger panics.\<close>

definition isize_max :: nat where
  "isize_max = 9223372036854775807"

definition u32_max :: nat where
  "u32_max = 4294967295"

lemma unat_u32_max [simp]: "unat (- 1 :: u32) = u32_max"
  by (simp add: u32_max_def unsigned_minus_1_eq_mask mask_eq_exp_minus_1)

lemma u32_max_less: "n \<le> u32_max \<longleftrightarrow> n < 2 ^ 32"
  by (auto simp: u32_max_def)

text \<open>\<^verbatim>\<open>saturating_add\<close> and \<^verbatim>\<open>saturating_mul\<close> on \<^verbatim>\<open>usize\<close>.\<close>

definition usize_saturating_add :: "nat \<Rightarrow> nat \<Rightarrow> nat" where
  "usize_saturating_add a b = min (a + b) usize_max"

definition usize_saturating_mul :: "nat \<Rightarrow> nat \<Rightarrow> nat" where
  "usize_saturating_mul a b = min (a * b) usize_max"

section \<open>Durations\<close>

type_synonym duration = nat

text \<open>
  \<^verbatim>\<open>Duration::MAX\<close>: \<^verbatim>\<open>u64::MAX\<close> seconds and 999999999 nanoseconds, in nanoseconds.
  \<^verbatim>\<open>saturating_sub\<close> is subtraction of natural numbers.
\<close>

definition duration_max :: duration where
  "duration_max = 18446744073709551615 * 1000000000 + 999999999"

definition from_secs :: "nat \<Rightarrow> duration" where
  "from_secs s = s * 1000000000"

definition dur_saturating_add :: "duration \<Rightarrow> duration \<Rightarrow> duration" where
  "dur_saturating_add a b = min (a + b) duration_max"

definition dur_checked_mul :: "duration \<Rightarrow> nat \<Rightarrow> duration option" where
  "dur_checked_mul d k = (if d * k \<le> duration_max then Some (d * k) else None)"

lemma dur_saturating_add_ge: "a \<le> duration_max \<Longrightarrow> a \<le> dur_saturating_add a b"
  by (simp add: dur_saturating_add_def)

lemma dur_saturating_add_bound: "dur_saturating_add a b \<le> duration_max"
  by (simp add: dur_saturating_add_def)

section \<open>Errors\<close>

datatype error =
    Acquisition string string
  | KeyNotFound
  | Fragment string
  | Defragment string
  | Decoy string
  | Codex string
  | LockedOut
  | RateLimited duration
  | MemoryLock string
  | InvalidConfig string
  | Internal string

text \<open>Decimal rendering of an unsigned integer, as \<^verbatim>\<open>{}\<close> formats it.\<close>

fun decimal :: "nat \<Rightarrow> string" where
  "decimal n = (if n < 10 then [char_of (48 + n)]
                else decimal (n div 10) @ [char_of (48 + n mod 10)])"

declare decimal.simps [simp del]

text \<open>\<^verbatim>\<open>impl fmt::Display for Error\<close>.\<close>

fun error_display :: "error \<Rightarrow> string" where
  "error_display (Acquisition source reason) =
     ''key acquisition from '' @ source @ '' failed: '' @ reason"
| "error_display KeyNotFound = ''no key registered under the requested identifier''"
| "error_display (Fragment reason) = ''fragmentation failed: '' @ reason"
| "error_display (Defragment reason) = ''defragmentation failed: '' @ reason"
| "error_display (Decoy reason) = ''decoy generation failed: '' @ reason"
| "error_display (Codex reason) = ''codex transformation failed: '' @ reason"
| "error_display LockedOut = ''vault is locked out by security monitor threshold''"
| "error_display (RateLimited retry_after) =
     ''master unlock attempt refused; retry in '' @ decimal (retry_after div 1000000) @ '' ms''"
| "error_display (MemoryLock reason) = ''memory lock operation failed: '' @ reason"
| "error_display (InvalidConfig reason) = ''invalid vault configuration: '' @ reason"
| "error_display (Internal reason) = ''internal vault invariant violated: '' @ reason"

section \<open>Results\<close>

datatype fault = Err error | Panic | Segfault | Diverge

type_synonym 'a result = "fault + 'a"

text \<open>\<^verbatim>\<open>vec![0u8; n]\<close>: a length above \<^verbatim>\<open>isize::MAX\<close> is a capacity overflow, which panics.\<close>

definition zero_vec :: "nat \<Rightarrow> bytes result" where
  "zero_vec n = (if n \<le> isize_max then Inr (replicate n 0) else Inl Panic)"

lemma zero_vec_ok: "n \<le> isize_max \<Longrightarrow> zero_vec n = Inr (replicate n 0)"
  by (simp add: zero_vec_def)

text \<open>The \<^verbatim>\<open>?\<close> operator on a result.\<close>

definition ebind :: "'a result \<Rightarrow> ('a \<Rightarrow> 'b result) \<Rightarrow> 'b result" where
  "ebind r f = (case r of Inl e \<Rightarrow> Inl e | Inr a \<Rightarrow> f a)"

lemma ebind_Inl [simp]: "ebind (Inl e) f = Inl e"
  by (simp add: ebind_def)

lemma ebind_Inr [simp]: "ebind (Inr a) f = f a"
  by (simp add: ebind_def)

lemma ebind_eq_Inr [result_simps]:
  "ebind r f = Inr b \<longleftrightarrow> (\<exists>a. r = Inr a \<and> f a = Inr b)"
  by (cases r) (auto simp: ebind_def)

lemma ebind_eq_Inl [result_simps]:
  "ebind r f = Inl e \<longleftrightarrow> r = Inl e \<or> (\<exists>a. r = Inr a \<and> f a = Inl e)"
  by (cases r) (auto simp: ebind_def)

text \<open>A loop that computes one value per element and stops at the first failure.\<close>

fun emap :: "('a \<Rightarrow> 'b result) \<Rightarrow> 'a list \<Rightarrow> 'b list result" where
  "emap f [] = Inr []"
| "emap f (x # xs) = ebind (f x) (\<lambda>y. ebind (emap f xs) (\<lambda>ys. Inr (y # ys)))"

lemma emap_Inr: "(\<And>x. x \<in> set xs \<Longrightarrow> f x = Inr (h x)) \<Longrightarrow> emap f xs = Inr (map h xs)"
  by (induction xs) simp_all

lemma emap_length: "emap f xs = Inr ys \<Longrightarrow> length ys = length xs"
  by (induction xs arbitrary: ys) (auto simp: result_simps)

lemma emap_nth: "emap f xs = Inr ys \<Longrightarrow> i < length xs \<Longrightarrow> f (xs ! i) = Inr (ys ! i)"
proof (induction xs arbitrary: ys i)
  case Nil
  then show ?case by simp
next
  case (Cons x xs)
  then show ?case by (cases i) (auto simp: result_simps)
qed

text \<open>
  A computation that draws from the random source: it takes the state of the source and
  returns a result and the new state. \<open>rbind\<close> is sequencing with \<^verbatim>\<open>?\<close>.
\<close>

type_synonym ('g, 'a) rand = "'g \<Rightarrow> 'a result \<times> 'g"

definition rret :: "'a \<Rightarrow> ('g, 'a) rand" where
  "rret a g = (Inr a, g)"

definition rlift :: "'a result \<Rightarrow> ('g, 'a) rand" where
  "rlift r g = (r, g)"

definition rbind :: "('g, 'a) rand \<Rightarrow> ('a \<Rightarrow> ('g, 'b) rand) \<Rightarrow> ('g, 'b) rand" where
  "rbind m f g = (case m g of (r, g') \<Rightarrow> (case r of Inl e \<Rightarrow> (Inl e, g') | Inr a \<Rightarrow> f a g'))"

lemma rret_apply [simp]: "rret a g = (Inr a, g)"
  by (simp add: rret_def)

lemma rlift_apply [simp]: "rlift r g = (r, g)"
  by (simp add: rlift_def)

lemma rbind_eq_Inr [result_simps]:
  "rbind m f g = (Inr b, g'') \<longleftrightarrow> (\<exists>a g'. m g = (Inr a, g') \<and> f a g' = (Inr b, g''))"
  by (auto simp: rbind_def split: prod.splits sum.splits)

lemma rbind_eq_Inl [result_simps]:
  "rbind m f g = (Inl e, g'') \<longleftrightarrow>
     m g = (Inl e, g'') \<or> (\<exists>a g'. m g = (Inr a, g') \<and> f a g' = (Inl e, g''))"
  by (auto simp: rbind_def split: prod.splits sum.splits)

lemma rbind_apply_Inr: "m g = (Inr a, g') \<Longrightarrow> rbind m f g = f a g'"
  by (simp add: rbind_def)

lemma rbind_apply_Inl: "m g = (Inl e, g') \<Longrightarrow> rbind m f g = (Inl e, g')"
  by (simp add: rbind_def)

lemma rbind_rret [simp]: "rbind (rret a) f = f a"
  by (rule ext) (simp add: rbind_def)

lemma rbind_rlift_Inr [simp]: "rbind (rlift (Inr a)) f = f a"
  by (rule ext) (simp add: rbind_def)

text \<open>A computation that returns, whatever the state it starts from.\<close>

definition returns_ok :: "('g, 'a) rand \<Rightarrow> bool" where
  "returns_ok m \<longleftrightarrow> (\<forall>g. \<exists>a g'. m g = (Inr a, g'))"

lemma returns_okD: "returns_ok m \<Longrightarrow> \<exists>a g'. m g = (Inr a, g')"
  by (simp add: returns_ok_def)

lemma returns_okE:
  assumes "returns_ok m" obtains a g' where "m g = (Inr a, g')"
  using returns_okD [OF assms, of g] by blast

lemma returns_ok_rret [intro, simp]: "returns_ok (rret a)"
  by (simp add: returns_ok_def)

lemma returns_ok_Pair [intro, simp]: "returns_ok (Pair (Inr a))"
  by (simp add: returns_ok_def)

lemma returns_ok_rlift [intro, simp]: "returns_ok (rlift (Inr a))"
  by (simp add: returns_ok_def)

lemma returns_ok_rbind [intro]:
  assumes "returns_ok m" and "\<And>a g g'. m g = (Inr a, g') \<Longrightarrow> returns_ok (f a)"
  shows "returns_ok (rbind m f)"
  unfolding returns_ok_def
proof
  fix g
  from returns_okD [OF assms(1), of g] obtain a g' where m: "m g = (Inr a, g')"
    by blast
  then have "returns_ok (f a)" by (rule assms(2))
  then show "\<exists>b g''. rbind m f g = (Inr b, g'')"
    using m by (simp add: rbind_def returns_ok_def)
qed

section \<open>Little-endian bytes\<close>

text \<open>The \<open>n\<close> low bytes of a number, least significant first, and back.\<close>

primrec le_bytes :: "nat \<Rightarrow> nat \<Rightarrow> bytes" where
  "le_bytes 0 k = []"
| "le_bytes (Suc n) k = word_of_nat k # le_bytes n (k div 256)"

fun from_le :: "bytes \<Rightarrow> nat" where
  "from_le [] = 0"
| "from_le (b # bs) = unat b + 256 * from_le bs"

lemma length_le_bytes [simp]: "length (le_bytes n k) = n"
  by (induction n arbitrary: k) simp_all

lemma from_le_bytes: "from_le (le_bytes n k) = k mod 256 ^ n"
proof (induction n arbitrary: k)
  case 0
  then show ?case by simp
next
  case (Suc n)
  have "from_le (le_bytes (Suc n) k) = k mod 256 + 256 * (k div 256 mod 256 ^ n)"
    using Suc by (simp add: unat_of_nat)
  also have "\<dots> = k mod 256 ^ Suc n"
    by (simp add: mod_mult2_eq)
  finally show ?case .
qed

lemma from_le_less: "from_le bs < 256 ^ length bs"
proof (induction bs)
  case Nil
  then show ?case by simp
next
  case (Cons b bs)
  have "unat b < 256"
    using unsigned_less [of b, where ?'a = nat] by simp
  with Cons show ?case by simp
qed

text \<open>\<^verbatim>\<open>u32::to_le_bytes\<close>, \<^verbatim>\<open>u32::from_le_bytes\<close> and \<^verbatim>\<open>u64::from_le_bytes\<close>.\<close>

definition u32_to_le_bytes :: "u32 \<Rightarrow> bytes" where
  "u32_to_le_bytes w = le_bytes 4 (unat w)"

definition u32_from_le_bytes :: "bytes \<Rightarrow> u32" where
  "u32_from_le_bytes bs = word_of_nat (from_le bs)"

definition u64_from_le_bytes :: "bytes \<Rightarrow> u64" where
  "u64_from_le_bytes bs = word_of_nat (from_le bs)"

lemma length_u32_to_le_bytes [simp]: "length (u32_to_le_bytes w) = 4"
  by (simp add: u32_to_le_bytes_def)

lemma u32_le_bytes_roundtrip [simp]: "u32_from_le_bytes (u32_to_le_bytes w) = w"
proof -
  have "unat w mod 256 ^ 4 = unat w"
    using unsigned_less [of w, where ?'a = nat] by simp
  then show ?thesis
    by (simp add: u32_from_le_bytes_def u32_to_le_bytes_def from_le_bytes)
qed

text \<open>\<^verbatim>\<open>as u32\<close> on a \<^verbatim>\<open>usize\<close>: the low 32 bits.\<close>

definition as_u32 :: "nat \<Rightarrow> u32" where
  "as_u32 n = word_of_nat n"

lemma unat_as_u32 [layout_simps]: "n \<le> u32_max \<Longrightarrow> unat (as_u32 n) = n"
  by (simp add: as_u32_def u32_max_less unat_of_nat)

lemma as_u32_inject: "m \<le> u32_max \<Longrightarrow> n \<le> u32_max \<Longrightarrow> as_u32 m = as_u32 n \<longleftrightarrow> m = n"
  by (metis unat_as_u32)

section \<open>Slices\<close>

text \<open>
  \<^verbatim>\<open>s[lo..hi]\<close>: panics unless \<open>lo \<le> hi \<le> length s\<close>. \<open>write_at\<close> is
  \<^verbatim>\<open>s[at..at + v.len()].copy_from_slice(v)\<close>, where the range is in bounds.
\<close>

definition subslice :: "'a list \<Rightarrow> nat \<Rightarrow> nat \<Rightarrow> 'a list result" where
  "subslice s lo hi = (if lo \<le> hi \<and> hi \<le> length s then Inr (take (hi - lo) (drop lo s))
                    else Inl Panic)"

definition index :: "'a list \<Rightarrow> nat \<Rightarrow> 'a result" where
  "index s i = (if i < length s then Inr (s ! i) else Inl Panic)"

definition write_at :: "'a list \<Rightarrow> nat \<Rightarrow> 'a list \<Rightarrow> 'a list" where
  "write_at s at v = take at s @ v @ drop (at + length v) s"

lemma subslice_in: "lo \<le> hi \<Longrightarrow> hi \<le> length s \<Longrightarrow> subslice s lo hi = Inr (take (hi - lo) (drop lo s))"
  by (simp add: subslice_def)

lemma subslice_middle:
  "length pre = lo \<Longrightarrow> hi = lo + length mid \<Longrightarrow> subslice (pre @ mid @ post) lo hi = Inr mid"
  by (simp add: subslice_def)

lemma length_write_at [simp]:
  "at + length v \<le> length s \<Longrightarrow> length (write_at s at v) = length s"
  by (simp add: write_at_def)

lemma nth_write_at:
  assumes "at + length v \<le> length s" and "i < length s"
  shows "write_at s at v ! i = (if at \<le> i \<and> i < at + length v then v ! (i - at) else s ! i)"
  using assms by (auto simp: write_at_def nth_append)

section \<open>Lists\<close>

text \<open>\<^verbatim>\<open>slice::swap\<close> for indices in range.\<close>

definition swap :: "'a list \<Rightarrow> nat \<Rightarrow> nat \<Rightarrow> 'a list" where
  "swap xs i j = xs[i := xs ! j, j := xs ! i]"

lemma length_swap [simp]: "length (swap xs i j) = length xs"
  by (simp add: swap_def)

lemma mset_swap_in: "i < length xs \<Longrightarrow> j < length xs \<Longrightarrow> mset (swap xs i j) = mset xs"
  unfolding swap_def by (rule mset_swap)

lemma take_drop_append: "take n (drop m xs) @ drop (m + n) xs = drop m xs"
  by (metis add.commute append_take_drop_id drop_drop)

lemma map_nth_upt [simp]: "map (\<lambda>i. f (xs ! i)) [0..<length xs] = map f xs"
  by (rule nth_equalityI) simp_all

end
