(* ===== verification/Rng.thy ===== *)
theory Rng
  imports Prelude
begin

text \<open>
  The randomness source of \<^verbatim>\<open>src/src/rng.rs\<close> and the sampling helpers of
  \<^verbatim>\<open>src/src/fragment/util.rs\<close>. \<^verbatim>\<open>getrandom::getrandom\<close> is a third-party function, so it is
  a parameter of every definition that draws from it: from a state of the source and a
  buffer length it gives either no bytes (the call fails) or the contents of the buffer,
  and the next state. A buffer keeps its length, so only the bytes are the source's choice.
\<close>

type_synonym 'g getrandom = "'g \<Rightarrow> nat \<Rightarrow> (nat \<Rightarrow> u8) option \<times> 'g"

section \<open>Drawing bytes\<close>

definition fill :: "'g getrandom \<Rightarrow> nat \<Rightarrow> ('g, bytes) rand" where
  "fill gr len g =
     (case gr g len of
        (None, g') \<Rightarrow> (Inl (Err (Internal ''RNG failed'')), g')
      | (Some buf, g') \<Rightarrow> (Inr (map buf [0..<len]), g'))"

definition random_u64 :: "'g getrandom \<Rightarrow> ('g, u64) rand" where
  "random_u64 gr = rbind (fill gr 8) (\<lambda>buf. rret (u64_from_le_bytes buf))"

text \<open>
  The adapter the \<^verbatim>\<open>register_rng!\<close> macro generates around an application's
  \<^verbatim>\<open>fn(&mut [u8]) -> bool\<close>: a \<^verbatim>\<open>false\<close> is reported to \<^verbatim>\<open>getrandom\<close> as an error.
\<close>

definition key_vault_rng :: "('g \<Rightarrow> nat \<Rightarrow> bool \<times> (nat \<Rightarrow> u8) \<times> 'g) \<Rightarrow> 'g getrandom" where
  "key_vault_rng f g len = (case f g len of (ok, buf, g') \<Rightarrow> (if ok then Some buf else None, g'))"

section \<open>Sampling and shuffling\<close>

definition sample_range :: "'g getrandom \<Rightarrow> nat \<Rightarrow> nat \<Rightarrow> ('g, nat) rand" where
  "sample_range gr lo hi =
     (if hi < lo then rlift (Inl Panic)
      else let span = hi - lo + 1
           in if usize_max < span then rlift (Inl Panic)
              else rbind (random_u64 gr) (\<lambda>r. rret (lo + unat r mod span)))"

primrec fisher_yates_loop :: "'g getrandom \<Rightarrow> nat \<Rightarrow> 'a list \<Rightarrow> ('g, 'a list) rand" where
  "fisher_yates_loop gr 0 xs = rret xs"
| "fisher_yates_loop gr (Suc n) xs =
     rbind (random_u64 gr) (\<lambda>r.
       let i = Suc n; j = unat r mod (i + 1)
       in fisher_yates_loop gr n (swap xs i j))"

definition fisher_yates :: "'g getrandom \<Rightarrow> 'a list \<Rightarrow> ('g, 'a list) rand" where
  "fisher_yates gr xs =
     (if length xs < 2 then rret xs else fisher_yates_loop gr (length xs - 1) xs)"

section \<open>A source that does not fail\<close>

text \<open>What the functional properties assume of the operating system's generator.\<close>

definition rng_total :: "'g getrandom \<Rightarrow> bool" where
  "rng_total gr \<longleftrightarrow> (\<forall>g n. fst (gr g n) \<noteq> None)"

text \<open>A source for examples: it counts upwards, one per byte drawn.\<close>

definition counter_rng :: "nat getrandom" where
  "counter_rng g len = (Some (\<lambda>i. word_of_nat (g + i)), g + len)"

text \<open>A source for examples that always fails.\<close>

definition broken_rng :: "nat getrandom" where
  "broken_rng g len = (None, g)"

lemma counter_rng_total: "rng_total counter_rng"
  by (simp add: rng_total_def counter_rng_def)

section \<open>Facts\<close>

lemma fill_length: "fill gr n g = (Inr bs, g') \<Longrightarrow> length bs = n"
  by (auto simp: fill_def split: prod.splits option.splits)

lemma fill_ok:
  assumes "rng_total gr"
  shows "returns_ok (fill gr n)"
  unfolding returns_ok_def
proof
  fix g
  from assms have "fst (gr g n) \<noteq> None"
    by (simp add: rng_total_def)
  then obtain buf g' where "gr g n = (Some buf, g')"
    by (cases "gr g n") auto
  then show "\<exists>a g'. fill gr n g = (Inr a, g')"
    by (simp add: fill_def)
qed

lemma random_u64_ok: "rng_total gr \<Longrightarrow> returns_ok (random_u64 gr)"
  unfolding random_u64_def by (blast intro: fill_ok)

lemma fill_error: "fill gr n g = (Inl e, g') \<Longrightarrow> e = Err (Internal ''RNG failed'')"
  by (auto simp: fill_def split: prod.splits option.splits)

lemma random_u64_error: "random_u64 gr g = (Inl e, g') \<Longrightarrow> e = Err (Internal ''RNG failed'')"
  by (auto simp: random_u64_def result_simps dest: fill_error)

lemma mod_Suc_le: "k mod (n + 1) \<le> (n::nat)"
  using mod_less_divisor [of "n + 1" k] by simp

lemma sample_range_bounds:
  assumes "sample_range gr lo hi g = (Inr n, g')"
  shows "lo \<le> n \<and> n \<le> hi"
proof -
  from assms obtain r :: u64 where "lo \<le> hi" and "n = lo + unat r mod (hi - lo + 1)"
    by (auto simp: sample_range_def Let_def result_simps split: if_splits)
  then show ?thesis
    using mod_Suc_le [of "unat r" "hi - lo"] by linarith
qed

lemma sample_range_ok:
  "rng_total gr \<Longrightarrow> lo \<le> hi \<Longrightarrow> hi - lo < usize_max \<Longrightarrow> returns_ok (sample_range gr lo hi)"
  unfolding sample_range_def Let_def by (auto intro!: random_u64_ok)

lemma sample_range_error:
  "sample_range gr lo hi g = (Inl e, g') \<Longrightarrow> lo \<le> hi \<Longrightarrow> hi - lo < usize_max \<Longrightarrow>
     e = Err (Internal ''RNG failed'')"
  by (auto simp: sample_range_def Let_def result_simps split: if_splits dest: random_u64_error)

lemma fisher_yates_loop_mset:
  "n < length xs \<Longrightarrow> fisher_yates_loop gr n xs g = (Inr ys, g') \<Longrightarrow> mset ys = mset xs"
proof (induction n arbitrary: xs g)
  case 0
  then show ?case by simp
next
  case (Suc n)
  from Suc.prems(2) obtain r :: u64 and g1 where
    rest: "fisher_yates_loop gr n (swap xs (Suc n) (unat r mod (Suc n + 1))) g1 = (Inr ys, g')"
    by (auto simp: result_simps Let_def)
  have "unat r mod (Suc n + 1) < length xs"
    using mod_Suc_le [of "unat r" "Suc n"] Suc.prems(1) by linarith
  then have "mset (swap xs (Suc n) (unat r mod (Suc n + 1))) = mset xs"
    using Suc.prems(1) by (intro mset_swap_in)
  moreover have "mset ys = mset (swap xs (Suc n) (unat r mod (Suc n + 1)))"
    by (rule Suc.IH [OF _ rest]) (use Suc.prems(1) in simp)
  ultimately show ?case by simp
qed

lemma fisher_yates_mset: "fisher_yates gr xs g = (Inr ys, g') \<Longrightarrow> mset ys = mset xs"
  by (cases "length xs < 2")
     (auto simp: fisher_yates_def intro: fisher_yates_loop_mset [of "length xs - 1" xs gr g])

lemma fisher_yates_length: "fisher_yates gr xs g = (Inr ys, g') \<Longrightarrow> length ys = length xs"
  by (metis fisher_yates_mset size_mset)

lemma fisher_yates_set: "fisher_yates gr xs g = (Inr ys, g') \<Longrightarrow> set ys = set xs"
  by (metis fisher_yates_mset set_mset_mset)

lemma fisher_yates_distinct: "fisher_yates gr xs g = (Inr ys, g') \<Longrightarrow> distinct xs \<Longrightarrow> distinct ys"
  by (metis fisher_yates_mset distinct_count_atmost_1 set_mset_mset)

lemma fisher_yates_loop_ok: "rng_total gr \<Longrightarrow> returns_ok (fisher_yates_loop gr n xs)"
  by (induction n arbitrary: xs) (auto simp: Let_def intro!: random_u64_ok)

lemma fisher_yates_ok: "rng_total gr \<Longrightarrow> returns_ok (fisher_yates gr xs)"
  by (simp add: fisher_yates_def fisher_yates_loop_ok)

lemma fisher_yates_loop_error:
  "fisher_yates_loop gr n xs g = (Inl e, g') \<Longrightarrow> e = Err (Internal ''RNG failed'')"
  by (induction n arbitrary: xs g) (auto simp: Let_def result_simps dest: random_u64_error)

lemma fisher_yates_error:
  "fisher_yates gr xs g = (Inl e, g') \<Longrightarrow> e = Err (Internal ''RNG failed'')"
  by (auto simp: fisher_yates_def split: if_splits dest: fisher_yates_loop_error)

section \<open>Properties\<close>

text \<open>The shuffle is a permutation: a successful \<^verbatim>\<open>fisher_yates\<close> returns a rearrangement of its
  input, whatever the random source gives it; if the source does not fail neither does the shuffle, and
  its only error is the one that reports the source.\<close>

theorem fisher_yates_permutes:
  "(\<forall>ys g'. fisher_yates gr xs g = (Inr ys, g') \<longrightarrow> mset ys = mset xs) \<and>
   (\<forall>e g'. fisher_yates gr xs g = (Inl e, g') \<longrightarrow> e = Err (Internal ''RNG failed'') \<and> \<not> rng_total gr)"
proof -
  have "\<not> rng_total gr" if "fisher_yates gr xs g = (Inl e, g')" for e g'
    using returns_okD [OF fisher_yates_ok, of gr xs g] that by auto
  then show ?thesis
    using fisher_yates_mset [of gr xs g] fisher_yates_error [of gr xs g] by blast
qed

theorem fisher_yates_permutes_witness:
  "\<exists>ys g'. fisher_yates counter_rng [1, 2, 3 :: nat] 0 = (Inr ys, g') \<and> mset ys = mset [1, 2, 3]"
proof -
  obtain ys g' where "fisher_yates counter_rng [1, 2, 3 :: nat] 0 = (Inr ys, g')"
    by (rule returns_okE [OF fisher_yates_ok [OF counter_rng_total]])
  moreover from this have "mset ys = mset [1, 2, 3]"
    using fisher_yates_permutes [of counter_rng "[1, 2, 3 :: nat]" 0] by blast
  ultimately show ?thesis by blast
qed

end
