(* ===== verification/Os.thy ===== *)
theory Os
  imports Rng
begin

text \<open>
  The operating system as the memory layer sees it. The functions of the backend,
  \<^verbatim>\<open>src/src/memory/unix.rs\<close> or \<^verbatim>\<open>src/src/memory/windows.rs\<close>, are a record of functions on a state
  \<open>'w\<close> of the outside world; the theory \<open>Platform\<close> gives the two records. Addresses and lengths are natural numbers. The page-size query with its
  fallback is \<^verbatim>\<open>src/src/memory/mod.rs\<close>.
\<close>

datatype access = NoAccess | ReadAccess | ReadWrite

record 'w os =
  os_lock_pages :: "'w \<Rightarrow> nat \<Rightarrow> nat \<Rightarrow> bool \<times> 'w"
  os_unlock_pages :: "'w \<Rightarrow> nat \<Rightarrow> nat \<Rightarrow> 'w"
  os_exclude_from_dumps :: "'w \<Rightarrow> nat \<Rightarrow> nat \<Rightarrow> bool \<times> 'w"
  os_include_in_dumps :: "'w \<Rightarrow> nat \<Rightarrow> nat \<Rightarrow> 'w"
  os_map_region :: "'w \<Rightarrow> nat \<Rightarrow> nat option \<times> 'w"
  os_unmap_region :: "'w \<Rightarrow> nat \<Rightarrow> nat \<Rightarrow> 'w"
  os_protect :: "'w \<Rightarrow> nat \<Rightarrow> nat \<Rightarrow> access \<Rightarrow> bool \<times> 'w"
  os_system_page_size :: "nat option"
  os_lock_survives_no_access :: bool

definition FALLBACK_PAGE_SIZE :: nat where
  "FALLBACK_PAGE_SIZE = 4096"

text \<open>\<^verbatim>\<open>usize::is_power_of_two\<close>.\<close>

definition is_power_of_two :: "nat \<Rightarrow> bool" where
  "is_power_of_two n \<longleftrightarrow> list_ex (\<lambda>k. n = 2 ^ k) [0..<64]"

text \<open>The size is queried once and cached; the query is a constant of the platform.\<close>

definition page_size :: "'w os \<Rightarrow> nat" where
  "page_size os =
     (case os_system_page_size os of
        Some n \<Rightarrow> if is_power_of_two n then n else FALLBACK_PAGE_SIZE
      | None \<Rightarrow> FALLBACK_PAGE_SIZE)"

lemma page_size_power: "\<exists>k < 64. page_size os = 2 ^ k"
proof -
  have "\<exists>k < 64. (4096 :: nat) = 2 ^ k"
    by (rule exI [of _ 12]) simp
  then show ?thesis
    by (auto simp: page_size_def is_power_of_two_def list_ex_iff FALLBACK_PAGE_SIZE_def
        split: option.splits)
qed

lemma page_size_pos [simp]: "0 < page_size os"
  using page_size_power [of os] by auto

text \<open>\<^verbatim>\<open>usize::checked_next_multiple_of\<close>, for a positive divisor.\<close>

definition checked_next_multiple_of :: "nat \<Rightarrow> nat \<Rightarrow> nat option" where
  "checked_next_multiple_of n p =
     (let r = n mod p; m = (if r = 0 then n else n + (p - r))
      in if m \<le> usize_max then Some m else None)"

lemma checked_next_multiple_of_Some:
  assumes "checked_next_multiple_of n p = Some m" and "0 < p"
  shows "n \<le> m" and "m mod p = 0" and "m < n + p" and "m \<le> usize_max"
proof -
  show "m \<le> usize_max"
    using assms(1) by (auto simp: checked_next_multiple_of_def Let_def split: if_splits)
  have m: "m = (if n mod p = 0 then n else n + (p - n mod p))"
    using assms(1) by (auto simp: checked_next_multiple_of_def Let_def split: if_splits)
  have r: "n mod p < p" using assms(2) by simp
  show "n \<le> m" using m by simp
  show "m < n + p" using m r assms(2) by auto
  show "m mod p = 0"
  proof (cases "n mod p = 0")
    case False
    have "n + (p - n mod p) = n div p * p + p"
      using r div_mult_mod_eq [of n p] by linarith
    with False m show ?thesis by simp
  qed (use m in simp)
qed

text \<open>An operating system for examples: it grants everything and hands out new addresses.\<close>

definition toy_os :: "nat os" where
  "toy_os = \<lparr>os_lock_pages = (\<lambda>w a n. (True, w)), os_unlock_pages = (\<lambda>w a n. w),
     os_exclude_from_dumps = (\<lambda>w a n. (True, w)), os_include_in_dumps = (\<lambda>w a n. w),
     os_map_region = (\<lambda>w n. (Some w, w + n)), os_unmap_region = (\<lambda>w a n. w),
     os_protect = (\<lambda>w a n p. (True, w)), os_system_page_size = Some 16,
     os_lock_survives_no_access = True\<rparr>"

lemma toy_os_page: "page_size toy_os = 16" "checked_next_multiple_of 3 16 = Some 16"
proof -
  have "is_power_of_two 16"
    by (auto simp: is_power_of_two_def list_ex_iff intro!: bexI [of _ 4])
  then show "page_size toy_os = 16"
    by (simp add: page_size_def toy_os_def)
  show "checked_next_multiple_of 3 16 = Some 16"
    by (simp add: checked_next_multiple_of_def usize_max_def)
qed

end
