(* ===== verification/Guarded.thy ===== *)
theory Guarded
  imports Os
begin

text \<open>
  Page-protected regions, \<^verbatim>\<open>src/src/memory/guarded.rs\<close>. A region is the mapping's address
  and lengths, what the operating system granted, the number of live readers, and, for the
  model, the current protection and the bytes of the mapping. The protection field changes
  only when a protection call of the operating system reports success.
\<close>

record guarded_region =
  base :: nat
  map_len :: nat
  used_len :: nat
  locked :: bool
  no_dump :: bool
  readers :: nat
  prot :: access
  mem :: bytes

section \<open>Operations\<close>

text \<open>\<^verbatim>\<open>GuardedRegion::new\<close>: a fresh anonymous mapping is read-write and zero-filled.\<close>

definition guarded_new :: "'w os \<Rightarrow> nat \<Rightarrow> ('w, guarded_region) rand" where
  "guarded_new os n w =
     (let page = page_size os
      in case checked_next_multiple_of (max n 1) page of
           None \<Rightarrow> (Inl (Err (MemoryLock ''protected region size overflowed'')), w)
         | Some ml \<Rightarrow>
             (case os_map_region os w ml of
                (None, w1) \<Rightarrow>
                  (Inl (Err (MemoryLock ''could not map a page-protected region for the key'')), w1)
              | (Some raw, w1) \<Rightarrow>
                  let (lk, w2) = (if os_lock_survives_no_access os
                                  then os_lock_pages os w1 raw ml else (False, w1));
                      (nd, w3) = os_exclude_from_dumps os w2 raw ml
                  in (Inr \<lparr>base = raw, map_len = ml, used_len = n, locked = lk, no_dump = nd,
                           readers = 0, prot = ReadWrite, mem = replicate ml 0\<rparr>, w3)))"

definition guarded_seal :: "'w os \<Rightarrow> guarded_region \<Rightarrow> ('w, guarded_region) rand" where
  "guarded_seal os r w =
     (case os_protect os w (base r) (map_len r) NoAccess of
        (True, w1) \<Rightarrow> (Inr (r\<lparr>prot := NoAccess\<rparr>), w1)
      | (False, w1) \<Rightarrow>
          (Inl (Err (MemoryLock ''could not make the key's pages inaccessible'')), w1))"

text \<open>
  \<^verbatim>\<open>GuardedRegion::open\<close> and \<^verbatim>\<open>Drop for RegionAccess\<close>. Both run with the \<^verbatim>\<open>readers\<close> lock
  held, so each is one step. The guard's drop ignores the result of the protection call.
\<close>

definition guarded_open :: "'w os \<Rightarrow> guarded_region \<Rightarrow> ('w, guarded_region) rand" where
  "guarded_open os r w =
     (if readers r = 0
      then (case os_protect os w (base r) (map_len r) ReadAccess of
              (True, w1) \<Rightarrow> (Inr (r\<lparr>prot := ReadAccess, readers := 1\<rparr>), w1)
            | (False, w1) \<Rightarrow>
                (Inl (Err (MemoryLock ''could not make the key's pages readable'')), w1))
      else (Inr (r\<lparr>readers := readers r + 1\<rparr>), w))"

definition region_access_drop :: "'w os \<Rightarrow> guarded_region \<Rightarrow> 'w \<Rightarrow> guarded_region \<times> 'w" where
  "region_access_drop os r w =
     (let r1 = r\<lparr>readers := readers r - 1\<rparr>
      in if readers r1 = 0
         then (case os_protect os w (base r1) (map_len r1) NoAccess of
                 (ok, w1) \<Rightarrow> (if ok then r1\<lparr>prot := NoAccess\<rparr> else r1, w1))
         else (r1, w))"

text \<open>
  \<^verbatim>\<open>Drop for GuardedRegion\<close>: the bytes left in the pages when they go back to the
  operating system, and the world after the calls.
\<close>

definition guarded_drop :: "'w os \<Rightarrow> guarded_region \<Rightarrow> 'w \<Rightarrow> bytes \<times> 'w" where
  "guarded_drop os r w =
     (let (writable, w1) = os_protect os w (base r) (map_len r) ReadWrite;
          left = (if writable then replicate (map_len r) 0 else mem r);
          w2 = (if no_dump r then os_include_in_dumps os w1 (base r) (map_len r) else w1);
          w3 = (if locked r then os_unlock_pages os w2 (base r) (map_len r) else w2)
      in (left, os_unmap_region os w3 (base r) (map_len r)))"

text \<open>A read of the first bytes of the region.\<close>

definition region_read :: "guarded_region \<Rightarrow> bytes result" where
  "region_read r = (if prot r = NoAccess then Inl Segfault else Inr (take (used_len r) (mem r)))"

section \<open>Facts about single operations\<close>

lemma guarded_new_Inr:
  assumes "guarded_new os n w = (Inr r, w')"
  shows "n \<le> map_len r" and "length (mem r) = map_len r" and "map_len r mod page_size os = 0"
    and "readers r = 0" and "prot r = ReadWrite" and "used_len r = n" and "n \<le> usize_max"
proof -
  from assms obtain ml where ml: "checked_next_multiple_of (max n 1) (page_size os) = Some ml"
    and r: "map_len r = ml" "length (mem r) = map_len r" "readers r = 0" "prot r = ReadWrite"
      "used_len r = n"
    by (auto simp: guarded_new_def Let_def split: option.splits prod.splits if_splits)
  note facts = checked_next_multiple_of_Some [OF ml page_size_pos]
  show "n \<le> map_len r" "n \<le> usize_max" using facts(1,4) r(1) by simp_all
  show "map_len r mod page_size os = 0" using facts(2) r(1) by simp
  show "length (mem r) = map_len r" "readers r = 0" "prot r = ReadWrite" "used_len r = n"
    using r by simp_all
qed

lemma guarded_open_Inr:
  assumes "guarded_open os r w = (Inr r', w')"
  shows "readers r' = readers r + 1" and "mem r' = mem r" and "readers r = 0 \<longrightarrow> prot r' = ReadAccess"
    and "readers r \<noteq> 0 \<longrightarrow> prot r' = prot r" and "base r' = base r" and "map_len r' = map_len r"
  using assms by (auto simp: guarded_open_def split: if_splits prod.splits bool.splits)

lemma region_access_drop_fields:
  assumes "region_access_drop os r w = (r', w')"
  shows "readers r' = readers r - 1" and "mem r' = mem r" and "base r' = base r"
    and "map_len r' = map_len r" and "readers r - 1 \<noteq> 0 \<longrightarrow> prot r' = prot r"
  using assms by (auto simp: region_access_drop_def Let_def split: if_splits prod.splits)

section \<open>The region as a state machine\<close>

text \<open>
  Any number of threads open the region and drop their guards in any order. A failed
  \<^verbatim>\<open>open\<close> gives no guard and changes nothing. The number of live guards is a ghost
  component of the state.
\<close>

inductive region_step ::
  "'w os \<Rightarrow> guarded_region \<times> nat \<times> 'w \<Rightarrow> guarded_region \<times> nat \<times> 'w \<Rightarrow> bool" for os where
  open_ok: "guarded_open os r w = (Inr r', w') \<Longrightarrow> region_step os (r, n, w) (r', Suc n, w')"
| open_err: "guarded_open os r w = (Inl e, w') \<Longrightarrow> region_step os (r, n, w) (r, n, w')"
| close: "region_access_drop os r w = (r', w') \<Longrightarrow> region_step os (r, Suc n, w) (r', n, w')"

inductive region_reachable :: "'w os \<Rightarrow> guarded_region \<times> nat \<times> 'w \<Rightarrow> bool" for os where
  start: "guarded_new os k w = (Inr r, w1) \<Longrightarrow> length bs = length (mem r) \<Longrightarrow>
          guarded_seal os (r\<lparr>mem := bs\<rparr>) w1 = (Inr r', w2) \<Longrightarrow>
          region_reachable os (r', 0, w2)"
| step: "region_reachable os s \<Longrightarrow> region_step os s t \<Longrightarrow> region_reachable os t"

text \<open>
  The counter is the number of live guards, and a region with a live guard is readable.
  This holds whatever the operating system answers.
\<close>

definition region_inv :: "guarded_region \<times> nat \<times> 'w \<Rightarrow> bool" where
  "region_inv s \<longleftrightarrow> (case s of (r, n, w) \<Rightarrow> readers r = n \<and> (0 < n \<longrightarrow> prot r \<noteq> NoAccess))"

lemma region_step_inv: "region_step os s t \<Longrightarrow> region_inv s \<Longrightarrow> region_inv t"
proof (induction rule: region_step.induct)
  case (open_ok r w r' w' n)
  then show ?case
    using guarded_open_Inr [OF open_ok.hyps] by (auto simp: region_inv_def)
next
  case (close r w r' w' n)
  then show ?case
    using region_access_drop_fields [OF close.hyps] by (auto simp: region_inv_def)
qed (simp_all add: region_inv_def)

lemma region_reachable_inv: "region_reachable os s \<Longrightarrow> region_inv s"
proof (induction rule: region_reachable.induct)
  case (start k w r w1 bs r' w2)
  then show ?case
    using guarded_new_Inr(4) [OF start.hyps(1)]
    by (auto simp: region_inv_def guarded_seal_def split: prod.splits bool.splits)
next
  case (step s t)
  then show ?case by (blast intro: region_step_inv)
qed

text \<open>
  If protection changes always succeed, a region without a live guard is inaccessible.
\<close>

definition protect_total :: "'w os \<Rightarrow> bool" where
  "protect_total os \<longleftrightarrow> (\<forall>w a n p. fst (os_protect os w a n p))"

definition sealed_inv :: "guarded_region \<times> nat \<times> 'w \<Rightarrow> bool" where
  "sealed_inv s \<longleftrightarrow> (case s of (r, n, w) \<Rightarrow> readers r = n \<and> (n = 0 \<longrightarrow> prot r = NoAccess))"

lemma region_step_sealed:
  "region_step os s t \<Longrightarrow> protect_total os \<Longrightarrow> sealed_inv s \<Longrightarrow> sealed_inv t"
proof (induction rule: region_step.induct)
  case (open_ok r w r' w' n)
  then show ?case
    using guarded_open_Inr [OF open_ok.hyps] by (auto simp: sealed_inv_def)
next
  case (close r w r' w' n)
  then have "fst (os_protect os w (base r) (map_len r) NoAccess)"
    by (simp add: protect_total_def)
  with close show ?case
    by (auto simp: sealed_inv_def region_access_drop_def Let_def split: if_splits prod.splits)
qed (simp_all add: sealed_inv_def)

lemma region_reachable_sealed:
  "region_reachable os s \<Longrightarrow> protect_total os \<Longrightarrow> sealed_inv s"
proof (induction rule: region_reachable.induct)
  case (start k w r w1 bs r' w2)
  then show ?case
    using guarded_new_Inr(4) [OF start.hyps(1)]
    by (auto simp: sealed_inv_def guarded_seal_def split: prod.splits bool.splits)
next
  case (step s t)
  then show ?case by (blast intro: region_step_sealed)
qed

section \<open>Properties\<close>

lemma toy_region:
  obtains r w1 r' w2 where "guarded_new toy_os 3 0 = (Inr r, w1)"
    "guarded_seal toy_os (r\<lparr>mem := mem r\<rparr>) w1 = (Inr r', w2)"
proof -
  have "\<exists>r w1. guarded_new toy_os 3 0 = (Inr r, w1)"
    by (simp add: guarded_new_def toy_os_page Let_def) (simp add: toy_os_def)
  then obtain r w1 where "guarded_new toy_os 3 0 = (Inr r, w1)" by blast
  moreover have "\<exists>r' w2. guarded_seal toy_os (r\<lparr>mem := mem r\<rparr>) w1 = (Inr r', w2)"
    by (simp add: guarded_seal_def toy_os_def)
  ultimately show thesis
    using that by blast
qed

text \<open>Guards keep a region readable: in every state that any number of openings, failed openings and
  guard drops can reach, the reader count is the number of live guards, and while there is one the region
  can be read, whatever the operating system answered to the protection calls.\<close>

theorem region_guard_readable:
  assumes "region_reachable os (r, n, w)"
  shows "readers r = n \<and> (0 < n \<longrightarrow> region_read r = Inr (take (used_len r) (mem r)))"
  using region_reachable_inv [OF assms] by (simp add: region_inv_def region_read_def)

theorem region_guard_readable_witness:
  "\<exists>r w. region_reachable toy_os (r, 1, w) \<and> readers r = 1 \<and>
     (0 < (1::nat) \<longrightarrow> region_read r = Inr (take (used_len r) (mem r)))"
proof -
  obtain r w1 r' w2 where new: "guarded_new toy_os 3 0 = (Inr r, w1)"
    and seal: "guarded_seal toy_os (r\<lparr>mem := mem r\<rparr>) w1 = (Inr r', w2)"
    by (rule toy_region)
  have "\<exists>r2 w3. guarded_open toy_os r' w2 = (Inr r2, w3)"
    by (simp add: guarded_open_def toy_os_def)
  then obtain r2 w3 where op: "guarded_open toy_os r' w2 = (Inr r2, w3)" by blast
  have "region_reachable toy_os (r2, Suc 0, w3)"
    by (rule region_reachable.step [OF region_reachable.start [OF new refl seal] region_step.open_ok [OF op]])
  with region_guard_readable [OF this] show ?thesis by auto
qed

text \<open>A region with no live guard is sealed: if the operating system grants the protection changes,
  reading a region that no guard holds open is a fault in every reachable state.\<close>

lemma region_sealed_without_guard:
  assumes "region_reachable os (r, 0, w)" "protect_total os"
  shows "region_read r = Inl Segfault"
  using region_reachable_sealed [OF assms] by (simp add: sealed_inv_def region_read_def)

lemma region_sealed_without_guard_witness:
  "\<exists>r w. region_reachable toy_os (r, 0, w) \<and> region_read r = Inl Segfault"
proof -
  obtain r w1 r' w2 where new: "guarded_new toy_os 3 0 = (Inr r, w1)"
    and seal: "guarded_seal toy_os (r\<lparr>mem := mem r\<rparr>) w1 = (Inr r', w2)"
    by (rule toy_region)
  have reach: "region_reachable toy_os (r', 0, w2)"
    by (rule region_reachable.start [OF new refl seal])
  have "protect_total toy_os"
    by (simp add: protect_total_def toy_os_def)
  with region_sealed_without_guard [OF reach this] reach show ?thesis by blast
qed

end
