(* ===== verification/Fragments.thy ===== *)
theory Fragments
  imports Guarded
begin

text \<open>
  The fragment container of \<^verbatim>\<open>src/src/fragment/mod.rs\<close> and the \<^verbatim>\<open>FragmentStrategy\<close> trait.
  A locked buffer is the bytes it holds. \<^verbatim>\<open>Fragments\<close> shares its buffers through an \<^verbatim>\<open>Arc\<close>
  and never mutates them, so sharing is copying here. The contract of the trait is the
  locale \<open>fragment_strategy\<close>: the clients of a strategy (the layered strategy, the vault)
  are proved against it once. A key that was fragmented is a \<^verbatim>\<open>Vec<u8>\<close>, so its length is at most
  \<^verbatim>\<open>isize::MAX\<close>; the contract says so (\<open>frag_fits\<close>), and the built-in strategies enforce less.

  Key storage that has been moved into a page-protected region is a \<open>storage\<close>: the region
  by its identity in a table of live regions (the number the vault gave it, which stands for
  the \<^verbatim>\<open>Arc\<close>), and the sizes that say where the chunks and
  the layout lie in it. Reading it while the region is inaccessible is a segmentation fault.
\<close>

section \<open>Fragments\<close>

record fragments =
  chunks :: "bytes list"
  layout :: bytes
  layout_start :: nat
  total_len :: nat

definition from_parts :: "bytes list \<Rightarrow> bytes \<Rightarrow> nat \<Rightarrow> fragments" where
  "from_parts cs ly n = \<lparr>chunks = cs, layout = ly, layout_start = 0, total_len = n\<rparr>"

definition from_chunks :: "bytes list \<Rightarrow> bytes \<Rightarrow> nat \<Rightarrow> fragments" where
  "from_chunks cs ly n = from_parts (map (\<lambda>c. c) cs) ly n"

definition chunk_count :: "fragments \<Rightarrow> nat" where
  "chunk_count fr = length (chunks fr)"

definition chunk :: "fragments \<Rightarrow> nat \<Rightarrow> bytes option" where
  "chunk fr i = (if i < length (chunks fr) then Some (chunks fr ! i) else None)"

text \<open>\<^verbatim>\<open>.get(layout_start..).unwrap_or_default()\<close>.\<close>

definition layout_bytes :: "fragments \<Rightarrow> bytes" where
  "layout_bytes fr = (if layout_start fr \<le> length (layout fr) then drop (layout_start fr) (layout fr)
                      else [])"

definition view_skipping :: "fragments \<Rightarrow> nat \<Rightarrow> fragments" where
  "view_skipping fr skip = fr\<lparr>layout_start := usize_saturating_add (layout_start fr) skip\<rparr>"

definition into_chunks :: "fragments \<Rightarrow> bytes list" where
  "into_chunks fr = chunks fr"

lemma from_parts_start [simp]: "layout_start (from_parts cs ly n) = 0"
  by (simp add: from_parts_def)

lemma from_parts_simps [simp]:
  "chunks (from_parts cs ly n) = cs" "layout (from_parts cs ly n) = ly"
  "total_len (from_parts cs ly n) = n" "layout_bytes (from_parts cs ly n) = ly"
  by (simp_all add: from_parts_def layout_bytes_def)

lemma layout_bytes_drop: "layout_bytes fr = drop (layout_start fr) (layout fr)"
  by (simp add: layout_bytes_def)

lemma view_skipping_simps [simp]:
  "chunks (view_skipping fr k) = chunks fr" "total_len (view_skipping fr k) = total_len fr"
  by (simp_all add: view_skipping_def)

lemma layout_bytes_view_skipping:
  assumes "length (layout fr) \<le> usize_max"
  shows "layout_bytes (view_skipping fr k) = drop k (layout_bytes fr)"
  using assms
  by (auto simp: layout_bytes_drop view_skipping_def usize_saturating_add_def min_def add.commute)

text \<open>
  Two values a strategy cannot tell apart: it reads the chunks, the visible layout and the
  length. Both layouts are buffers that fit in memory.
\<close>

definition same_view :: "fragments \<Rightarrow> fragments \<Rightarrow> bool" where
  "same_view a b \<longleftrightarrow> chunks a = chunks b \<and> layout_bytes a = layout_bytes b \<and> total_len a = total_len b \<and>
     length (layout a) \<le> usize_max \<and> length (layout b) \<le> usize_max"

lemma same_view_skipping: "same_view a b \<Longrightarrow> same_view (view_skipping a k) (view_skipping b k)"
  by (auto simp: same_view_def layout_bytes_view_skipping) (simp_all add: view_skipping_def)

section \<open>The strategy trait\<close>

text \<open>
  \<^verbatim>\<open>defragment_into\<close> writes into the caller's buffer, also when it then fails, so it
  returns the buffer beside its result.
\<close>

record 'g strategy =
  st_fragment :: "bytes \<Rightarrow> ('g, fragments) rand"
  st_defragment :: "fragments \<Rightarrow> bytes result"
  st_defragment_into :: "fragments \<Rightarrow> bytes \<Rightarrow> unit result \<times> bytes"
  st_describe :: string

text \<open>
  The body every built-in \<^verbatim>\<open>defragment\<close> has: a zeroed buffer handed to \<^verbatim>\<open>defragment_into\<close>. The
  length comes from the fragments, and \<^verbatim>\<open>vec![0u8; n]\<close> panics when it is above \<^verbatim>\<open>isize::MAX\<close>.
\<close>

definition defragment_via :: "(fragments \<Rightarrow> bytes \<Rightarrow> unit result \<times> bytes) \<Rightarrow> fragments \<Rightarrow> bytes result" where
  "defragment_via into fr =
     ebind (zero_vec (total_len fr)) (\<lambda>buf.
       case into fr buf of
         (Inl e, out) \<Rightarrow> Inl e
       | (Inr u, out) \<Rightarrow> Inr out)"

text \<open>The trait's default \<^verbatim>\<open>defragment_into\<close>, for a strategy that only has \<^verbatim>\<open>defragment\<close>.\<close>

definition default_defragment_into ::
  "(fragments \<Rightarrow> bytes result) \<Rightarrow> fragments \<Rightarrow> bytes \<Rightarrow> unit result \<times> bytes" where
  "default_defragment_into defrag fr out =
     (if length out \<noteq> total_len fr
      then (Inl (Err (Defragment ''scratch buffer size does not match fragments.total_len()'')), out)
      else case defrag fr of
             Inl e \<Rightarrow> (Inl e, out)
           | Inr raw \<Rightarrow> if length raw = length out then (Inr (), raw) else (Inl Panic, out))"

locale fragment_strategy =
  fixes frag :: "bytes \<Rightarrow> ('g, fragments) rand"
    and into :: "fragments \<Rightarrow> bytes \<Rightarrow> unit result \<times> bytes"
  assumes round_trip:
      "frag key g = (Inr fr, g') \<Longrightarrow> length out = length key \<Longrightarrow> into fr out = (Inr (), key)"
    and frag_total_len: "frag key g = (Inr fr, g') \<Longrightarrow> total_len fr = length key"
    and frag_start: "frag key g = (Inr fr, g') \<Longrightarrow> layout_start fr = 0"
    and frag_fits: "frag key g = (Inr fr, g') \<Longrightarrow> length key \<le> isize_max"
    and into_view: "same_view a b \<Longrightarrow> into a out = into b out"
    and into_length: "into fr out = (r, out') \<Longrightarrow> length out' = length out"
begin

lemma defragment_round_trip: "frag key g = (Inr fr, g') \<Longrightarrow> defragment_via into fr = Inr key"
  using round_trip [of key g fr g' "replicate (total_len fr) 0"] frag_total_len [of key g fr g']
    frag_fits [of key g fr g']
  by (simp add: defragment_via_def zero_vec_def)

lemma defragment_length: "defragment_via into fr = Inr key \<Longrightarrow> length key = total_len fr"
  by (auto simp: defragment_via_def zero_vec_def split: prod.splits sum.splits if_splits dest!: into_length)

lemma default_into_round_trip:
  "frag key g = (Inr fr, g') \<Longrightarrow> length out = length key \<Longrightarrow>
     default_defragment_into (defragment_via into) fr out = (Inr (), key)"
  by (simp add: default_defragment_into_def defragment_round_trip frag_total_len)

end

text \<open>The contract of a strategy object.\<close>

definition strategy_ok :: "'g strategy \<Rightarrow> bool" where
  "strategy_ok s \<longleftrightarrow> fragment_strategy (st_fragment s) (st_defragment_into s) \<and>
     st_defragment s = defragment_via (st_defragment_into s)"

section \<open>Page-protected storage\<close>

datatype storage =
    Heap fragments
  | Region nat "nat list" nat nat

type_synonym regions = "nat \<rightharpoonup> guarded_region"

text \<open>Where the chunks of the given sizes lie in a buffer, one after the other.\<close>

fun cut :: "nat list \<Rightarrow> 'a list \<Rightarrow> 'a list list" where
  "cut [] bs = []"
| "cut (n # sizes) bs = take n bs # cut sizes (drop n bs)"

text \<open>The copy loop of \<^verbatim>\<open>into_protected\<close>: each chunk after the previous one, then the layout.\<close>

fun copy_chunks :: "bytes \<Rightarrow> nat \<Rightarrow> bytes list \<Rightarrow> bytes \<times> nat" where
  "copy_chunks dst at [] = (dst, at)"
| "copy_chunks dst at (c # cs) = copy_chunks (write_at dst at c) (at + length c) cs"

fun checked_sum :: "nat \<Rightarrow> nat list \<Rightarrow> nat option" where
  "checked_sum acc [] = Some acc"
| "checked_sum acc (n # ns) = (if acc + n \<le> usize_max then checked_sum (acc + n) ns else None)"

definition into_protected ::
  "'w os \<Rightarrow> nat \<Rightarrow> regions \<Rightarrow> fragments \<Rightarrow> ('w, storage \<times> regions) rand" where
  "into_protected os i rs fr w =
     (let ly = layout_bytes fr;
          sizes = map length (chunks fr)
      in case checked_sum (length ly) sizes of
           None \<Rightarrow> (Inl (Err (Internal ''fragment storage size overflowed'')), w)
         | Some tot \<Rightarrow>
             rbind (guarded_new os tot) (\<lambda>r w1.
               let (dst, at) = copy_chunks (mem r) 0 (chunks fr);
                   r1 = r\<lparr>mem := write_at dst at ly\<rparr>
               in (case guarded_seal os r1 w1 of
                     (Inl e, w2) \<Rightarrow> (Inl e, snd (guarded_drop os r1 w2))
                   | (Inr r2, w2) \<Rightarrow>
                       (Inr (Region i sizes (length ly) (total_len fr), rs(i \<mapsto> r2)), w2))) w)"

text \<open>What a strategy sees of the storage.\<close>

fun load :: "regions \<Rightarrow> storage \<Rightarrow> fragments result" where
  "load rs (Heap fr) = Inr fr"
| "load rs (Region i sizes ly_len n) =
     (case rs i of
        None \<Rightarrow> Inl Segfault
      | Some r \<Rightarrow>
          if prot r = NoAccess then Inl Segfault
          else Inr (from_parts (cut sizes (mem r))
                      (take ly_len (drop (sum_list sizes) (mem r))) n))"

fun storage_total_len :: "storage \<Rightarrow> nat" where
  "storage_total_len (Heap fr) = total_len fr"
| "storage_total_len (Region i sizes ly_len n) = n"

text \<open>\<^verbatim>\<open>Fragments::open\<close> and the drop of the guard it returned.\<close>

fun storage_open :: "'w os \<Rightarrow> regions \<Rightarrow> storage \<Rightarrow> ('w, regions) rand" where
  "storage_open os rs (Heap fr) w = (Inr rs, w)"
| "storage_open os rs (Region i sizes ly_len n) w =
     (case rs i of
        None \<Rightarrow> (Inl Segfault, w)
      | Some r \<Rightarrow> rbind (guarded_open os r) (\<lambda>r'. rret (rs(i \<mapsto> r'))) w)"

fun storage_close :: "'w os \<Rightarrow> regions \<Rightarrow> storage \<Rightarrow> 'w \<Rightarrow> regions \<times> 'w" where
  "storage_close os rs (Heap fr) w = (rs, w)"
| "storage_close os rs (Region i sizes ly_len n) w =
     (case rs i of
        None \<Rightarrow> (rs, w)
      | Some r \<Rightarrow> (case region_access_drop os r w of (r', w') \<Rightarrow> (rs(i \<mapsto> r'), w')))"

text \<open>The drop of the last handle to the storage: a region is wiped and unmapped.\<close>

fun storage_drop :: "'w os \<Rightarrow> regions \<Rightarrow> storage \<Rightarrow> 'w \<Rightarrow> regions \<times> 'w" where
  "storage_drop os rs (Heap fr) w = (rs, w)"
| "storage_drop os rs (Region i sizes ly_len n) w =
     (case rs i of
        None \<Rightarrow> (rs, w)
      | Some r \<Rightarrow> (rs(i := None), snd (guarded_drop os r w)))"

section \<open>The move into a region preserves the fragments\<close>

lemma checked_sum_Some: "checked_sum acc ns = Some t \<Longrightarrow> t = acc + sum_list ns"
  by (induction acc ns rule: checked_sum.induct) (auto split: if_splits)

lemma copy_chunks_eq:
  "at + sum_list (map length cs) \<le> length dst \<Longrightarrow>
   copy_chunks dst at cs =
     (take at dst @ concat cs @ drop (at + sum_list (map length cs)) dst,
      at + sum_list (map length cs))"
proof (induction dst at cs rule: copy_chunks.induct)
  case (1 dst at)
  then show ?case by simp
next
  case (2 dst at c cs)
  let ?n = "sum_list (map length cs)"
  have "length (write_at dst at c) = length dst"
    using "2.prems" by simp
  then have "copy_chunks dst at (c # cs) =
      (take (at + length c) (write_at dst at c) @ concat cs @
         drop (at + length c + ?n) (write_at dst at c), at + length c + ?n)"
    using "2.IH" "2.prems" by simp
  moreover have "take (at + length c) (write_at dst at c) = take at dst @ c"
    and "drop (at + length c + ?n) (write_at dst at c) = drop (at + length c + ?n) dst"
    using "2.prems" by (simp_all add: write_at_def ac_simps)
  ultimately show ?case
    by (simp add: add.assoc)
qed

lemma cut_concat: "cut (map length cs) (concat cs @ rest) = cs"
  by (induction cs) simp_all

lemma concat_cut_length: "length (concat cs) = sum_list (map length cs)"
  by (induction cs) simp_all

lemma into_protected_region:
  assumes "into_protected os i rs fr w = (Inr (st, rs'), w')"
  shows "\<exists>r rest. length (layout_bytes fr) \<le> usize_max \<and> st = Region i (map length (chunks fr)) (length (layout_bytes fr)) (total_len fr)
           \<and> rs' = rs(i \<mapsto> r) \<and> readers r = 0 \<and> prot r = NoAccess
           \<and> mem r = concat (chunks fr) @ layout_bytes fr @ rest"
proof -
  let ?sizes = "map length (chunks fr)" and ?ly = "layout_bytes fr"
  from assms obtain tot r w1 where
    tot: "checked_sum (length ?ly) ?sizes = Some tot" and
    new: "guarded_new os tot w = (Inr r, w1)" and
    rest: "(case copy_chunks (mem r) 0 (chunks fr) of (dst, at) \<Rightarrow>
       (case guarded_seal os (r\<lparr>mem := write_at dst at ?ly\<rparr>) w1 of
         (Inl e, w2) \<Rightarrow> (Inl e, snd (guarded_drop os (r\<lparr>mem := write_at dst at ?ly\<rparr>) w2))
       | (Inr r2, w2) \<Rightarrow> (Inr (Region i ?sizes (length ?ly) (total_len fr), rs(i \<mapsto> r2)), w2))) = (Inr (st, rs'), w')"
    by (auto simp: into_protected_def Let_def result_simps split: option.splits)
  obtain dst at where copy: "copy_chunks (mem r) 0 (chunks fr) = (dst, at)"
    by fastforce
  from rest copy obtain r2 where
    seal: "guarded_seal os (r\<lparr>mem := write_at dst at ?ly\<rparr>) w1 = (Inr r2, w')" and
    st: "st = Region i ?sizes (length ?ly) (total_len fr)" "rs' = rs(i \<mapsto> r2)"
    by (auto split: prod.splits sum.splits)
  note len = guarded_new_Inr [OF new]
  have t: "tot = length ?ly + sum_list ?sizes"
    using checked_sum_Some [OF tot] .
  have fits: "sum_list ?sizes \<le> length (mem r)"
    using len t by simp
  have "dst = concat (chunks fr) @ drop (sum_list ?sizes) (mem r)" and at: "at = sum_list ?sizes"
    using copy copy_chunks_eq [of 0 "chunks fr" "mem r"] fits by auto
  then have "write_at dst at ?ly =
      concat (chunks fr) @ ?ly @ drop (length ?ly) (drop (sum_list ?sizes) (mem r))"
    by (simp add: write_at_def concat_cut_length)
  moreover have "mem r2 = write_at dst at ?ly" "prot r2 = NoAccess" "readers r2 = 0"
    using seal len(4) by (auto simp: guarded_seal_def split: prod.splits bool.splits)
  ultimately show ?thesis
    using st len(7) t by (intro exI [of _ r2]) simp
qed

text \<open>
  What the storage gives back when it is open is what was moved in; while it is sealed,
  reading it faults.
\<close>

lemma into_protected_load:
  assumes "into_protected os i rs fr w = (Inr (st, rs'), w')"
    and "storage_open os rs' st w'' = (Inr rs2, w3)" and "layout_start fr = 0"
  shows "\<exists>fr2. load rs2 st = Inr fr2 \<and> same_view fr2 fr"
proof -
  obtain r rest where st: "st = Region i (map length (chunks fr)) (length (layout_bytes fr)) (total_len fr)"
    and rs: "rs' = rs(i \<mapsto> r)" and r: "readers r = 0" and ly: "length (layout_bytes fr) \<le> usize_max"
    and mem: "mem r = concat (chunks fr) @ layout_bytes fr @ rest"
    using into_protected_region [OF assms(1)] by blast
  from assms(2) st rs obtain r2 where op: "guarded_open os r w'' = (Inr r2, w3)"
    and rs2: "rs2 = rs'(i \<mapsto> r2)"
    by (auto simp: result_simps)
  have "prot r2 = ReadAccess" "mem r2 = mem r"
    using guarded_open_Inr [OF op] r by auto
  then show ?thesis
    using st rs2 mem ly assms(3)
    by (simp add: same_view_def cut_concat concat_cut_length layout_bytes_drop)
qed

lemma into_protected_sealed:
  "into_protected os i rs fr w = (Inr (st, rs'), w') \<Longrightarrow> load rs' st = Inl Segfault"
  by (auto dest!: into_protected_region)

lemma into_protected_total_len:
  "into_protected os i rs fr w = (Inr (st, rs'), w') \<Longrightarrow> storage_total_len st = total_len fr"
  by (auto dest!: into_protected_region)

end
