(* ===== verification/Decoys.thy ===== *)
theory Decoys
  imports Rng
begin

text \<open>
  Layer 4, \<^verbatim>\<open>src/src/decoy/\<close>: the \<^verbatim>\<open>DecoyStrategy\<close> trait and the three built-in
  strategies, and the BLAKE3 entry points of \<^verbatim>\<open>src/src/normalize.rs\<close> that they and the
  vault use. The \<^verbatim>\<open>blake3\<close> crate is a parameter: for each mode, the extendable output of
  an absorbed input as a function from a position to a byte. Filling a buffer of \<open>n\<close> bytes
  reads the first \<open>n\<close> positions; two updates absorb the concatenation.
\<close>

section \<open>BLAKE3\<close>

record blake3 =
  b3_hash :: "bytes \<Rightarrow> nat \<Rightarrow> u8"
  b3_keyed :: "bytes \<Rightarrow> bytes \<Rightarrow> nat \<Rightarrow> u8"
  b3_derive :: "string \<Rightarrow> bytes \<Rightarrow> nat \<Rightarrow> u8"

text \<open>\<^verbatim>\<open>reader.fill(out)\<close> for an output buffer of the given length.\<close>

definition xof_fill :: "(nat \<Rightarrow> u8) \<Rightarrow> nat \<Rightarrow> bytes" where
  "xof_fill reader n = map reader [0..<n]"

definition NORMALIZED_LEN :: nat where
  "NORMALIZED_LEN = 32"

definition blake3_into :: "blake3 \<Rightarrow> bytes \<Rightarrow> nat \<Rightarrow> bytes" where
  "blake3_into b3 input out_len = xof_fill (b3_hash b3 input) out_len"

definition blake3_keyed_into :: "blake3 \<Rightarrow> bytes \<Rightarrow> bytes \<Rightarrow> nat \<Rightarrow> bytes" where
  "blake3_keyed_into b3 hash_key input out_len = xof_fill (b3_keyed b3 hash_key input) out_len"

definition blake3_derive_into :: "blake3 \<Rightarrow> string \<Rightarrow> bytes \<Rightarrow> nat \<Rightarrow> bytes" where
  "blake3_derive_into b3 ctx material out_len = xof_fill (b3_derive b3 ctx material) out_len"

definition blake3_normalize :: "blake3 \<Rightarrow> bytes \<Rightarrow> bytes" where
  "blake3_normalize b3 key = blake3_into b3 key NORMALIZED_LEN"

definition blake3_keyed_normalize :: "blake3 \<Rightarrow> bytes \<Rightarrow> bytes \<Rightarrow> bytes" where
  "blake3_keyed_normalize b3 hash_key key = blake3_keyed_into b3 hash_key key NORMALIZED_LEN"

lemma length_xof_fill [simp]: "length (xof_fill r n) = n"
  by (simp add: xof_fill_def)

lemma length_normalize [simp]:
  "length (blake3_normalize b3 key) = 32" "length (blake3_keyed_normalize b3 k key) = 32"
  by (simp_all add: blake3_normalize_def blake3_keyed_normalize_def blake3_into_def
      blake3_keyed_into_def NORMALIZED_LEN_def)

lemma length_keyed_derive [simp]:
  "length (blake3_keyed_into b3 k i n) = n" "length (blake3_derive_into b3 c m n) = n"
  by (simp_all add: blake3_keyed_into_def blake3_derive_into_def)

text \<open>A BLAKE3 stand-in for examples: it sums its input.\<close>

definition toy_blake3 :: blake3 where
  "toy_blake3 = \<lparr>b3_hash = (\<lambda>i n. sum_list i + word_of_nat n),
                 b3_keyed = (\<lambda>k i n. sum_list k + sum_list i + word_of_nat (2 * n)),
                 b3_derive = (\<lambda>c i n. sum_list i + word_of_nat (3 * n))\<rparr>"

section \<open>The trait and its contract\<close>

record 'g decoy =
  dc_generate :: "bytes \<Rightarrow> nat \<Rightarrow> ('g, bytes) rand"
  dc_describe :: string

text \<open>A strategy produces as many bytes as it is asked for.\<close>

locale decoy_strategy =
  fixes generate :: "bytes \<Rightarrow> nat \<Rightarrow> ('g, bytes) rand"
  assumes generate_length: "generate key n g = (Inr bs, g') \<Longrightarrow> length bs = n"

section \<open>The built-in strategies\<close>

text \<open>
  Each allocates its buffer for the requested length with \<^verbatim>\<open>vec![0u8; n]\<close>, which panics above
  \<^verbatim>\<open>isize::MAX\<close>; the self-reference strategy asks for four random bytes per output byte.
\<close>

definition random_generate :: "'g getrandom \<Rightarrow> bytes \<Rightarrow> nat \<Rightarrow> ('g, bytes) rand" where
  "random_generate gr key output_len =
     (if output_len = 0 then rret []
      else rbind (rlift (zero_vec output_len)) (\<lambda>buf. fill gr (length buf)))"

definition random_decoy :: "'g getrandom \<Rightarrow> 'g decoy" where
  "random_decoy gr = \<lparr>dc_generate = random_generate gr, dc_describe = ''random''\<rparr>"

definition key_derived_generate ::
  "'g getrandom \<Rightarrow> blake3 \<Rightarrow> bytes \<Rightarrow> nat \<Rightarrow> ('g, bytes) rand" where
  "key_derived_generate gr b3 key output_len =
     (if output_len = 0 then rret []
      else rbind (fill gr 32) (\<lambda>nonce.
             let absorbed = key @ nonce
             in rbind (rlift (zero_vec output_len)) (\<lambda>out.
                  rret (xof_fill (b3_hash b3 absorbed) (length out)))))"

definition key_derived_decoy :: "'g getrandom \<Rightarrow> blake3 \<Rightarrow> 'g decoy" where
  "key_derived_decoy gr b3 =
     \<lparr>dc_generate = key_derived_generate gr b3, dc_describe = ''key-derived''\<rparr>"

text \<open>One decoy byte: four random bytes, reduced modulo the key length, index the key.\<close>

definition self_reference_byte :: "bytes \<Rightarrow> bytes \<Rightarrow> nat \<Rightarrow> u8 result" where
  "self_reference_byte key rand_buf i =
     ebind (subslice rand_buf (i * 4) (i * 4 + 4)) (\<lambda>raw.
       let idx = unat (u32_from_le_bytes raw) mod length key in index key idx)"

definition self_reference_generate :: "'g getrandom \<Rightarrow> bytes \<Rightarrow> nat \<Rightarrow> ('g, bytes) rand" where
  "self_reference_generate gr key output_len =
     (if output_len = 0 then rret []
      else if key = []
           then rlift (Inl (Err (Decoy ''self-reference decoy requires a non-empty key'')))
      else rbind (rlift (zero_vec (usize_saturating_mul output_len 4))) (\<lambda>buf.
           rbind (fill gr (length buf)) (\<lambda>rand_buf.
             rlift (emap (self_reference_byte key rand_buf) [0..<output_len]))))"

definition self_reference_decoy :: "'g getrandom \<Rightarrow> 'g decoy" where
  "self_reference_decoy gr =
     \<lparr>dc_generate = self_reference_generate gr, dc_describe = ''self-reference''\<rparr>"

section \<open>The contract holds\<close>

interpretation random: decoy_strategy "random_generate gr" for gr
  by unfold_locales
     (auto simp: random_generate_def zero_vec_def result_simps dest: fill_length split: if_splits)

interpretation key_derived: decoy_strategy "key_derived_generate gr b3" for gr b3
  by unfold_locales
     (auto simp: key_derived_generate_def zero_vec_def Let_def result_simps split: if_splits)

lemma self_reference_length:
  "self_reference_generate gr key n g = (Inr bs, g') \<Longrightarrow> length bs = n"
  by (auto simp: self_reference_generate_def zero_vec_def result_simps dest: emap_length split: if_splits)

interpretation self_reference: decoy_strategy "self_reference_generate gr" for gr
  by unfold_locales (rule self_reference_length)

lemma random_decoy_ok:
  "rng_total gr \<Longrightarrow> n \<le> isize_max \<Longrightarrow> returns_ok (dc_generate (random_decoy gr) key n)"
  by (simp add: random_decoy_def random_generate_def zero_vec_ok fill_ok)

lemma random_decoy_panics:
  "isize_max < n \<Longrightarrow> dc_generate (random_decoy gr) key n g = (Inl Panic, g)"
  by (simp add: random_decoy_def random_generate_def zero_vec_def rbind_def rlift_def)

lemma key_derived_decoy_ok:
  "rng_total gr \<Longrightarrow> n \<le> isize_max \<Longrightarrow> returns_ok (dc_generate (key_derived_decoy gr b3) key n)"
  by (auto simp: key_derived_decoy_def key_derived_generate_def zero_vec_ok Let_def fill_ok)

section \<open>Self-reference draws from the key\<close>

lemma self_reference_byte_in:
  "self_reference_byte key rand_buf i = Inr b \<Longrightarrow> b \<in> set key"
  by (auto simp: self_reference_byte_def result_simps Let_def index_def split: if_splits)

lemma self_reference_byte_ok:
  assumes "key \<noteq> []" and "i * 4 + 4 \<le> length rand_buf"
  shows "\<exists>b. self_reference_byte key rand_buf i = Inr b"
  using assms by (simp add: self_reference_byte_def subslice_in Let_def index_def)

lemma self_reference_generate_set:
  assumes "self_reference_generate gr key n g = (Inr bs, g')"
  shows "set bs \<subseteq> set key"
proof (cases "n = 0")
  case True
  with assms show ?thesis by (simp add: self_reference_generate_def)
next
  case False
  with assms obtain rand_buf where
    "emap (self_reference_byte key rand_buf) [0..<n] = Inr bs"
    by (auto simp: self_reference_generate_def zero_vec_def result_simps split: if_splits)
  then have "bs ! i \<in> set key" if "i < n" for i
    using emap_nth [of _ "[0..<n]" bs i] self_reference_byte_in that by auto
  then show ?thesis
    using self_reference_length [OF assms] by (auto simp: in_set_conv_nth)
qed

lemma self_reference_generate_ok:
  assumes "rng_total gr" and "key \<noteq> []" and "n * 4 \<le> isize_max"
  shows "\<exists>bs g'. self_reference_generate gr key n g = (Inr bs, g')"
proof (cases "n = 0")
  case True
  then show ?thesis by (simp add: self_reference_generate_def)
next
  case False
  obtain buf g1 where buf: "fill gr (n * 4) g = (Inr buf, g1)"
    using returns_okD [OF fill_ok [OF assms(1)]] by blast
  have len: "length buf = n * 4"
    using fill_length [OF buf] .
  have "\<forall>i < n. \<exists>b. self_reference_byte key buf i = Inr b"
    using self_reference_byte_ok [OF assms(2)] len by auto
  then obtain h where "\<forall>i < n. self_reference_byte key buf i = Inr (h i)"
    by metis
  then have "emap (self_reference_byte key buf) [0..<n] = Inr (map h [0..<n])"
    by (intro emap_Inr) simp
  moreover have "usize_saturating_mul n 4 = n * 4"
    using assms(3) by (simp add: usize_saturating_mul_def isize_max_def usize_max_def)
  ultimately show ?thesis
    using False assms(2,3) buf
    by (simp add: self_reference_generate_def zero_vec_ok rbind_def rlift_def)
qed

end
