(* ===== verification/Standard.thy ===== *)
theory Standard
  imports Fragments Decoys
begin

text \<open>
  The default strategy, \<^verbatim>\<open>src/src/fragment/standard.rs\<close>: the key is cut into chunks of
  random sizes, decoy chunks are added one for each real one, the whole list is shuffled,
  and the layout buffer records where each real chunk belongs. The size loop is given the
  number of bytes that remain as its fuel: every pick is at least one byte, so the fuel is
  never used up (\<open>sample_chunk_sizes_no_diverge\<close>).
\<close>

definition DECOY_OFFSET :: u32 where
  "DECOY_OFFSET = - 1"

definition DEFAULT_MIN_CHUNK :: nat where
  "DEFAULT_MIN_CHUNK = 1"

definition DEFAULT_MAX_CHUNK :: nat where
  "DEFAULT_MAX_CHUNK = 8"

record 'g standard_fragmenter =
  sf_min_chunk :: nat
  sf_max_chunk :: nat
  sf_decoy :: "'g decoy option"

definition standard_new :: "'g standard_fragmenter" where
  "standard_new =
     \<lparr>sf_min_chunk = DEFAULT_MIN_CHUNK, sf_max_chunk = DEFAULT_MAX_CHUNK, sf_decoy = None\<rparr>"

definition standard_with_chunk_range :: "nat \<Rightarrow> nat \<Rightarrow> 'g standard_fragmenter" where
  "standard_with_chunk_range mn mx =
     (let mn' = max mn 1; mx' = max mx mn'
      in \<lparr>sf_min_chunk = mn', sf_max_chunk = mx', sf_decoy = None\<rparr>)"

definition standard_with_decoy :: "'g standard_fragmenter \<Rightarrow> 'g decoy \<Rightarrow> 'g standard_fragmenter" where
  "standard_with_decoy self d = self\<lparr>sf_decoy := Some d\<rparr>"

datatype chunk_kind = Real nat | DecoyChunk nat

section \<open>Chunk sizes\<close>

text \<open>The two \<^verbatim>\<open>let pick\<close> lines that clamp a sampled size to what remains.\<close>

definition clamp_pick :: "nat \<Rightarrow> nat \<Rightarrow> nat \<Rightarrow> nat \<Rightarrow> nat" where
  "clamp_pick mn mx remaining p =
     (let pick = min p (remaining - mn) in min (min (max pick mn) mx) remaining)"

primrec sample_chunk_sizes_loop ::
  "nat \<Rightarrow> 'g getrandom \<Rightarrow> nat \<Rightarrow> nat \<Rightarrow> nat \<Rightarrow> nat list \<Rightarrow> ('g, nat list) rand" where
  "sample_chunk_sizes_loop 0 gr mn mx remaining sizes =
     (if remaining > 0 then rlift (Inl Diverge) else rret sizes)"
| "sample_chunk_sizes_loop (Suc fuel) gr mn mx remaining sizes =
     (if remaining > 0
      then if remaining \<le> mx
           then sample_chunk_sizes_loop fuel gr mn mx 0 (sizes @ [remaining])
           else rbind (sample_range gr mn mx) (\<lambda>p.
                  let pick = clamp_pick mn mx remaining p
                  in sample_chunk_sizes_loop fuel gr mn mx (remaining - pick) (sizes @ [pick]))
      else rret sizes)"

definition sample_chunk_sizes :: "'g getrandom \<Rightarrow> nat \<Rightarrow> nat \<Rightarrow> nat \<Rightarrow> ('g, nat list) rand" where
  "sample_chunk_sizes gr tot mn mx =
     (if mn = 0 \<or> mx < mn then rlift (Inl (Err (Fragment ''invalid chunk-size range'')))
      else sample_chunk_sizes_loop tot gr mn mx tot [])"

section \<open>Fragmenting\<close>

text \<open>Step 2: the key in its original order, as pairs of an offset and a slice.\<close>

fun real_pairs :: "bytes \<Rightarrow> nat \<Rightarrow> nat list \<Rightarrow> (u32 \<times> bytes) list result" where
  "real_pairs key off [] = Inr []"
| "real_pairs key off (sz # sizes) =
     (if off \<le> u32_max
      then ebind (subslice key off (off + sz)) (\<lambda>s.
             ebind (real_pairs key (off + sz) sizes) (\<lambda>ps. Inr ((as_u32 off, s) # ps)))
      else Inl (Err (Fragment ''key too large for fragmentation'')))"

text \<open>Step 3: \<open>n\<close> decoy chunks, each of its own random size.\<close>

primrec decoy_chunks ::
  "'g getrandom \<Rightarrow> 'g decoy \<Rightarrow> nat \<Rightarrow> nat \<Rightarrow> bytes \<Rightarrow> nat \<Rightarrow> ('g, bytes list) rand" where
  "decoy_chunks gr d mn mx key 0 = rret []"
| "decoy_chunks gr d mn mx key (Suc n) =
     rbind (sample_range gr mn mx) (\<lambda>sz.
       rbind (dc_generate d key sz) (\<lambda>b.
         rbind (decoy_chunks gr d mn mx key n) (\<lambda>bs. rret (b # bs))))"

text \<open>Step 5: the shuffled order, turned into the chunks and the layout buffer.\<close>

fun materialize ::
  "(u32 \<times> bytes) list \<Rightarrow> bytes option list \<Rightarrow> chunk_kind list \<Rightarrow> (bytes list \<times> bytes) result" where
  "materialize pairs slots [] = Inr ([], [])"
| "materialize pairs slots (Real i # ks) =
     ebind (index pairs i) (\<lambda>(off, s).
       ebind (materialize pairs slots ks) (\<lambda>(cs, ly).
         Inr (s # cs, u32_to_le_bytes off @ ly)))"
| "materialize pairs slots (DecoyChunk i # ks) =
     ebind (index slots i) (\<lambda>slot.
       case slot of
         None \<Rightarrow> Inl (Err (Internal ''decoy slot taken twice during fragmentation''))
       | Some lb \<Rightarrow>
           ebind (materialize pairs (slots[i := None]) ks) (\<lambda>(cs, ly).
             Inr (lb # cs, u32_to_le_bytes DECOY_OFFSET @ ly)))"

definition standard_fragment ::
  "'g getrandom \<Rightarrow> 'g standard_fragmenter \<Rightarrow> bytes \<Rightarrow> ('g, fragments) rand" where
  "standard_fragment gr self key =
     (if length key = 0 then rlift (Inl (Err (Fragment ''empty key cannot be fragmented'')))
      else if unat DECOY_OFFSET \<le> length key
      then rlift (Inl (Err (Fragment ''key too large for fragmentation'')))
      else
        rbind (sample_chunk_sizes gr (length key) (sf_min_chunk self) (sf_max_chunk self)) (\<lambda>sizes.
        rbind (rlift (real_pairs key 0 sizes)) (\<lambda>pairs.
        let n_real = length sizes;
            n_decoy = (case sf_decoy self of Some d \<Rightarrow> n_real | None \<Rightarrow> 0) in
        rbind (case sf_decoy self of
                 Some d \<Rightarrow> decoy_chunks gr d (sf_min_chunk self) (sf_max_chunk self) key n_decoy
               | None \<Rightarrow> rret []) (\<lambda>decoys.
        rbind (fisher_yates gr (map Real [0..<n_real] @ map DecoyChunk [0..<n_decoy])) (\<lambda>order.
        rbind (rlift (materialize pairs (map Some decoys) order)) (\<lambda>(cs, ly).
        rret (from_parts cs ly (length key))))))))"

section \<open>Defragmenting\<close>

text \<open>
  The single pass over the chunks, with the position, the buffer and the number of bytes
  written so far, and the check of the total after it.
\<close>

fun standard_write ::
  "bytes \<Rightarrow> nat \<Rightarrow> nat \<Rightarrow> bytes list \<Rightarrow> nat \<Rightarrow> bytes \<Rightarrow> unit result \<times> bytes" where
  "standard_write ly tot i [] written out =
     (if written \<noteq> tot
      then (Inl (Err (Defragment ''reassembled length does not match recorded total'')), out)
      else (Inr (), out))"
| "standard_write ly tot i (c # cs) written out =
     (case subslice ly (i * 4) (i * 4 + 4) of
        Inl e \<Rightarrow> (Inl e, out)
      | Inr raw \<Rightarrow>
          if length raw \<noteq> 4
          then (Inl (Err (Defragment ''layout buffer slice did not size to u32'')), out)
          else
            let off = u32_from_le_bytes raw in
            if off = DECOY_OFFSET then standard_write ly tot (Suc i) cs written out
            else
              let start = unat off; fin = start + length c in
              if usize_max < fin
              then (Inl (Err (Defragment ''chunk offset overflowed when added to chunk length'')), out)
              else if tot < fin
              then (Inl (Err (Defragment ''chunk would write past end of output buffer'')), out)
              else standard_write ly tot (Suc i) cs (usize_saturating_add written (length c))
                     (write_at out start c))"

definition standard_defragment_into :: "fragments \<Rightarrow> bytes \<Rightarrow> unit result \<times> bytes" where
  "standard_defragment_into fr out =
     (if length (layout_bytes fr) \<noteq> chunk_count fr * 4
      then (Inl (Err (Defragment ''layout buffer length does not match chunk count'')), out)
      else if length out \<noteq> total_len fr
      then (Inl (Err (Defragment ''scratch buffer size does not match fragments.total_len()'')), out)
      else standard_write (layout_bytes fr) (total_len fr) 0 (chunks fr) 0 out)"

definition standard_defragment :: "fragments \<Rightarrow> bytes result" where
  "standard_defragment fr = defragment_via standard_defragment_into fr"

definition standard_strategy :: "'g getrandom \<Rightarrow> 'g standard_fragmenter \<Rightarrow> 'g strategy" where
  "standard_strategy gr self =
     \<lparr>st_fragment = standard_fragment gr self, st_defragment = standard_defragment,
      st_defragment_into = standard_defragment_into, st_describe = ''standard''\<rparr>"

section \<open>Chunk sizes: sum, bounds, termination\<close>

lemma clamp_pick_bounds:
  assumes "1 \<le> mn" "mn \<le> mx" "mx < remaining"
  shows "mn \<le> clamp_pick mn mx remaining p" "clamp_pick mn mx remaining p \<le> mx"
    "clamp_pick mn mx remaining p \<le> remaining" "1 \<le> clamp_pick mn mx remaining p"
  using assms by (auto simp: clamp_pick_def Let_def)

lemma sample_chunk_sizes_loop_props:
  assumes "sample_chunk_sizes_loop fuel gr mn mx remaining sizes g = (Inr out, g')"
    and "1 \<le> mn" "mn \<le> mx"
  shows "\<exists>new. out = sizes @ new \<and> sum_list new = remaining \<and>
           (\<forall>n\<in>set new. 1 \<le> n \<and> n \<le> mx) \<and> (\<forall>n\<in>set (butlast new). mn \<le> n)"
  using assms
proof (induction fuel arbitrary: remaining sizes g)
  case 0
  then show ?case by (auto split: if_splits)
next
  case (Suc fuel)
  consider (none) "remaining = 0" | (last) "0 < remaining" "remaining \<le> mx" | (more) "mx < remaining"
    by linarith
  then show ?case
  proof cases
    case none
    with Suc.prems(1) show ?thesis by simp
  next
    case last
    then have "out = sizes @ [remaining]"
      using Suc.prems(1) by (cases fuel) simp_all
    with last show ?thesis by simp
  next
    case more
    from Suc.prems(1) more obtain p g1 where p: "sample_range gr mn mx g = (Inr p, g1)"
      and rest: "sample_chunk_sizes_loop fuel gr mn mx
          (remaining - clamp_pick mn mx remaining p)
          (sizes @ [clamp_pick mn mx remaining p]) g1 = (Inr out, g')"
      (is "sample_chunk_sizes_loop fuel gr mn mx (remaining - ?pick) _ g1 = _")
      by (auto simp: result_simps Let_def)
    obtain new where new: "out = (sizes @ [?pick]) @ new" "sum_list new = remaining - ?pick"
      "\<forall>n\<in>set new. 1 \<le> n \<and> n \<le> mx" "\<forall>n\<in>set (butlast new). mn \<le> n"
      using Suc.IH [OF rest Suc.prems(2,3)] by blast
    note clamp_pick_bounds [OF Suc.prems(2,3) more, of p]
    then show ?thesis
      using new Suc.prems(2) by (intro exI [of _ "?pick # new"]) auto
  qed
qed

lemma sample_chunk_sizes_loop_no_diverge:
  "1 \<le> mn \<Longrightarrow> mn \<le> mx \<Longrightarrow> remaining \<le> fuel \<Longrightarrow>
     fst (sample_chunk_sizes_loop fuel gr mn mx remaining sizes g) \<noteq> Inl Diverge"
proof (induction fuel arbitrary: remaining sizes g)
  case 0
  then show ?case by simp
next
  case (Suc fuel)
  show ?case
  proof (cases "0 < remaining \<and> mx < remaining")
    case more: True
    obtain r g1 where p: "sample_range gr mn mx g = (r, g1)"
      by fastforce
    show ?thesis
    proof (cases r)
      case (Inl e)
      then show ?thesis
        using p more Suc.prems
        by (auto simp: rbind_def sample_range_def Let_def split: if_splits sum.splits prod.splits
              dest: random_u64_error)
    next
      case (Inr n)
      have "remaining - clamp_pick mn mx remaining n \<le> fuel"
        using clamp_pick_bounds(4) [OF Suc.prems(1,2), of remaining n] more Suc.prems(3) by linarith
      from Suc.IH [OF Suc.prems(1,2) this] show ?thesis
        using p more Inr by (simp add: rbind_def Let_def)
    qed
  next
    case False
    then show ?thesis
      using Suc.IH [OF Suc.prems(1,2), of 0] by auto
  qed
qed

lemma sample_chunk_sizes_loop_ok:
  assumes "rng_total gr" "1 \<le> mn" "mn \<le> mx" "mx - mn < usize_max" "remaining \<le> fuel"
  shows "returns_ok (sample_chunk_sizes_loop fuel gr mn mx remaining sizes)"
  using assms(5)
proof (induction fuel arbitrary: remaining sizes)
  case 0
  then show ?case by simp
next
  case (Suc fuel)
  have "remaining - clamp_pick mn mx remaining n \<le> fuel" if "mx < remaining" for n
    using clamp_pick_bounds(4) [OF assms(2,3) that, of n] Suc.prems by linarith
  then show ?case
    using assms Suc.prems by (auto simp: Let_def intro!: sample_range_ok Suc.IH)
qed

lemma sample_chunk_sizes_ok:
  "rng_total gr \<Longrightarrow> 1 \<le> mn \<Longrightarrow> mn \<le> mx \<Longrightarrow> mx - mn < usize_max \<Longrightarrow> returns_ok (sample_chunk_sizes gr tot mn mx)"
  by (auto simp: sample_chunk_sizes_def intro: sample_chunk_sizes_loop_ok)

lemma sample_chunk_sizes_props:
  assumes "sample_chunk_sizes gr tot mn mx g = (Inr sizes, g')"
  shows "sum_list sizes = tot \<and> (\<forall>n\<in>set sizes. 1 \<le> n \<and> n \<le> mx) \<and>
         (\<forall>n\<in>set (butlast sizes). mn \<le> n)"
  using assms sample_chunk_sizes_loop_props [of tot gr mn mx tot "[]" g sizes g']
  by (auto simp: sample_chunk_sizes_def split: if_splits)

lemma decoy_chunks_length: "decoy_chunks gr d mn mx key n g = (Inr ds, g') \<Longrightarrow> length ds = n"
  by (induction n arbitrary: g ds) (auto simp: result_simps)

section \<open>What the layout records\<close>

text \<open>
  The offset and the bytes that a slot of the shuffled order stands for, and what it means
  for such entries to describe the key: every real one is a piece of the key at its offset.
\<close>

fun entry_of :: "(u32 \<times> bytes) list \<Rightarrow> bytes list \<Rightarrow> chunk_kind \<Rightarrow> u32 \<times> bytes" where
  "entry_of pairs decoys (Real i) = pairs ! i"
| "entry_of pairs decoys (DecoyChunk i) = (DECOY_OFFSET, decoys ! i)"

definition piece_of :: "bytes \<Rightarrow> u32 \<times> bytes \<Rightarrow> bool" where
  "piece_of key e \<longleftrightarrow> fst e \<noteq> DECOY_OFFSET \<and> unat (fst e) + length (snd e) \<le> length key \<and>
     snd e = take (length (snd e)) (drop (unat (fst e)) key)"

definition covered :: "(u32 \<times> bytes) list \<Rightarrow> nat \<Rightarrow> bool" where
  "covered es p \<longleftrightarrow> (\<exists>e\<in>set es. fst e \<noteq> DECOY_OFFSET \<and> unat (fst e) \<le> p \<and> p < unat (fst e) + length (snd e))"

definition real_len :: "u32 \<times> bytes \<Rightarrow> nat" where
  "real_len e = (if fst e = DECOY_OFFSET then 0 else length (snd e))"

lemma real_len_decoy [simp]: "real_len (DECOY_OFFSET, c) = 0"
  by (simp add: real_len_def)

lemma covered_Cons [simp]:
  "covered (e # es) p \<longleftrightarrow> (fst e \<noteq> DECOY_OFFSET \<and> unat (fst e) \<le> p \<and> p < unat (fst e) + length (snd e)) \<or>
     covered es p"
  by (auto simp: covered_def)

lemma real_pairs_props:
  assumes "real_pairs key off sizes = Inr ps" "off + sum_list sizes \<le> length key" "length key < u32_max"
  shows "(\<forall>e\<in>set ps. piece_of key e) \<and> length ps = length sizes \<and>
         sum_list (map real_len ps) = sum_list sizes \<and>
         (\<forall>p. off \<le> p \<and> p < off + sum_list sizes \<longrightarrow> covered ps p)"
  using assms
proof (induction key off sizes arbitrary: ps rule: real_pairs.induct)
  case (1 key off)
  then show ?case by auto
next
  case (2 key off sz sizes)
  have off: "off \<le> u32_max" "off + sz \<le> length key"
    using "2.prems" by auto
  with "2.prems"(1) obtain rest where rest: "real_pairs key (off + sz) sizes = Inr rest"
    and ps: "ps = (as_u32 off, take sz (drop off key)) # rest"
    by (auto simp: result_simps subslice_in)
  note IH = "2.IH" [OF off(1) rest]
  have un: "unat (as_u32 off) = off"
    using off by (simp add: unat_as_u32)
  have "as_u32 off \<noteq> DECOY_OFFSET"
    using un off "2.prems"(3) by (auto simp: DECOY_OFFSET_def)
  moreover have "covered rest p" if "off + sz \<le> p" "p < off + sz + sum_list sizes" for p
    using that IH "2.prems" by auto
  then have "\<forall>p. off \<le> p \<and> p < off + (sz + sum_list sizes) \<longrightarrow> p < off + sz \<or> covered rest p"
    by (metis add.assoc linorder_not_less)
  ultimately show ?case
    using IH off un "2.prems"(2,3) ps by (auto simp: piece_of_def real_len_def)
qed

lemma real_pairs_ok:
  "off + sum_list sizes \<le> length key \<Longrightarrow> length key < u32_max \<Longrightarrow> \<exists>ps. real_pairs key off sizes = Inr ps"
  by (induction key off sizes rule: real_pairs.induct) (auto simp: subslice_in result_simps)

lemma materialize_eq:
  assumes "distinct ks"
    and "\<And>i. Real i \<in> set ks \<Longrightarrow> i < length pairs"
    and "\<And>i. DecoyChunk i \<in> set ks \<Longrightarrow> i < length slots \<and> slots ! i = Some (decoys ! i)"
  shows "materialize pairs slots ks =
    Inr (map (\<lambda>k. snd (entry_of pairs decoys k)) ks,
         concat (map (\<lambda>k. u32_to_le_bytes (fst (entry_of pairs decoys k))) ks))"
  using assms
proof (induction pairs slots ks rule: materialize.induct)
  case (1 pairs slots)
  then show ?case by simp
next
  case (2 pairs slots i ks)
  then have "materialize pairs slots ks = Inr (map (\<lambda>k. snd (entry_of pairs decoys k)) ks,
      concat (map (\<lambda>k. u32_to_le_bytes (fst (entry_of pairs decoys k))) ks))"
    by (cases "pairs ! i") (simp add: index_def)
  with 2 show ?case
    by (cases "pairs ! i") (simp add: index_def)
next
  case (3 pairs slots i ks)
  have i: "i < length slots" "slots ! i = Some (decoys ! i)"
    using "3.prems"(3) by auto
  then have "materialize pairs (slots[i := None]) ks = Inr (map (\<lambda>k. snd (entry_of pairs decoys k)) ks,
      concat (map (\<lambda>k. u32_to_le_bytes (fst (entry_of pairs decoys k))) ks))"
    using "3.prems" by (intro "3.IH") (auto simp: index_def nth_list_update)
  with i show ?case by (simp add: index_def)
qed

lemma materialize_shuffled:
  assumes "fisher_yates gr (map Real [0..<n] @ map DecoyChunk [0..<m]) g = (Inr order, g')"
    and "length pairs = n" "length decoys = m"
  shows "materialize pairs (map Some decoys) order =
    Inr (map (\<lambda>k. snd (entry_of pairs decoys k)) order,
         concat (map (\<lambda>k. u32_to_le_bytes (fst (entry_of pairs decoys k))) order))"
proof (rule materialize_eq)
  have "distinct (map Real [0..<n] @ map DecoyChunk [0..<m])"
    by (auto simp: distinct_map inj_on_def)
  then show "distinct order"
    by (rule fisher_yates_distinct [OF assms(1)])
qed (use fisher_yates_set [OF assms(1)] assms(2,3) in auto)

section \<open>Reassembly\<close>

text \<open>The pass over the chunks, on the entries that the layout decodes to.\<close>

lemma standard_write_pieces:
  assumes "ly = pre @ concat (map (\<lambda>e. u32_to_le_bytes (fst e)) es)" "length pre = i * 4"
    and "\<And>e. e \<in> set es \<Longrightarrow> fst e = DECOY_OFFSET \<or> piece_of key e"
    and "length out = length key" "length key < u32_max"
    and "written + sum_list (map real_len es) = length key"
  shows "\<exists>out'. standard_write ly (length key) i (map snd es) written out = (Inr (), out') \<and>
     length out' = length key \<and>
     (\<forall>p < length key. out' ! p = (if covered es p then key ! p else out ! p))"
  using assms
proof (induction es arbitrary: pre i written out)
  case Nil
  then show ?case by (simp add: covered_def)
next
  case (Cons e es)
  obtain off c where e: "e = (off, c)" by fastforce
  have sub: "subslice ly (i * 4) (i * 4 + 4) = Inr (u32_to_le_bytes off)"
    using Cons.prems(1,2) e by (simp add: subslice_middle)
  let ?pre = "pre @ u32_to_le_bytes off"
  have pre: "ly = ?pre @ concat (map (\<lambda>e. u32_to_le_bytes (fst e)) es)" "length ?pre = Suc i * 4"
    using Cons.prems(1,2) e by simp_all
  show ?case
  proof (cases "off = DECOY_OFFSET")
    case True
    with Cons.IH [OF pre _ Cons.prems(4,5), of written] Cons.prems(3,6) e sub
    show ?thesis by (auto simp: real_len_def)
  next
    case False
    with Cons.prems(3) [of e] e have piece: "unat off + length c \<le> length key"
      "c = take (length c) (drop (unat off) key)"
      by (auto simp: piece_of_def)
    have small: "length key < usize_max"
      using Cons.prems(5) by (simp add: u32_max_def usize_max_def)
    have w: "usize_saturating_add written (length c) = written + length c"
      using Cons.prems(6) False e small by (simp add: usize_saturating_add_def real_len_def)
    let ?out = "write_at out (unat off) c"
    have len: "length ?out = length key"
      using Cons.prems(4) piece by simp
    obtain out' where out': "standard_write ly (length key) (Suc i) (map snd es) (written + length c) ?out = (Inr (), out')"
      "length out' = length key"
      "\<forall>p < length key. out' ! p = (if covered es p then key ! p else ?out ! p)"
      using Cons.IH [OF pre _ len Cons.prems(5), of "written + length c"] Cons.prems(3,6) False e
      by (auto simp: real_len_def)
    have at: "?out ! p = (if unat off \<le> p \<and> p < unat off + length c then key ! p else out ! p)"
      if "p < length key" for p
      using that piece(1) Cons.prems(4) arg_cong [OF piece(2), of "\<lambda>xs. xs ! (p - unat off)"]
      by (auto simp: nth_write_at)
    show ?thesis
      using out' at e False sub w piece(1) small by (auto simp: Let_def)
  qed
qed

lemma standard_write_length:
  "length out = tot \<Longrightarrow> standard_write ly tot i cs written out = (r, out') \<Longrightarrow> length out' = length out"
proof (induction ly tot i cs written out rule: standard_write.induct)
  case (1 ly tot i written out)
  then show ?case by (auto split: if_splits)
next
  case (2 ly tot i c cs written out)
  then show ?case
    by (auto simp: Let_def split: if_splits sum.splits)
qed

lemma standard_write_no_panic:
  "length ly = (i + length cs) * 4 \<Longrightarrow> standard_write ly tot i cs written out = (Inl e, out') \<Longrightarrow>
     \<exists>m. e = Err (Defragment m)"
proof (induction ly tot i cs written out rule: standard_write.induct)
  case (1 ly tot i written out)
  then show ?case by (auto split: if_splits)
next
  case (2 ly tot i c cs written out)
  have "subslice ly (i * 4) (i * 4 + 4) = Inr (take 4 (drop (i * 4) ly))"
    using "2.prems"(1) by (simp add: subslice_in)
  with 2 show ?case
    by (auto simp: Let_def split: if_splits)
qed

section \<open>The strategy meets its contract\<close>

text \<open>What a successful run of \<^verbatim>\<open>fragment\<close> has produced.\<close>

lemma standard_fragment_Inr:
  assumes "standard_fragment gr self key g = (Inr fr, g')"
  obtains es where "fr = from_parts (map snd es) (concat (map (\<lambda>e. u32_to_le_bytes (fst e)) es)) (length key)"
    and "\<And>e. e \<in> set es \<Longrightarrow> fst e = DECOY_OFFSET \<or> piece_of key e"
    and "sum_list (map real_len es) = length key"
    and "\<And>p. p < length key \<Longrightarrow> covered es p"
    and "length key < u32_max" and "key \<noteq> []"
proof -
  have key: "length key < u32_max" "key \<noteq> []"
    using assms by (auto simp: standard_fragment_def DECOY_OFFSET_def split: if_splits)
  define n_dec where "n_dec sizes = (case sf_decoy self of Some d \<Rightarrow> length sizes | None \<Rightarrow> 0)"
    for sizes :: "nat list"
  define gen where "gen sizes = (case sf_decoy self of
      Some d \<Rightarrow> decoy_chunks gr d (sf_min_chunk self) (sf_max_chunk self) key (n_dec sizes)
    | None \<Rightarrow> rret [])" for sizes :: "nat list"
  from assms key obtain sizes g1 pairs decoys g2 order where
    sizes: "sample_chunk_sizes gr (length key) (sf_min_chunk self) (sf_max_chunk self) g = (Inr sizes, g1)" and
    pairs: "real_pairs key 0 sizes = Inr pairs" and
    decoys: "gen sizes g1 = (Inr decoys, g2)" and
    order: "fisher_yates gr (map Real [0..<length sizes] @ map DecoyChunk [0..<n_dec sizes]) g2 = (Inr order, g')" and
    fr: "\<exists>cs ly. materialize pairs (map Some decoys) order = Inr (cs, ly) \<and> fr = from_parts cs ly (length key)"
    unfolding standard_fragment_def Let_def n_dec_def [symmetric] gen_def [symmetric]
    by (auto simp: DECOY_OFFSET_def result_simps)
  have nd: "n_dec sizes = length decoys"
    using decoys by (auto simp: gen_def n_dec_def dest: decoy_chunks_length split: option.splits)
  have sum: "sum_list sizes = length key"
    using sample_chunk_sizes_props [OF sizes] by simp
  note pp = real_pairs_props [OF pairs, unfolded sum add_0, OF order_refl key(1)]
  let ?entry = "entry_of pairs decoys"
  let ?es = "map ?entry order"
  let ?order = "map Real [0..<length sizes] @ map DecoyChunk [0..<n_dec sizes]"
  have set: "set order = set ?order"
    using fisher_yates_set [OF order] .
  have mat: "materialize pairs (map Some decoys) order =
      Inr (map (\<lambda>k. snd (?entry k)) order, concat (map (\<lambda>k. u32_to_le_bytes (fst (?entry k))) order))"
    using pp nd by (intro materialize_shuffled [OF order]) simp_all
  have "sum_list (map real_len ?es) = sum_list (map (real_len \<circ> ?entry) ?order)"
    using fisher_yates_mset [OF order] by (metis map_map mset_map sum_mset_sum_list)
  also have "\<dots> = sum_list (map (\<lambda>i. real_len (pairs ! i)) [0..<length pairs]) +
      sum_list (map (\<lambda>i. real_len (DECOY_OFFSET, decoys ! i)) [0..<n_dec sizes])"
    using pp by (simp add: comp_def)
  also have "\<dots> = sum_list (map real_len pairs)"
    by (simp add: map_replicate_const sum_list_replicate)
  finally have len: "sum_list (map real_len ?es) = length key"
    using pp sum by simp
  have pairs_in: "e \<in> set ?es" if "e \<in> set pairs" for e
    using that pp set by (auto simp: in_set_conv_nth [of e] image_iff intro!: bexI [of _ "Real _"])
  show thesis
  proof (rule that [of ?es])
    show "fr = from_parts (map snd ?es) (concat (map (\<lambda>e. u32_to_le_bytes (fst e)) ?es)) (length key)"
      using fr mat by (auto simp: comp_def)
    show "fst e = DECOY_OFFSET \<or> piece_of key e" if "e \<in> set ?es" for e
      using that set pp by (auto simp: all_set_conv_all_nth)
    show "covered ?es p" if "p < length key" for p
      using that pp pairs_in unfolding covered_def by blast
  qed (use len key in simp_all)
qed

lemma standard_round_trip_into:
  assumes "standard_fragment gr self key g = (Inr fr, g')" "length out = length key"
  shows "standard_defragment_into fr out = (Inr (), key)"
proof -
  from standard_fragment_Inr [OF assms(1)] obtain es where
    fr: "fr = from_parts (map snd es) (concat (map (\<lambda>e. u32_to_le_bytes (fst e)) es)) (length key)" and
    es: "\<And>e. e \<in> set es \<Longrightarrow> fst e = DECOY_OFFSET \<or> piece_of key e"
      "sum_list (map real_len es) = length key" "\<And>p. p < length key \<Longrightarrow> covered es p"
    and key: "length key < u32_max"
    by metis
  obtain out' where
    w: "standard_write (layout_bytes fr) (length key) 0 (chunks fr) 0 out = (Inr (), out')"
      "length out' = length key"
      "\<forall>p < length key. out' ! p = (if covered es p then key ! p else out ! p)"
    using standard_write_pieces [of "layout_bytes fr" "[]" es 0 key out 0] es key assms(2) fr by auto
  have "out' = key"
    using w es(3) by (intro nth_equalityI) auto
  then show ?thesis
    using w(1) fr assms(2)
    by (simp add: standard_defragment_into_def chunk_count_def length_concat comp_def
        sum_list_triv)
qed

lemma standard_fragment_total_len:
  "standard_fragment gr self key g = (Inr fr, g') \<Longrightarrow> total_len fr = length key"
  by (metis standard_fragment_Inr from_parts_simps(3))

lemma standard_fragment_start:
  "standard_fragment gr self key g = (Inr fr, g') \<Longrightarrow> layout_start fr = 0"
  by (metis standard_fragment_Inr from_parts_start)

lemma standard_defragment_into_view:
  "same_view a b \<Longrightarrow> standard_defragment_into a out = standard_defragment_into b out"
  by (simp add: standard_defragment_into_def same_view_def chunk_count_def)

lemma standard_defragment_into_length:
  "standard_defragment_into fr out = (r, out') \<Longrightarrow> length out' = length out"
  by (auto simp: standard_defragment_into_def split: if_splits dest: standard_write_length [rotated])

lemma standard_fragment_fits:
  "standard_fragment gr self key g = (Inr fr, g') \<Longrightarrow> length key \<le> isize_max"
  by (auto simp: standard_fragment_def DECOY_OFFSET_def u32_max_def isize_max_def rlift_def split: if_splits)

lemma standard_defragment_into_outcome:
  "case fst (standard_defragment_into fr out) of
     Inr u \<Rightarrow> length out = total_len fr | Inl e \<Rightarrow> \<exists>m. e = Err (Defragment m)"
proof (cases "standard_defragment_into fr out")
  case (Pair r out')
  then show ?thesis
    using standard_write_no_panic [of "layout_bytes fr" 0 "chunks fr" "total_len fr" 0 out]
    by (cases r) (auto simp: standard_defragment_into_def chunk_count_def split: if_splits)
qed

interpretation standard: fragment_strategy "standard_fragment gr self" standard_defragment_into for gr self
  by unfold_locales
     (auto intro: standard_round_trip_into standard_defragment_into_view
        dest: standard_fragment_total_len standard_fragment_start standard_defragment_into_length standard_fragment_fits)

lemma standard_strategy_ok: "strategy_ok (standard_strategy gr self)"
  by (simp add: strategy_ok_def standard_strategy_def standard.fragment_strategy_axioms
      standard_defragment_def fun_eq_iff)

lemma decoy_chunks_ok:
  assumes "rng_total gr" "mn \<le> mx" "mx - mn < usize_max"
    and "\<And>n. mn \<le> n \<Longrightarrow> n \<le> mx \<Longrightarrow> returns_ok (dc_generate d key n)"
  shows "returns_ok (decoy_chunks gr d mn mx key n)"
  by (induction n)
     (auto intro!: sample_range_ok assms dest: sample_range_bounds)

lemma standard_fragment_ok:
  assumes "rng_total gr" "1 \<le> sf_min_chunk self" "sf_min_chunk self \<le> sf_max_chunk self"
    "sf_max_chunk self - sf_min_chunk self < usize_max" "key \<noteq> []" "length key < u32_max"
    and "\<And>d n. sf_decoy self = Some d \<Longrightarrow> sf_min_chunk self \<le> n \<Longrightarrow> n \<le> sf_max_chunk self \<Longrightarrow>
           returns_ok (dc_generate d key n)"
  shows "returns_ok (standard_fragment gr self key)"
proof -
  let ?mn = "sf_min_chunk self" and ?mx = "sf_max_chunk self"
  have sizes: "returns_ok (sample_chunk_sizes gr (length key) ?mn ?mx)"
    using assms by (intro sample_chunk_sizes_ok)
  have rest: "returns_ok (rbind (fisher_yates gr (map Real [0..<n] @ map DecoyChunk [0..<m])) (\<lambda>order.
        rbind (rlift (materialize pairs (map Some decoys) order)) (\<lambda>(cs, ly).
        rret (from_parts cs ly (length key)))))"
    if "length pairs = n" "length decoys = m" for n m pairs and decoys :: "bytes list"
    using that by (auto intro!: fisher_yates_ok assms(1) simp: materialize_shuffled)
  have pairs: "\<exists>ps. real_pairs key 0 ss = Inr ps \<and> length ps = length ss"
    if "sample_chunk_sizes gr (length key) ?mn ?mx g = (Inr ss, g')" for ss g g'
    using sample_chunk_sizes_props [OF that] real_pairs_ok [of 0 ss key]
      real_pairs_props [of key 0 ss] assms(6) by auto
  show ?thesis
  proof (cases "sf_decoy self")
    case None
    note rest0 = rest [of _ _ "[]" 0, simplified]
    show ?thesis
      using assms(5,6) None unfolding standard_fragment_def Let_def DECOY_OFFSET_def
      by (auto intro!: returns_ok_rbind [OF sizes] dest!: pairs) (metis rest0)
  next
    case (Some d)
    have decoys: "returns_ok (decoy_chunks gr d ?mn ?mx key n)" for n
      using assms Some by (auto intro!: decoy_chunks_ok)
    show ?thesis
      using assms(5,6) Some unfolding standard_fragment_def Let_def DECOY_OFFSET_def
      by (auto intro!: returns_ok_rbind [OF sizes] returns_ok_rbind [OF decoys] rest
          dest!: pairs dest: decoy_chunks_length)
  qed
qed

section \<open>Properties\<close>

text \<open>Round trip of the standard strategy: whenever \<^verbatim>\<open>fragment\<close> succeeds, with any chunk range,
  any decoy strategy and any random source, \<^verbatim>\<open>defragment\<close> of the result is exactly the key. The
  decoy chunks and the shuffle never change what comes back.\<close>

theorem standard_round_trip:
  assumes "standard_fragment gr self key g = (Inr fr, g')"
  shows "standard_defragment fr = Inr key"
  using standard.defragment_round_trip [OF assms] by (simp add: standard_defragment_def)

theorem standard_round_trip_witness:
  "\<exists>fr g'. standard_fragment counter_rng (standard_with_decoy (standard_with_chunk_range 1 2) (random_decoy counter_rng))
       [7, 8, 9, 10] 0 = (Inr fr, g') \<and> standard_defragment fr = Inr [7, 8, 9, 10]"
proof -
  let ?f = "standard_with_decoy (standard_with_chunk_range 1 2) (random_decoy counter_rng)"
  have "returns_ok (standard_fragment counter_rng ?f [7, 8, 9, 10])"
    by (rule standard_fragment_ok)
       (auto simp: counter_rng_total standard_with_decoy_def standard_with_chunk_range_def usize_max_def
          u32_max_def isize_max_def random_decoy_ok)
  then obtain fr g' where "standard_fragment counter_rng ?f [7, 8, 9, 10] 0 = (Inr fr, g')"
    by (rule returns_okE)
  with standard_round_trip [OF this] show ?thesis by blast
qed

text \<open>
  A fragmenter made with the constructors: \<^verbatim>\<open>new\<close> (also \<^verbatim>\<open>default\<close>) or \<^verbatim>\<open>with_chunk_range\<close>, whose
  arguments are \<^verbatim>\<open>usize\<close> values, with or without \<^verbatim>\<open>with_decoy\<close>.
\<close>

definition standard_built :: "'g standard_fragmenter \<Rightarrow> bool" where
  "standard_built self \<longleftrightarrow>
     (\<exists>plain. (plain = standard_new \<or> (\<exists>mn mx. mx \<le> usize_max \<and> plain = standard_with_chunk_range mn mx)) \<and>
        (self = plain \<or> (\<exists>d. self = standard_with_decoy plain d)))"

text \<open>
  What is asked of the decoy, if there is one: it serves every size of the chunk range. The
  built-in ones do when their buffer for the largest chunk is at most \<^verbatim>\<open>isize::MAX\<close> bytes.
\<close>

definition decoy_serves :: "'g getrandom \<Rightarrow> blake3 \<Rightarrow> 'g standard_fragmenter \<Rightarrow> bytes \<Rightarrow> bool" where
  "decoy_serves gr blake self key \<longleftrightarrow>
     (case sf_decoy self of
        None \<Rightarrow> True
      | Some d \<Rightarrow>
          (d = random_decoy gr \<or> d = key_derived_decoy gr blake) \<and> sf_max_chunk self \<le> isize_max \<or>
          d = self_reference_decoy gr \<and> sf_max_chunk self * 4 \<le> isize_max \<or>
          (\<forall>n. sf_min_chunk self \<le> n \<and> n \<le> sf_max_chunk self \<longrightarrow> returns_ok (dc_generate d key n)))"

lemma standard_built_range:
  assumes "standard_built self"
  shows "1 \<le> sf_min_chunk self \<and> sf_min_chunk self \<le> sf_max_chunk self \<and>
    sf_max_chunk self - sf_min_chunk self < usize_max"
  using assms
  by (auto simp: standard_built_def standard_new_def standard_with_chunk_range_def standard_with_decoy_def
      DEFAULT_MIN_CHUNK_def DEFAULT_MAX_CHUNK_def usize_max_def Let_def max_def)

lemma decoy_serves_ok:
  assumes "rng_total gr" "key \<noteq> []" "decoy_serves gr blake self key" "sf_decoy self = Some d"
    "sf_min_chunk self \<le> n" "n \<le> sf_max_chunk self"
  shows "returns_ok (dc_generate d key n)"
proof -
  consider "d = random_decoy gr \<or> d = key_derived_decoy gr blake" "sf_max_chunk self \<le> isize_max"
    | "d = self_reference_decoy gr" "sf_max_chunk self * 4 \<le> isize_max"
    | "returns_ok (dc_generate d key n)"
    using assms(3-6) by (auto simp: decoy_serves_def)
  then show ?thesis
  proof cases
    case 1
    then show ?thesis
      using assms(1,6) by (auto intro: random_decoy_ok key_derived_decoy_ok)
  next
    case 2
    then show ?thesis
      using self_reference_generate_ok [OF assms(1,2), of n] assms(6)
      by (auto simp: self_reference_decoy_def returns_ok_def)
  qed
qed

text \<open>(C33) Fragmentation succeeds: if the random source does not fail, every non-empty key of fewer than
  \<^verbatim>\<open>u32::MAX\<close> bytes is fragmented by every fragmenter made with \<^verbatim>\<open>new\<close> or \<^verbatim>\<open>with_chunk_range\<close>: the default one
  without a decoy, one with a built-in decoy whose buffer for the largest chunk can exist, and one with any
  other decoy that serves the sizes of the chunk range. The size loop always ends, no slice, index or
  allocation panics, and the chunk list has one layout entry of four bytes per chunk.\<close>

theorem standard_fragment_total:
  assumes "rng_total gr" "key \<noteq> []" "length key < u32_max" "standard_built self" "decoy_serves gr blake self key"
  shows "\<exists>fr g'. standard_fragment gr self key g = (Inr fr, g') \<and>
           total_len fr = length key \<and> length (layout_bytes fr) = 4 * chunk_count fr"
proof -
  have "returns_ok (standard_fragment gr self key)"
    using standard_built_range [OF assms(4)] assms decoy_serves_ok [OF assms(1,2,5)]
    by (intro standard_fragment_ok) auto
  then obtain fr g' where fr: "standard_fragment gr self key g = (Inr fr, g')"
    by (rule returns_okE)
  from standard_fragment_Inr [OF fr] obtain es where
    "fr = from_parts (map snd es) (concat (map (\<lambda>e. u32_to_le_bytes (fst e)) es)) (length key)"
    by metis
  then show ?thesis
    using fr by (simp add: chunk_count_def length_concat comp_def sum_list_triv)
qed

theorem standard_fragment_total_witness:
  "(\<exists>fr g'. standard_fragment counter_rng standard_new [1, 2, 3] 0 = (Inr fr, g') \<and>
      total_len fr = length [1, 2, 3 :: u8] \<and> length (layout_bytes fr) = 4 * chunk_count fr) \<and>
   (\<exists>fr g'. standard_fragment counter_rng
        (standard_with_decoy (standard_with_chunk_range 1 8) (self_reference_decoy counter_rng)) [1, 2, 3] 0 = (Inr fr, g') \<and>
      total_len fr = length [1, 2, 3 :: u8] \<and> length (layout_bytes fr) = 4 * chunk_count fr)"
proof
  show "\<exists>fr g'. standard_fragment counter_rng standard_new [1, 2, 3] 0 = (Inr fr, g') \<and>
      total_len fr = length [1, 2, 3 :: u8] \<and> length (layout_bytes fr) = 4 * chunk_count fr"
    by (rule standard_fragment_total [where blake = toy_blake3])
       (auto simp: counter_rng_total u32_max_def standard_built_def decoy_serves_def standard_new_def)
  let ?f = "standard_with_decoy (standard_with_chunk_range 1 8) (self_reference_decoy counter_rng)"
  have "(8 :: nat) \<le> usize_max"
    by (simp add: usize_max_def)
  then have "standard_built ?f"
    by (auto simp: standard_built_def)
  then show "\<exists>fr g'. standard_fragment counter_rng
        (standard_with_decoy (standard_with_chunk_range 1 8) (self_reference_decoy counter_rng)) [1, 2, 3] 0 = (Inr fr, g') \<and>
      total_len fr = length [1, 2, 3 :: u8] \<and> length (layout_bytes fr) = 4 * chunk_count fr"
    by (intro standard_fragment_total [where blake = toy_blake3])
       (simp_all add: counter_rng_total u32_max_def decoy_serves_def standard_with_decoy_def
          standard_with_chunk_range_def isize_max_def)
qed

text \<open>Chunk sizes: the sizes that are drawn add up to the key length, none is zero or above the
  maximum, and all but the last are at least the minimum.\<close>

theorem chunk_sizes_sum_and_bounds:
  assumes "sample_chunk_sizes gr tot mn mx g = (Inr sizes, g')"
  shows "sum_list sizes = tot \<and> (\<forall>n\<in>set sizes. 1 \<le> n \<and> n \<le> mx) \<and> (\<forall>n\<in>set (butlast sizes). mn \<le> n)"
  by (rule sample_chunk_sizes_props [OF assms])

theorem chunk_sizes_sum_and_bounds_witness:
  "\<exists>sizes g'. sample_chunk_sizes counter_rng 5 1 2 0 = (Inr sizes, g') \<and> sum_list sizes = 5 \<and>
     (\<forall>n\<in>set sizes. 1 \<le> n \<and> n \<le> 2) \<and> (\<forall>n\<in>set (butlast sizes). 1 \<le> n)"
proof -
  have "returns_ok (sample_chunk_sizes counter_rng 5 1 2)"
    by (rule sample_chunk_sizes_ok [OF counter_rng_total]) (simp_all add: usize_max_def)
  then obtain sizes g' where "sample_chunk_sizes counter_rng 5 1 2 0 = (Inr sizes, g')"
    by (rule returns_okE)
  with chunk_sizes_sum_and_bounds [OF this] show ?thesis by blast
qed

text \<open>(C34) Corrupt fragments, of any chunks, layout and length. \<^verbatim>\<open>defragment_into\<close> of the standard
  strategy never panics and never changes the length of the caller's buffer: a failure is a \<^verbatim>\<open>Defragment\<close>
  error. \<^verbatim>\<open>defragment\<close> allocates the recorded length first, so it panics exactly when that length is above
  \<^verbatim>\<open>isize::MAX\<close>, which the public \<^verbatim>\<open>Fragments::from_chunks\<close> accepts; otherwise it returns a key of the recorded
  length or a \<^verbatim>\<open>Defragment\<close> error.\<close>

theorem standard_defragment_robust:
  "length (snd (standard_defragment_into fr out)) = length out \<and>
   (case fst (standard_defragment_into fr out) of
      Inr u \<Rightarrow> length out = total_len fr | Inl e \<Rightarrow> \<exists>m. e = Err (Defragment m)) \<and>
   (standard_defragment fr = Inl Panic \<longleftrightarrow> isize_max < total_len fr) \<and>
   (case standard_defragment fr of
      Inr key \<Rightarrow> length key = total_len fr | Inl e \<Rightarrow> e = Panic \<or> (\<exists>m. e = Err (Defragment m)))"
proof (intro conjI)
  show "length (snd (standard_defragment_into fr out)) = length out"
    by (cases "standard_defragment_into fr out") (simp add: standard_defragment_into_length)
  show "case fst (standard_defragment_into fr out) of
      Inr u \<Rightarrow> length out = total_len fr | Inl e \<Rightarrow> \<exists>m. e = Err (Defragment m)"
    by (rule standard_defragment_into_outcome)
  have out: "case fst (standard_defragment_into fr (replicate (total_len fr) 0)) of
      Inr u \<Rightarrow> True | Inl e \<Rightarrow> \<exists>m. e = Err (Defragment m)"
    using standard_defragment_into_outcome [of "replicate (total_len fr) 0" fr]
    by (simp split: sum.splits)
  then show "standard_defragment fr = Inl Panic \<longleftrightarrow> isize_max < total_len fr"
    by (auto simp: standard_defragment_def defragment_via_def zero_vec_def split: prod.splits sum.splits)
  show "case standard_defragment fr of
      Inr key \<Rightarrow> length key = total_len fr | Inl e \<Rightarrow> e = Panic \<or> (\<exists>m. e = Err (Defragment m))"
    using out by (auto simp: standard_defragment_def defragment_via_def zero_vec_def
        dest: standard_defragment_into_length split: prod.splits sum.splits)
qed

end
