(* ===== verification/Random_Fragmenter.thy ===== *)
theory Random_Fragmenter
  imports Standard
begin

text \<open>
  The scattering strategy, \<^verbatim>\<open>src/src/fragment/random.rs\<close>: all key positions are shuffled,
  groups of random sizes are peeled off, and each group becomes a chunk whose layout entry
  lists the position of every byte. The peeling loop is given the number of positions as
  its fuel. \<open>clamp_pick\<close> is the clamp this file shares with the standard strategy.
\<close>

definition RANDOM_DEFAULT_MIN_CHUNK :: nat where
  "RANDOM_DEFAULT_MIN_CHUNK = 1"

definition RANDOM_DEFAULT_MAX_CHUNK :: nat where
  "RANDOM_DEFAULT_MAX_CHUNK = 4"

record random_fragmenter =
  rf_min_chunk :: nat
  rf_max_chunk :: nat

definition random_new :: random_fragmenter where
  "random_new =
     \<lparr>rf_min_chunk = RANDOM_DEFAULT_MIN_CHUNK, rf_max_chunk = RANDOM_DEFAULT_MAX_CHUNK\<rparr>"

definition random_with_chunk_range :: "nat \<Rightarrow> nat \<Rightarrow> random_fragmenter" where
  "random_with_chunk_range mn mx =
     (let mn' = max mn 1; mx' = max mx mn' in \<lparr>rf_min_chunk = mn', rf_max_chunk = mx'\<rparr>)"

section \<open>Fragmenting\<close>

text \<open>The layout entry of one group: its size, then its positions.\<close>

definition group_layout :: "u32 list \<Rightarrow> bytes" where
  "group_layout ps = u32_to_le_bytes (as_u32 (length ps)) @ concat (map u32_to_le_bytes ps)"

primrec random_loop ::
  "nat \<Rightarrow> 'g getrandom \<Rightarrow> random_fragmenter \<Rightarrow> bytes \<Rightarrow> u32 list \<Rightarrow> nat \<Rightarrow> bytes list \<Rightarrow> bytes \<Rightarrow>
   ('g, bytes list \<times> bytes) rand" where
  "random_loop 0 gr self key positions cursor cs ly =
     (if cursor < length positions then rlift (Inl Diverge) else rret (cs, ly))"
| "random_loop (Suc fuel) gr self key positions cursor cs ly =
     (if cursor < length positions
      then let remaining = length positions - cursor in
           rbind (if remaining \<le> rf_max_chunk self then rret remaining
                  else rbind (sample_range gr (rf_min_chunk self) (rf_max_chunk self)) (\<lambda>p.
                         rret (clamp_pick (rf_min_chunk self) (rf_max_chunk self) remaining p)))
             (\<lambda>sz. rbind (rlift (subslice positions cursor (cursor + sz))) (\<lambda>grp.
                rbind (rlift (emap (\<lambda>pos. index key (unat pos)) grp)) (\<lambda>c.
                  random_loop fuel gr self key positions (cursor + sz) (cs @ [c])
                    (ly @ group_layout grp))))
      else rret (cs, ly))"

definition random_fragment ::
  "'g getrandom \<Rightarrow> random_fragmenter \<Rightarrow> bytes \<Rightarrow> ('g, fragments) rand" where
  "random_fragment gr self key =
     (if length key = 0 then rlift (Inl (Err (Fragment ''empty key cannot be fragmented'')))
      else if u32_max < length key
      then rlift (Inl (Err (Fragment ''key too large for fragmentation'')))
      else
        rbind (fisher_yates gr (map as_u32 [0..<length key])) (\<lambda>positions.
        rbind (random_loop (length positions) gr self key positions 0 [] []) (\<lambda>(cs, ly).
        rret (from_parts cs ly (length key)))))"

section \<open>Defragmenting\<close>

text \<open>The inner loop: byte \<open>i\<close> of a chunk goes to the position recorded for it.\<close>

fun random_place ::
  "bytes \<Rightarrow> nat \<Rightarrow> nat \<Rightarrow> nat \<Rightarrow> bytes \<Rightarrow> bytes \<Rightarrow> unit result \<times> bytes" where
  "random_place ly tot cursor i [] out = (Inr (), out)"
| "random_place ly tot cursor i (b # bs) out =
     (case subslice ly (cursor + i * 4) (cursor + (i + 1) * 4) of
        Inl e \<Rightarrow> (Inl e, out)
      | Inr raw \<Rightarrow>
          if length raw \<noteq> 4 then (Inl (Err (Defragment ''layout slice'')), out)
          else
            let pos = unat (u32_from_le_bytes raw) in
            if tot \<le> pos then (Inl (Err (Defragment ''layout position out of range'')), out)
            else if length out \<le> pos then (Inl Panic, out)
            else random_place ly tot cursor (Suc i) bs (out[pos := b]))"

fun random_write ::
  "bytes \<Rightarrow> nat \<Rightarrow> nat \<Rightarrow> bytes list \<Rightarrow> bytes \<Rightarrow> unit result \<times> bytes" where
  "random_write ly tot cursor [] out =
     (if cursor \<noteq> length ly
      then (Inl (Err (Defragment ''trailing bytes in layout buffer'')), out)
      else (Inr (), out))"
| "random_write ly tot cursor (c # cs) out =
     (if length ly < cursor + 4
      then (Inl (Err (Defragment ''layout buffer truncated before size prefix'')), out)
      else case subslice ly cursor (cursor + 4) of
        Inl e \<Rightarrow> (Inl e, out)
      | Inr size_raw \<Rightarrow>
          if length size_raw \<noteq> 4 then (Inl (Err (Defragment ''layout slice'')), out)
          else
            let sz = unat (u32_from_le_bytes size_raw); cursor' = cursor + 4 in
            if sz \<noteq> length c
            then (Inl (Err (Defragment ''layout size does not match chunk length'')), out)
            else if length ly < cursor' + sz * 4
            then (Inl (Err (Defragment ''layout buffer truncated before position list'')), out)
            else (case random_place ly tot cursor' 0 c out of
                    (Inl e, out') \<Rightarrow> (Inl e, out')
                  | (Inr u, out') \<Rightarrow> random_write ly tot (cursor' + sz * 4) cs out'))"

definition random_defragment_into :: "fragments \<Rightarrow> bytes \<Rightarrow> unit result \<times> bytes" where
  "random_defragment_into fr out =
     (if length out \<noteq> total_len fr
      then (Inl (Err (Defragment ''scratch buffer size does not match fragments.total_len()'')), out)
      else random_write (layout_bytes fr) (total_len fr) 0 (chunks fr) out)"

definition random_defragment :: "fragments \<Rightarrow> bytes result" where
  "random_defragment fr = defragment_via random_defragment_into fr"

definition random_strategy :: "'g getrandom \<Rightarrow> random_fragmenter \<Rightarrow> 'g strategy" where
  "random_strategy gr self =
     \<lparr>st_fragment = random_fragment gr self, st_defragment = random_defragment,
      st_defragment_into = random_defragment_into, st_describe = ''random''\<rparr>"

section \<open>The groups partition the positions\<close>

lemma index_positions:
  "\<forall>p\<in>set grp. unat p < length key \<Longrightarrow>
     emap (\<lambda>pos. index key (unat pos)) grp = Inr (map (\<lambda>pos. key ! unat pos) grp)"
  by (intro emap_Inr) (simp add: index_def)

lemma random_loop_groups:
  assumes "random_loop fuel gr self key positions cursor cs ly g = (Inr (cs', ly'), g')"
    and "\<forall>p\<in>set positions. unat p < length key" "cursor \<le> length positions"
  shows "\<exists>groups. concat groups = drop cursor positions \<and>
    cs' = cs @ map (map (\<lambda>pos. key ! unat pos)) groups \<and> ly' = ly @ concat (map group_layout groups)"
  using assms
proof (induction fuel arbitrary: cursor cs ly g)
  case 0
  then show ?case by (intro exI [of _ "[]"]) (auto split: if_splits)
next
  case (Suc fuel)
  show ?case
  proof (cases "cursor < length positions")
    case False
    with Suc.prems show ?thesis by (intro exI [of _ "[]"]) auto
  next
    case True
    with Suc.prems(1) obtain sz grp c g1 where
      grp: "subslice positions cursor (cursor + sz) = Inr grp" and
      c: "emap (\<lambda>pos. index key (unat pos)) grp = Inr c" and
      rest: "random_loop fuel gr self key positions (cursor + sz) (cs @ [c]) (ly @ group_layout grp) g1
               = (Inr (cs', ly'), g')"
      by (auto simp: Let_def result_simps)
    have sz: "cursor + sz \<le> length positions" and g: "grp = take sz (drop cursor positions)"
      using grp by (auto simp: subslice_def split: if_splits)
    have "c = map (\<lambda>pos. key ! unat pos) grp"
      using c index_positions [of grp key] Suc.prems(2) g by (auto dest!: in_set_takeD in_set_dropD)
    moreover obtain groups where "concat groups = drop (cursor + sz) positions"
      "cs' = (cs @ [c]) @ map (map (\<lambda>pos. key ! unat pos)) groups"
      "ly' = (ly @ group_layout grp) @ concat (map group_layout groups)"
      using Suc.IH [OF rest Suc.prems(2) sz] by blast
    ultimately show ?thesis
      using g by (intro exI [of _ "grp # groups"]) (simp add: take_drop_append)
  qed
qed

section \<open>Reassembly\<close>

lemma random_place_positions:
  assumes "ly = pre @ concat (map u32_to_le_bytes ps) @ post" "length pre = cursor + i * 4"
    and "\<forall>p\<in>set ps. unat p < length key" "length out = length key"
  shows "\<exists>out'. random_place ly (length key) cursor i (map (\<lambda>pos. key ! unat pos) ps) out = (Inr (), out') \<and>
    length out' = length key \<and>
    (\<forall>q < length key. out' ! q = (if q \<in> unat ` set ps then key ! q else out ! q))"
  using assms
proof (induction ps arbitrary: pre i out)
  case Nil
  then show ?case by simp
next
  case (Cons p ps)
  have sub: "subslice ly (cursor + i * 4) (cursor + (i + 1) * 4) = Inr (u32_to_le_bytes p)"
    using Cons.prems(1,2) by (simp add: subslice_middle)
  let ?out = "out[unat p := key ! unat p]"
  obtain out' where "random_place ly (length key) cursor (Suc i) (map (\<lambda>pos. key ! unat pos) ps) ?out = (Inr (), out')"
    "length out' = length key"
    "\<forall>q < length key. out' ! q = (if q \<in> unat ` set ps then key ! q else ?out ! q)"
    using Cons.IH [of "pre @ u32_to_le_bytes p" "Suc i" ?out] Cons.prems by auto
  then show ?case
    using sub Cons.prems(3,4) by (auto simp: Let_def nth_list_update)
qed

lemma random_write_groups:
  assumes "ly = pre @ concat (map group_layout groups)" "length pre = cursor"
    and "\<forall>p\<in>set (concat groups). unat p < length key" "length out = length key"
    and "\<forall>ps\<in>set groups. length ps \<le> u32_max"
  shows "\<exists>out'. random_write ly (length key) cursor (map (map (\<lambda>pos. key ! unat pos)) groups) out = (Inr (), out') \<and>
    length out' = length key \<and>
    (\<forall>q < length key. out' ! q = (if q \<in> unat ` set (concat groups) then key ! q else out ! q))"
  using assms
proof (induction groups arbitrary: pre cursor out)
  case Nil
  then show ?case by simp
next
  case (Cons ps groups)
  let ?sz = "u32_to_le_bytes (as_u32 (length ps))" and ?pos = "concat (map u32_to_le_bytes ps)"
    and ?rest = "concat (map group_layout groups)"
  have ly: "ly = pre @ ?sz @ (?pos @ ?rest)" and ly2: "ly = (pre @ ?sz) @ ?pos @ ?rest"
    and ly3: "ly = (pre @ ?sz @ ?pos) @ ?rest"
    using Cons.prems(1) by (simp_all add: group_layout_def [of ps])
  have pos: "length ?pos = length ps * 4"
    by (simp add: length_concat comp_def sum_list_triv)
  have sub: "subslice ly cursor (cursor + 4) = Inr ?sz"
    unfolding ly by (rule subslice_middle) (use Cons.prems(2) in simp_all)
  have len: "unat (as_u32 (length ps)) = length ps"
    using Cons.prems(5) by (simp add: unat_as_u32)
  obtain out1 where out1:
    "random_place ly (length key) (cursor + 4) 0 (map (\<lambda>pos. key ! unat pos) ps) out = (Inr (), out1)"
    "length out1 = length key"
    "\<forall>q < length key. out1 ! q = (if q \<in> unat ` set ps then key ! q else out ! q)"
    using random_place_positions [OF ly2, of "cursor + 4" 0 key out] Cons.prems(2,3,4) by auto
  obtain out' where out':
    "random_write ly (length key) (cursor + 4 + length ps * 4) (map (map (\<lambda>pos. key ! unat pos)) groups) out1 = (Inr (), out')"
    "length out' = length key"
    "\<forall>q < length key. out' ! q = (if q \<in> unat ` set (concat groups) then key ! q else out1 ! q)"
    using Cons.IH [OF ly3, of "cursor + 4 + length ps * 4" out1] Cons.prems(2,3,5) pos out1(2) by auto
  have "length ly = cursor + 4 + length ps * 4 + length ?rest"
    using ly pos Cons.prems(2) by simp
  then show ?case
    using sub len out1 out' by (auto simp: Let_def)
qed

section \<open>The strategy meets its contract\<close>

lemma shuffled_positions:
  assumes "fisher_yates gr (map as_u32 [0..<n]) g = (Inr positions, g')" "n \<le> u32_max"
  shows "unat ` set positions = {..<n}" "length positions = n"
proof -
  have "unat ` as_u32 ` {..<n} = {..<n}"
    using assms(2) by (force simp: image_image unat_as_u32)
  then show "unat ` set positions = {..<n}"
    using fisher_yates_set [OF assms(1)] by (simp add: atLeast0LessThan)
  show "length positions = n"
    using fisher_yates_length [OF assms(1)] by simp
qed

lemma random_fragment_Inr:
  assumes "random_fragment gr self key g = (Inr fr, g')"
  obtains groups where
    "fr = from_parts (map (map (\<lambda>pos. key ! unat pos)) groups) (concat (map group_layout groups)) (length key)"
    and "unat ` set (concat groups) = {..<length key}" "length (concat groups) = length key"
    and "length key \<le> u32_max" "key \<noteq> []"
proof -
  have key: "length key \<le> u32_max" "key \<noteq> []"
    using assms by (auto simp: random_fragment_def split: if_splits)
  with assms obtain positions g1 cs ly where
    p: "fisher_yates gr (map as_u32 [0..<length key]) g = (Inr positions, g1)" and
    l: "random_loop (length positions) gr self key positions 0 [] [] g1 = (Inr (cs, ly), g')" and
    fr: "fr = from_parts cs ly (length key)"
    by (auto simp: random_fragment_def result_simps split: if_splits)
  note pos = shuffled_positions [OF p key(1)]
  then have "\<forall>p\<in>set positions. unat p < length key" by auto
  from random_loop_groups [OF l this] pos fr key show thesis
    by (auto intro!: that)
qed

lemma random_round_trip_into:
  assumes "random_fragment gr self key g = (Inr fr, g')" "length out = length key"
  shows "random_defragment_into fr out = (Inr (), key)"
proof -
  from random_fragment_Inr [OF assms(1)] obtain groups where
    fr: "fr = from_parts (map (map (\<lambda>pos. key ! unat pos)) groups) (concat (map group_layout groups)) (length key)"
    and pos: "unat ` set (concat groups) = {..<length key}" and len: "length (concat groups) = length key"
    and key: "length key \<le> u32_max"
    by metis
  have "\<forall>ps\<in>set groups. length ps \<le> length (concat groups)"
    by (auto simp: length_concat intro: member_le_sum_list)
  then have "\<forall>ps\<in>set groups. length ps \<le> u32_max"
    using len key by auto
  moreover have "\<forall>p\<in>set (concat groups). unat p < length key"
    using pos by (metis imageI lessThan_iff)
  ultimately obtain out' where
    w: "random_write (layout_bytes fr) (length key) 0 (chunks fr) out = (Inr (), out')"
      "length out' = length key" "\<forall>q < length key. out' ! q = key ! q"
    using random_write_groups [of "layout_bytes fr" "[]" groups 0 key out] pos assms(2) fr by auto
  then have "out' = key"
    by (intro nth_equalityI) auto
  then show ?thesis
    using w(1) fr assms(2) by (simp add: random_defragment_into_def)
qed

lemma random_fragment_total_len:
  "random_fragment gr self key g = (Inr fr, g') \<Longrightarrow> total_len fr = length key"
  by (metis random_fragment_Inr from_parts_simps(3))

lemma random_fragment_start:
  "random_fragment gr self key g = (Inr fr, g') \<Longrightarrow> layout_start fr = 0"
  by (metis random_fragment_Inr from_parts_start)

lemma random_place_length:
  "random_place ly tot cursor i bs out = (r, out') \<Longrightarrow> length out' = length out"
  by (induction ly tot cursor i bs out rule: random_place.induct)
     (auto simp: Let_def split: if_splits sum.splits)

lemma random_write_length:
  "random_write ly tot cursor cs out = (r, out') \<Longrightarrow> length out' = length out"
  by (induction ly tot cursor cs out rule: random_write.induct)
     (fastforce simp: Let_def split: if_splits sum.splits prod.splits dest: random_place_length)+

lemma random_place_no_panic:
  "cursor + (i + length bs) * 4 \<le> length ly \<Longrightarrow> length out = tot \<Longrightarrow>
   random_place ly tot cursor i bs out = (Inl e, out') \<Longrightarrow> \<exists>m. e = Err (Defragment m)"
  by (induction ly tot cursor i bs out rule: random_place.induct)
     (auto simp: Let_def subslice_in split: if_splits)

lemma random_write_no_panic:
  "length out = tot \<Longrightarrow> random_write ly tot cursor cs out = (Inl e, out') \<Longrightarrow>
     \<exists>m. e = Err (Defragment m)"
proof (induction ly tot cursor cs out rule: random_write.induct)
  case (1 ly tot cursor out)
  then show ?case by (auto split: if_splits)
next
  case (2 ly tot cursor c cs out)
  then show ?case
    by (auto simp: Let_def subslice_in split: if_splits prod.splits sum.splits
          dest: random_place_length dest!: random_place_no_panic [rotated 2])
qed

interpretation random_frag: fragment_strategy "random_fragment gr self" random_defragment_into for gr self
proof unfold_locales
  show "random_defragment_into a out = random_defragment_into b out" if "same_view a b" for a b out
    using that by (simp add: random_defragment_into_def same_view_def)
  show "length out' = length out" if "random_defragment_into fr out = (r, out')" for fr out r out'
    using that by (auto simp: random_defragment_into_def split: if_splits dest: random_write_length)
  show "length key \<le> isize_max" if "random_fragment gr self key g = (Inr fr, g')" for key g fr g'
    using that by (auto simp: random_fragment_def u32_max_def isize_max_def rlift_def split: if_splits)
qed (auto intro: random_round_trip_into dest: random_fragment_total_len random_fragment_start)

lemma random_strategy_ok: "strategy_ok (random_strategy gr self)"
  by (simp add: strategy_ok_def random_strategy_def random_frag.fragment_strategy_axioms
      random_defragment_def fun_eq_iff)

lemma random_loop_ok:
  assumes "rng_total gr" "1 \<le> rf_min_chunk self" "rf_min_chunk self \<le> rf_max_chunk self"
    "rf_max_chunk self - rf_min_chunk self < usize_max"
    and "\<forall>p\<in>set positions. unat p < length key" "cursor \<le> length positions"
    and "length positions - cursor \<le> fuel"
  shows "returns_ok (random_loop fuel gr self key positions cursor cs ly)"
  using assms(6,7)
proof (induction fuel arbitrary: cursor cs ly)
  case 0
  then show ?case by simp
next
  case (Suc fuel)
  let ?mn = "rf_min_chunk self" and ?mx = "rf_max_chunk self" and ?rem = "length positions - cursor"
  have step: "returns_ok (rbind (rlift (subslice positions cursor (cursor + sz))) (\<lambda>grp.
                rbind (rlift (emap (\<lambda>pos. index key (unat pos)) grp)) (\<lambda>c.
                  random_loop fuel gr self key positions (cursor + sz) (cs @ [c])
                    (ly @ group_layout grp))))"
    if "1 \<le> sz" "sz \<le> ?rem" "cursor < length positions" for sz
  proof -
    have "\<forall>p\<in>set (take sz (drop cursor positions)). unat p < length key"
      using assms(5) by (auto dest!: in_set_takeD in_set_dropD)
    then show ?thesis
      using that Suc.prems by (auto simp: subslice_in index_positions intro!: Suc.IH)
  qed
  let ?choose = "if ?rem \<le> ?mx then rret ?rem
                  else rbind (sample_range gr ?mn ?mx) (\<lambda>p. rret (clamp_pick ?mn ?mx ?rem p))"
  have ok: "returns_ok ?choose"
    using assms(1,3,4) by (auto intro!: sample_range_ok)
  have bounds: "1 \<le> sz \<and> sz \<le> ?rem" if "?choose g = (Inr sz, g')" "cursor < length positions" for sz g g'
    using that assms(2,3) by (auto simp: result_simps clamp_pick_bounds clamp_pick_bounds(4) [simplified] split: if_splits)
  show ?case
  proof (cases "cursor < length positions")
    case True
    then show ?thesis
      unfolding random_loop.simps Let_def if_P [OF True]
      by (intro returns_ok_rbind [OF ok] step) (auto dest: bounds)
  qed simp
qed

lemma random_fragment_ok:
  assumes "rng_total gr" "1 \<le> rf_min_chunk self" "rf_min_chunk self \<le> rf_max_chunk self"
    "rf_max_chunk self - rf_min_chunk self < usize_max" "key \<noteq> []" "length key \<le> u32_max"
  shows "returns_ok (random_fragment gr self key)"
proof -
  have "returns_ok (random_loop (length ps) gr self key ps 0 [] [])"
    if "fisher_yates gr (map as_u32 [0..<length key]) g = (Inr ps, g')" for ps g g'
    using shuffled_positions(1) [OF that assms(6)] by (intro random_loop_ok assms(1-4)) auto
  then show ?thesis
    using assms(5,6) unfolding random_fragment_def
    by (auto intro!: returns_ok_rbind [OF fisher_yates_ok [OF assms(1)]])
qed

section \<open>Properties\<close>

text \<open>The scatter is a partition: the positions recorded in the layout of a successful run are
  every key position exactly once, and each chunk is the key read at the positions listed for it. Nothing
  is said about neighbours: the shuffle may leave positions in order, so a chunk can hold a contiguous
  run of the key.\<close>

theorem random_fragment_partition:
  assumes "random_fragment gr self key g = (Inr fr, g')"
  shows "\<exists>groups. chunks fr = map (map (\<lambda>pos. key ! unat pos)) groups \<and>
    layout_bytes fr = concat (map group_layout groups) \<and>
    mset (map unat (concat groups)) = mset [0..<length key]"
proof -
  from random_fragment_Inr [OF assms] obtain groups where g:
    "fr = from_parts (map (map (\<lambda>pos. key ! unat pos)) groups) (concat (map group_layout groups)) (length key)"
    "unat ` set (concat groups) = {..<length key}" "length (concat groups) = length key"
    by metis
  have "card (set (map unat (concat groups))) = length (map unat (concat groups))"
    using g(2,3) by (simp add: image_set [symmetric] del: set_concat)
  then have "distinct (map unat (concat groups))"
    by (rule card_distinct)
  then have "mset (map unat (concat groups)) = mset [0..<length key]"
    using g(2) by (intro set_eq_iff_mset_eq_distinct [THEN iffD1]) auto
  with g(1) show ?thesis by auto
qed

theorem random_fragment_partition_witness:
  "\<exists>fr g' groups. random_fragment counter_rng random_new [1, 2, 3] 0 = (Inr fr, g') \<and>
     chunks fr = map (map (\<lambda>pos. [1, 2, 3] ! unat pos)) groups \<and>
     layout_bytes fr = concat (map group_layout groups) \<and>
     mset (map unat (concat groups)) = mset [0..<length [1, 2, 3 :: u8]]"
proof -
  have "returns_ok (random_fragment counter_rng random_new [1, 2, 3])"
    by (rule random_fragment_ok)
       (simp_all add: counter_rng_total random_new_def RANDOM_DEFAULT_MIN_CHUNK_def RANDOM_DEFAULT_MAX_CHUNK_def
         usize_max_def u32_max_def)
  then obtain fr g' where "random_fragment counter_rng random_new [1, 2, 3] 0 = (Inr fr, g')"
    by (rule returns_okE)
  with random_fragment_partition [OF this] show ?thesis by blast
qed

end
