(* ===== verification/Interleaved.thy ===== *)
theory Interleaved
  imports Fragments
begin

text \<open>
  The interleaving strategy, \<^verbatim>\<open>src/src/fragment/interleaved.rs\<close>: one pool of random bytes,
  \<open>pool_factor\<close> times as long as the key, with the key bytes at random distinct positions
  that the layout lists after the pool's size.
\<close>

definition DEFAULT_POOL_FACTOR :: nat where
  "DEFAULT_POOL_FACTOR = 4"

record interleaved_fragmenter =
  pool_factor :: nat

definition interleaved_new :: interleaved_fragmenter where
  "interleaved_new = \<lparr>pool_factor = DEFAULT_POOL_FACTOR\<rparr>"

definition interleaved_with_pool_factor :: "nat \<Rightarrow> interleaved_fragmenter" where
  "interleaved_with_pool_factor factor = \<lparr>pool_factor = max factor 2\<rparr>"

section \<open>Fragmenting\<close>

text \<open>The overlay loop: key byte \<open>i\<close> goes to \<open>positions ! i\<close> in the pool.\<close>

fun overlay :: "bytes \<Rightarrow> nat \<Rightarrow> u32 list \<Rightarrow> bytes \<Rightarrow> bytes result" where
  "overlay key i [] pool = Inr pool"
| "overlay key i (pos # ps) pool =
     ebind (index key i) (\<lambda>b.
       if unat pos < length pool then overlay key (Suc i) ps (pool[unat pos := b]) else Inl Panic)"

definition interleaved_fragment ::
  "'g getrandom \<Rightarrow> interleaved_fragmenter \<Rightarrow> bytes \<Rightarrow> ('g, fragments) rand" where
  "interleaved_fragment gr self key =
     (let key_len = length key; pool_size = key_len * pool_factor self in
      if key_len = 0 then rlift (Inl (Err (Fragment ''empty key cannot be fragmented'')))
      else if usize_max < pool_size then rlift (Inl (Err (Fragment ''pool size overflowed'')))
      else if u32_max < pool_size
      then rlift (Inl (Err (Fragment ''pool size exceeds u32 layout encoding'')))
      else
        rbind (fisher_yates gr (map as_u32 [0..<pool_size])) (\<lambda>all_positions.
        rbind (rlift (subslice all_positions 0 key_len)) (\<lambda>positions.
        rbind (fill gr pool_size) (\<lambda>padding.
        rbind (rlift (overlay key 0 positions padding)) (\<lambda>pool.
        let ly = u32_to_le_bytes (as_u32 pool_size) @ concat (map u32_to_le_bytes positions)
        in rret (from_parts [pool] ly key_len))))))"

section \<open>Defragmenting\<close>

text \<open>
  The loop over the output buffer: slot \<open>i\<close> takes the pool byte its layout entry names.
  A failure leaves the slots after it as they were.
\<close>

primrec gather ::
  "bytes \<Rightarrow> bytes \<Rightarrow> nat \<Rightarrow> nat \<Rightarrow> nat \<Rightarrow> bytes \<Rightarrow> unit result \<times> bytes" where
  "gather ly pool pool_size i 0 out = (Inr (), out)"
| "gather ly pool pool_size i (Suc n) out =
     (case subslice ly (4 + i * 4) (4 + (i + 1) * 4) of
        Inl e \<Rightarrow> (Inl e, out)
      | Inr raw \<Rightarrow>
          if length raw \<noteq> 4 then (Inl (Err (Defragment ''layout slice'')), out)
          else
            let pos = unat (u32_from_le_bytes raw) in
            if pool_size \<le> pos
            then (Inl (Err (Defragment ''interleaved layout position out of range'')), out)
            else (case index pool pos of
                    Inl e \<Rightarrow> (Inl e, out)
                  | Inr b \<Rightarrow> gather ly pool pool_size (Suc i) n (out[i := b])))"

definition interleaved_defragment_into :: "fragments \<Rightarrow> bytes \<Rightarrow> unit result \<times> bytes" where
  "interleaved_defragment_into fr out =
     (let key_len = total_len fr; ly = layout_bytes fr in
      if length (chunks fr) \<noteq> 1
      then (Inl (Err (Defragment ''interleaved fragments expects exactly one chunk'')), out)
      else if length out \<noteq> key_len
      then (Inl (Err (Defragment ''scratch buffer size does not match fragments.total_len()'')), out)
      else if length ly \<noteq> 4 + key_len * 4
      then (Inl (Err (Defragment ''interleaved layout size does not match key length'')), out)
      else
        let pool = chunks fr ! 0 in
        case subslice ly 0 4 of
          Inl e \<Rightarrow> (Inl e, out)
        | Inr raw \<Rightarrow>
            if length raw \<noteq> 4 then (Inl (Err (Defragment ''layout slice'')), out)
            else
              let pool_size = unat (u32_from_le_bytes raw) in
              if pool_size \<noteq> length pool
              then (Inl (Err (Defragment ''interleaved layout pool size disagrees with chunk size'')), out)
              else gather ly pool pool_size 0 key_len out)"

definition interleaved_defragment :: "fragments \<Rightarrow> bytes result" where
  "interleaved_defragment fr = defragment_via interleaved_defragment_into fr"

definition interleaved_strategy :: "'g getrandom \<Rightarrow> interleaved_fragmenter \<Rightarrow> 'g strategy" where
  "interleaved_strategy gr self =
     \<lparr>st_fragment = interleaved_fragment gr self, st_defragment = interleaved_defragment,
      st_defragment_into = interleaved_defragment_into, st_describe = ''interleaved''\<rparr>"

section \<open>The overlay puts every key byte at its position\<close>

lemma overlay_eq:
  assumes "i + length ps \<le> length key" "distinct (map unat ps)" "\<forall>p\<in>set ps. unat p < length pool"
  shows "\<exists>pool'. overlay key i ps pool = Inr pool' \<and> length pool' = length pool \<and>
     (\<forall>k < length ps. pool' ! unat (ps ! k) = key ! (i + k)) \<and>
     (\<forall>q. q \<notin> unat ` set ps \<longrightarrow> pool' ! q = pool ! q)"
  using assms
proof (induction key i ps pool rule: overlay.induct)
  case (1 key i pool)
  then show ?case by simp
next
  case (2 key i pos ps pool)
  then have idx: "index key i = Inr (key ! i)" and inb: "unat pos < length pool"
    by (simp_all add: index_def)
  let ?pool = "pool[unat pos := key ! i]"
  obtain pool' where p: "overlay key (Suc i) ps ?pool = Inr pool'" "length pool' = length pool"
    "\<forall>k < length ps. pool' ! unat (ps ! k) = key ! (Suc i + k)"
    "\<forall>q. q \<notin> unat ` set ps \<longrightarrow> pool' ! q = ?pool ! q"
    using "2.IH" [OF inb, of "key ! i"] "2.prems" by auto
  have "pool' ! unat pos = key ! i"
    using p(4) inb "2.prems"(2) by simp
  then show ?case
    using p idx inb by (auto simp: nth_Cons split: nat.split)
qed

section \<open>The gathering loop reads them back\<close>

lemma gather_eq:
  assumes "ly = pre @ concat (map u32_to_le_bytes ps)" "length pre = 4 + i * 4"
    and "\<forall>k < length ps. unat (ps ! k) < length pool \<and> pool ! unat (ps ! k) = key ! (i + k)"
    and "i + length ps = length key" "length out = length key" "\<forall>k < i. out ! k = key ! k"
  shows "gather ly pool (length pool) i (length ps) out = (Inr (), key)"
  using assms
proof (induction ps arbitrary: pre i out)
  case Nil
  then show ?case by (auto intro: nth_equalityI)
next
  case (Cons p ps)
  have sub: "subslice ly (4 + i * 4) (4 + (i + 1) * 4) = Inr (u32_to_le_bytes p)"
    using Cons.prems(1,2) by (simp add: subslice_middle)
  have p: "unat p < length pool" "pool ! unat p = key ! i"
    using Cons.prems(3) by force+
  have "\<forall>k < Suc i. out[i := key ! i] ! k = key ! k"
    using Cons.prems(4,5,6) by (auto simp: less_Suc_eq)
  moreover have "\<forall>k < length ps. unat (ps ! k) < length pool \<and> pool ! unat (ps ! k) = key ! (Suc i + k)"
    using Cons.prems(3) by force
  ultimately have "gather ly pool (length pool) (Suc i) (length ps) (out[i := key ! i]) = (Inr (), key)"
    using Cons.IH [of "pre @ u32_to_le_bytes p" "Suc i" "out[i := key ! i]"] Cons.prems by simp
  then show ?case
    using sub p by (simp add: Let_def index_def)
qed

lemma gather_length: "gather ly pool ps i n out = (r, out') \<Longrightarrow> length out' = length out"
  by (induction n arbitrary: i out) (auto simp: Let_def split: if_splits sum.splits)

lemma gather_no_panic:
  "4 + (i + n) * 4 \<le> length ly \<Longrightarrow> gather ly pool (length pool) i n out = (Inl e, out') \<Longrightarrow>
     \<exists>m. e = Err (Defragment m)"
proof (induction n arbitrary: i out)
  case 0
  then show ?case by simp
next
  case (Suc n)
  then show ?case
    by (auto simp: Let_def subslice_in index_def split: if_splits intro: Suc.IH [of "Suc i"])
qed

section \<open>The strategy meets its contract\<close>

lemma pool_positions:
  assumes "fisher_yates gr (map as_u32 [0..<n]) g = (Inr all, g')" "n \<le> u32_max" "k \<le> n"
  shows "distinct (map unat (take k all))" "\<forall>p\<in>set (take k all). unat p < n"
    "length (take k all) = k" "subslice all 0 k = Inr (take k all)"
proof -
  have "inj_on as_u32 {0..<n}"
    using assms(2) by (auto simp: inj_on_def as_u32_inject)
  then have "distinct all"
    by (intro fisher_yates_distinct [OF assms(1)]) (simp add: distinct_map)
  then show "distinct (map unat (take k all))"
    by (simp add: distinct_map inj_on_def unsigned_word_eqI)
  have "set (take k all) \<subseteq> as_u32 ` {0..<n}"
    using fisher_yates_set [OF assms(1)] set_take_subset [of k all] by simp
  then show "\<forall>p\<in>set (take k all). unat p < n"
    using assms(2) by (force simp: unat_as_u32)
  show "length (take k all) = k" "subslice all 0 k = Inr (take k all)"
    using fisher_yates_length [OF assms(1)] assms(3) by (simp_all add: subslice_in)
qed

lemma interleaved_fragment_Inr:
  assumes "interleaved_fragment gr self key g = (Inr fr, g')"
  obtains pool ps where
    "fr = from_parts [pool] (u32_to_le_bytes (as_u32 (length pool)) @ concat (map u32_to_le_bytes ps)) (length key)"
    and "length pool \<le> u32_max" "length ps = length key"
    and "\<forall>k < length key. unat (ps ! k) < length pool \<and> pool ! unat (ps ! k) = key ! k"
    and "length pool = length key * pool_factor self" "distinct (map unat ps)"
proof -
  let ?n = "length key * pool_factor self"
  have size: "?n \<le> u32_max" "key \<noteq> []"
    using assms by (auto simp: interleaved_fragment_def Let_def split: if_splits)
  with assms obtain all g1 ps padding g2 pool where
    all: "fisher_yates gr (map as_u32 [0..<?n]) g = (Inr all, g1)" and
    ps: "subslice all 0 (length key) = Inr ps" and
    padding: "fill gr ?n g1 = (Inr padding, g2)" and
    pool: "overlay key 0 ps padding = Inr pool" and
    fr: "fr = from_parts [pool] (u32_to_le_bytes (as_u32 ?n) @ concat (map u32_to_le_bytes ps)) (length key)"
    by (auto simp: interleaved_fragment_def Let_def result_simps split: if_splits)
  have "length key \<le> ?n"
    using ps fisher_yates_length [OF all] by (auto simp: subslice_def split: if_splits)
  note pp = pool_positions [OF all size(1) this]
  have ps': "ps = take (length key) all"
    using ps pp(4) by simp
  have "length pool = ?n \<and> (\<forall>k < length key. pool ! unat (ps ! k) = key ! k)"
    using overlay_eq [of 0 ps key padding] pool pp fill_length [OF padding] ps' by auto
  moreover have "\<forall>k < length key. unat (ps ! k) < ?n"
    using pp(2,3) ps' by (metis nth_mem)
  ultimately show thesis
    using fr pp size ps' by (intro that [of pool ps]) simp_all
qed

lemma interleaved_round_trip_into:
  assumes "interleaved_fragment gr self key g = (Inr fr, g')" "length out = length key"
  shows "interleaved_defragment_into fr out = (Inr (), key)"
proof -
  from interleaved_fragment_Inr [OF assms(1)] obtain pool ps where
    fr: "fr = from_parts [pool] (u32_to_le_bytes (as_u32 (length pool)) @ concat (map u32_to_le_bytes ps)) (length key)"
    and ps: "length pool \<le> u32_max" "length ps = length key"
      "\<forall>k < length key. unat (ps ! k) < length pool \<and> pool ! unat (ps ! k) = key ! k"
    by metis
  let ?hd = "u32_to_le_bytes (as_u32 (length pool))"
  have "subslice (layout_bytes fr) 0 4 = Inr ?hd"
    using subslice_middle [of "[]" 0 4 ?hd] fr by simp
  moreover have "gather (layout_bytes fr) pool (length pool) 0 (length ps) out = (Inr (), key)"
    using ps assms(2) fr by (intro gather_eq [of _ ?hd]) auto
  moreover have "length (layout_bytes fr) = 4 + length key * 4"
    using fr ps(2) by (simp add: length_concat comp_def sum_list_triv)
  ultimately show ?thesis
    using fr ps assms(2) by (simp add: interleaved_defragment_into_def Let_def unat_as_u32)
qed

lemma interleaved_fragment_fits:
  assumes "interleaved_fragment gr self key g = (Inr fr, g')"
  shows "length key \<le> isize_max"
proof (rule interleaved_fragment_Inr [OF assms])
  fix pool ps
  assume pool: "length pool \<le> u32_max" "length pool = length key * pool_factor self"
    and ps: "\<forall>k < length key. unat (ps ! k) < length pool \<and> pool ! unat (ps ! k) = key ! k"
  have "pool_factor self \<noteq> 0" if "key \<noteq> []"
    using ps pool(2) that by (metis length_greater_0_conv less_zeroE mult_0_right)
  then have "length key \<le> length pool"
    using pool(2) by (cases "key = []") simp_all
  then show ?thesis
    using pool(1) by (simp add: u32_max_def isize_max_def)
qed

interpretation interleaved: fragment_strategy "interleaved_fragment gr self" interleaved_defragment_into
  for gr self
proof unfold_locales
  show "total_len fr = length key" if "interleaved_fragment gr self key g = (Inr fr, g')" for key g fr g'
    using that by (metis interleaved_fragment_Inr from_parts_simps(3))
  show "layout_start fr = 0" if "interleaved_fragment gr self key g = (Inr fr, g')" for key g fr g'
    using that by (metis interleaved_fragment_Inr from_parts_start)
  show "length key \<le> isize_max" if "interleaved_fragment gr self key g = (Inr fr, g')" for key g fr g'
    using that by (rule interleaved_fragment_fits)
  show "interleaved_defragment_into a out = interleaved_defragment_into b out" if "same_view a b" for a b out
    using that by (simp add: interleaved_defragment_into_def same_view_def Let_def)
  show "length out' = length out" if "interleaved_defragment_into fr out = (r, out')" for fr out r out'
    using that
    by (auto simp: interleaved_defragment_into_def Let_def split: if_splits sum.splits dest: gather_length)
qed (rule interleaved_round_trip_into)

lemma interleaved_strategy_ok: "strategy_ok (interleaved_strategy gr self)"
  by (simp add: strategy_ok_def interleaved_strategy_def interleaved.fragment_strategy_axioms
      interleaved_defragment_def fun_eq_iff)

lemma interleaved_no_panic:
  assumes "interleaved_defragment_into fr out = (Inl e, out')"
  shows "\<exists>m. e = Err (Defragment m)"
  using assms gather_no_panic [of 0 "total_len fr" "layout_bytes fr" "chunks fr ! 0"]
  by (auto simp: interleaved_defragment_into_def Let_def subslice_in split: if_splits)

lemma interleaved_fragment_ok:
  assumes "rng_total gr" "1 \<le> pool_factor self" "key \<noteq> []" "length key * pool_factor self \<le> u32_max"
  shows "returns_ok (interleaved_fragment gr self key)"
proof -
  let ?n = "length key * pool_factor self"
  have le: "length key \<le> ?n"
    using assms(2) by simp
  have "\<exists>pool. overlay key 0 (take (length key) all) padding = Inr pool"
    if "fisher_yates gr (map as_u32 [0..<?n]) g = (Inr all, g')" "fill gr ?n g1 = (Inr padding, g2)"
    for all g g' padding g1 g2
    using overlay_eq [of 0 "take (length key) all" key padding] pool_positions [OF that(1) assms(4) le]
      fill_length [OF that(2)] by auto
  then have body: "returns_ok (rbind (rlift (overlay key 0 (take (length key) all) padding)) (\<lambda>pool. rret (f pool)))"
    if "fisher_yates gr (map as_u32 [0..<?n]) g = (Inr all, g')" "fill gr ?n g1 = (Inr padding, g2)"
    for all g g' padding g1 g2 and f :: "bytes \<Rightarrow> fragments"
    using that by fastforce
  have big: "\<not> usize_max < ?n" "\<not> u32_max < ?n"
    using assms(4) by (simp_all add: u32_max_def usize_max_def)
  have "returns_ok (rbind (fisher_yates gr (map as_u32 [0..<?n])) (\<lambda>all.
      rbind (rlift (subslice all 0 (length key))) (\<lambda>positions. rbind (fill gr ?n) (\<lambda>padding.
      rbind (rlift (overlay key 0 positions padding)) (\<lambda>pool. rret (f positions pool))))))"
    for f :: "u32 list \<Rightarrow> bytes \<Rightarrow> fragments"
    by (rule returns_ok_rbind [OF fisher_yates_ok [OF assms(1)]])
       (auto simp: pool_positions(4) [OF _ assms(4) le] intro!: returns_ok_rbind [OF fill_ok [OF assms(1)]] body)
  then show ?thesis
    using assms(3) big unfolding interleaved_fragment_def Let_def by simp
qed

section \<open>Properties\<close>

text \<open>Round trip of the interleaving strategy, together with its shape: whenever \<^verbatim>\<open>fragment\<close>
  succeeds, the single chunk is \<open>pool_factor\<close> times as long as the key and \<^verbatim>\<open>defragment\<close> gives the
  key back.\<close>

lemma interleaved_round_trip:
  assumes "interleaved_fragment gr self key g = (Inr fr, g')"
  shows "interleaved_defragment fr = Inr key \<and> map length (chunks fr) = [length key * pool_factor self]"
proof -
  have "map length (chunks fr) = [length key * pool_factor self]"
    by (rule interleaved_fragment_Inr [OF assms]) simp
  then show ?thesis
    using interleaved.defragment_round_trip [OF assms] by (simp add: interleaved_defragment_def)
qed

end
