(* ===== verification/Layered.thy ===== *)
theory Layered
  imports Standard Random_Fragmenter Interleaved
begin

text \<open>
  The composite strategy, \<^verbatim>\<open>src/src/fragment/layered.rs\<close>: every call of \<^verbatim>\<open>fragment\<close> is routed
  to one of several strategies, chosen at random, and the layout is prefixed with the index
  of the choice. Its round trip is proved from the contract of the sub-strategies, whatever
  they are.
\<close>

record 'g layered_fragmenter =
  sub_strategies :: "'g strategy list"

definition layered_new :: "'g strategy list \<Rightarrow> 'g layered_fragmenter result" where
  "layered_new subs =
     (if subs = []
      then Inl (Err (InvalidConfig ''LayeredFragmenter requires at least one sub-strategy''))
      else if u32_max < length subs
      then Inl (Err (InvalidConfig ''LayeredFragmenter sub-strategy count exceeds u32''))
      else Inr \<lparr>sub_strategies = subs\<rparr>)"

definition sub_strategy_count :: "'g layered_fragmenter \<Rightarrow> nat" where
  "sub_strategy_count self = length (sub_strategies self)"

text \<open>The index in the four-byte header of the layout.\<close>

definition layered_pick :: "'g layered_fragmenter \<Rightarrow> fragments \<Rightarrow> nat result" where
  "layered_pick self fr =
     (let ly = layout_bytes fr in
      if length ly < 4
      then Inl (Err (Defragment ''layered layout shorter than 4-byte header''))
      else
        let pick = unat (u32_from_le_bytes (take 4 ly)) in
        if length (sub_strategies self) \<le> pick
        then Inl (Err (Defragment
               (''layered layout strategy index '' @ decimal pick @ '' out of range'')))
        else Inr pick)"

text \<open>
  A remainder by zero panics, and so does a buffer larger than \<open>isize_max\<close>.
\<close>

definition layered_fragment ::
  "'g getrandom \<Rightarrow> 'g layered_fragmenter \<Rightarrow> bytes \<Rightarrow> ('g, fragments) rand" where
  "layered_fragment gr self key =
     rbind (random_u64 gr) (\<lambda>r.
     if length (sub_strategies self) = 0 then rlift (Inl Panic)
     else
       let pick = unat r mod length (sub_strategies self) in
       rbind (st_fragment (sub_strategies self ! pick) key) (\<lambda>sub.
       if u32_max < pick
       then rlift (Inl (Err (Internal ''LayeredFragmenter sub-strategy index exceeded u32'')))
       else if isize_max < 4 + length (layout_bytes sub) then rlift (Inl Panic)
       else
         let ly = u32_to_le_bytes (as_u32 pick) @ layout_bytes sub
         in rret (from_parts (into_chunks sub) ly (total_len sub))))"

definition layered_defragment_into ::
  "'g layered_fragmenter \<Rightarrow> fragments \<Rightarrow> bytes \<Rightarrow> unit result \<times> bytes" where
  "layered_defragment_into self fr out =
     (case layered_pick self fr of
        Inl e \<Rightarrow> (Inl e, out)
      | Inr pick \<Rightarrow> st_defragment_into (sub_strategies self ! pick) (view_skipping fr 4) out)"

definition layered_defragment :: "'g layered_fragmenter \<Rightarrow> fragments \<Rightarrow> bytes result" where
  "layered_defragment self fr = defragment_via (layered_defragment_into self) fr"

definition layered_strategy :: "'g getrandom \<Rightarrow> 'g layered_fragmenter \<Rightarrow> 'g strategy" where
  "layered_strategy gr self =
     \<lparr>st_fragment = layered_fragment gr self, st_defragment = layered_defragment self,
      st_defragment_into = layered_defragment_into self, st_describe = ''layered''\<rparr>"

section \<open>The composite meets the contract its parts meet\<close>

lemma layered_fragment_Inr:
  assumes "layered_fragment gr self key g = (Inr fr, g')"
  obtains pick sub g1 g2 where "pick < length (sub_strategies self)" "pick \<le> u32_max"
    and "st_fragment (sub_strategies self ! pick) key g1 = (Inr sub, g2)"
    and "4 + length (layout_bytes sub) \<le> isize_max"
    and "fr = from_parts (chunks sub) (u32_to_le_bytes (as_u32 pick) @ layout_bytes sub) (total_len sub)"
proof -
  from assms obtain r :: u64 and g1 sub g2 where "length (sub_strategies self) \<noteq> 0"
    "st_fragment (sub_strategies self ! (unat r mod length (sub_strategies self))) key g1 = (Inr sub, g2)"
    "unat r mod length (sub_strategies self) \<le> u32_max" "4 + length (layout_bytes sub) \<le> isize_max"
    "fr = from_parts (chunks sub)
       (u32_to_le_bytes (as_u32 (unat r mod length (sub_strategies self))) @ layout_bytes sub) (total_len sub)"
    by (auto simp: layered_fragment_def Let_def result_simps into_chunks_def split: if_splits)
  then show thesis
    by (intro that [of "unat r mod length (sub_strategies self)" g1 sub g2]) simp_all
qed

lemma layered_pick_header:
  assumes "pick < length (sub_strategies self)" "pick \<le> u32_max"
  shows "layered_pick self (from_parts cs (u32_to_le_bytes (as_u32 pick) @ ly) n) = Inr pick"
  using assms by (simp add: layered_pick_def Let_def unat_as_u32)

lemma layered_round_trip_into:
  assumes "layered_fragment gr self key g = (Inr fr, g')" "length out = length key"
    and subs: "\<forall>s\<in>set (sub_strategies self). strategy_ok s"
  shows "layered_defragment_into self fr out = (Inr (), key)"
  using assms(1)
proof (rule layered_fragment_Inr)
  fix pick sub g1 g2
  assume pick: "pick < length (sub_strategies self)" "pick \<le> u32_max"
    and sub: "st_fragment (sub_strategies self ! pick) key g1 = (Inr sub, g2)"
    and size: "4 + length (layout_bytes sub) \<le> isize_max"
    and fr: "fr = from_parts (chunks sub) (u32_to_le_bytes (as_u32 pick) @ layout_bytes sub) (total_len sub)"
  let ?s = "sub_strategies self ! pick"
  have ok: "fragment_strategy (st_fragment ?s) (st_defragment_into ?s)"
    using subs pick(1) by (simp add: strategy_ok_def)
  have "length (layout sub) \<le> usize_max" "length (layout fr) \<le> usize_max"
    using size fr fragment_strategy.frag_start [OF ok sub]
    by (simp_all add: layout_bytes_drop isize_max_def usize_max_def)
  then have "same_view (view_skipping fr 4) sub"
    using fr by (simp add: same_view_def layout_bytes_view_skipping) (simp add: view_skipping_def)
  then have "st_defragment_into ?s (view_skipping fr 4) out = (Inr (), key)"
    using fragment_strategy.round_trip [OF ok sub assms(2)] fragment_strategy.into_view [OF ok] by metis
  then show ?thesis
    using layered_pick_header [OF pick] fr by (simp add: layered_defragment_into_def)
qed

lemma layered_fragment_strategy:
  assumes "\<forall>s\<in>set (sub_strategies self). strategy_ok s"
  shows "fragment_strategy (layered_fragment gr self) (layered_defragment_into self)"
proof
  fix key g fr g' and out :: bytes
  assume frag: "layered_fragment gr self key g = (Inr fr, g')"
  show "layered_defragment_into self fr out = (Inr (), key)" if "length out = length key"
    using layered_round_trip_into [OF frag that assms] .
  show "total_len fr = length key"
    using frag assms by (elim layered_fragment_Inr)
      (auto simp: strategy_ok_def dest: nth_mem fragment_strategy.frag_total_len)
  show "layout_start fr = 0"
    using frag by (elim layered_fragment_Inr) simp
  show "length key \<le> isize_max"
    using frag assms by (elim layered_fragment_Inr)
      (auto simp: strategy_ok_def dest: nth_mem fragment_strategy.frag_fits)
next
  fix a b :: fragments and out :: bytes
  assume ab: "same_view a b"
  have pick: "layered_pick self a = layered_pick self b"
    using ab by (simp add: layered_pick_def same_view_def)
  have "st_defragment_into (sub_strategies self ! i) (view_skipping a 4) out =
        st_defragment_into (sub_strategies self ! i) (view_skipping b 4) out"
    if "layered_pick self b = Inr i" for i
  proof -
    have "i < length (sub_strategies self)"
      using that by (auto simp: layered_pick_def Let_def split: if_splits)
    then show ?thesis
      using assms same_view_skipping [OF ab, of 4] nth_mem
      by (fastforce simp: strategy_ok_def intro: fragment_strategy.into_view)
  qed
  then show "layered_defragment_into self a out = layered_defragment_into self b out"
    using pick by (simp add: layered_defragment_into_def split: sum.splits)
next
  fix fr :: fragments and out out' :: bytes and r
  assume into: "layered_defragment_into self fr out = (r, out')"
  show "length out' = length out"
  proof (cases "layered_pick self fr")
    case (Inl e)
    with into show ?thesis by (simp add: layered_defragment_into_def)
  next
    case (Inr i)
    then have "i < length (sub_strategies self)"
      by (auto simp: layered_pick_def Let_def split: if_splits)
    with Inr into assms show ?thesis
      by (auto simp: layered_defragment_into_def strategy_ok_def dest: fragment_strategy.into_length)
  qed
qed

lemma layered_strategy_ok:
  "\<forall>s\<in>set (sub_strategies self). strategy_ok s \<Longrightarrow> strategy_ok (layered_strategy gr self)"
  unfolding strategy_ok_def [of "layered_strategy gr self"]
  by (simp add: layered_strategy_def layered_fragment_strategy layered_defragment_def fun_eq_iff)

text \<open>
  The instance on the crate's own three strategies, each with any configuration.
\<close>

definition all_strategies ::
  "'g getrandom \<Rightarrow> 'g standard_fragmenter \<Rightarrow> random_fragmenter \<Rightarrow> interleaved_fragmenter \<Rightarrow>
   'g layered_fragmenter" where
  "all_strategies gr s r i =
     \<lparr>sub_strategies = [standard_strategy gr s, random_strategy gr r, interleaved_strategy gr i]\<rparr>"

interpretation layered: fragment_strategy "layered_fragment gr (all_strategies gr s r i)"
    "layered_defragment_into (all_strategies gr s r i)" for gr s r i
  by (rule layered_fragment_strategy)
     (simp add: all_strategies_def standard_strategy_ok random_strategy_ok interleaved_strategy_ok)

section \<open>Properties\<close>

lemma layered_fragment_ok:
  assumes "rng_total gr" "sub_strategies self \<noteq> []" "length (sub_strategies self) \<le> u32_max"
    and "\<And>s. s \<in> set (sub_strategies self) \<Longrightarrow> returns_ok (st_fragment s key)"
    and "\<And>s g fr g'. s \<in> set (sub_strategies self) \<Longrightarrow> st_fragment s key g = (Inr fr, g') \<Longrightarrow>
           4 + length (layout_bytes fr) \<le> isize_max"
  shows "returns_ok (layered_fragment gr self key)"
proof -
  have "returns_ok (rbind (st_fragment (sub_strategies self ! i) key) (\<lambda>sub.
       if u32_max < i
       then rlift (Inl (Err (Internal ''LayeredFragmenter sub-strategy index exceeded u32'')))
       else if isize_max < 4 + length (layout_bytes sub) then rlift (Inl Panic)
       else
         let ly = u32_to_le_bytes (as_u32 i) @ layout_bytes sub
         in rret (from_parts (into_chunks sub) ly (total_len sub))))"
    if "i < length (sub_strategies self)" for i
  proof (rule returns_ok_rbind)
    show "returns_ok (st_fragment (sub_strategies self ! i) key)"
      using that by (intro assms(4)) simp
    fix sub g g' assume "st_fragment (sub_strategies self ! i) key g = (Inr sub, g')"
    then have "4 + length (layout_bytes sub) \<le> isize_max"
      using that by (intro assms(5)) simp_all
    then show "returns_ok (if u32_max < i
       then rlift (Inl (Err (Internal ''LayeredFragmenter sub-strategy index exceeded u32'')))
       else if isize_max < 4 + length (layout_bytes sub) then rlift (Inl Panic)
       else
         let ly = u32_to_le_bytes (as_u32 i) @ layout_bytes sub
         in rret (from_parts (into_chunks sub) ly (total_len sub)))"
      using that assms(3) by (simp add: Let_def)
  qed
  then show ?thesis
    using assms(2) unfolding layered_fragment_def
    by (intro returns_ok_rbind [OF random_u64_ok [OF assms(1)]]) (simp add: Let_def)
qed

text \<open>Strategies that an application can put together: the crate's own in any configuration, its own ones that meet the
  contract, and layers over such strategies, to any depth.\<close>

inductive composed_strategy :: "'g getrandom \<Rightarrow> 'g strategy \<Rightarrow> bool" for gr where
  standard: "composed_strategy gr (standard_strategy gr sf)"
| random: "composed_strategy gr (random_strategy gr rf)"
| interleaved: "composed_strategy gr (interleaved_strategy gr i)"
| custom: "strategy_ok st \<Longrightarrow> composed_strategy gr st"
| layered: "(\<And>st. st \<in> set (sub_strategies self) \<Longrightarrow> composed_strategy gr st) \<Longrightarrow> composed_strategy gr (layered_strategy gr self)"

lemma composed_strategy_ok: "composed_strategy gr st \<Longrightarrow> strategy_ok st"
  by (induction rule: composed_strategy.induct)
     (auto intro: standard_strategy_ok random_strategy_ok interleaved_strategy_ok layered_strategy_ok)

text \<open>(C35) Every strategy gives the key back: for the scattering, interleaving and standard strategies in any
  configuration, for strategies of the application that meet the contract, and for layered strategies over any of
  these, nested to any depth, whatever \<^verbatim>\<open>fragment\<close> produced is given back by \<^verbatim>\<open>defragment\<close>, for every random source;
  the recorded length is that of the key. In a layered strategy the index in the header finds the strategy that was
  used, and hiding the header gives that strategy its own layout.\<close>

theorem strategies_round_trip:
  assumes "composed_strategy gr st" "st_fragment st key g = (Inr fr, g')"
  shows "st_defragment st fr = Inr key \<and> total_len fr = length key"
proof -
  have ok: "fragment_strategy (st_fragment st) (st_defragment_into st)" "st_defragment st = defragment_via (st_defragment_into st)"
    using composed_strategy_ok [OF assms(1)] by (simp_all add: strategy_ok_def)
  show ?thesis
    using fragment_strategy.defragment_round_trip [OF ok(1) assms(2)] fragment_strategy.frag_total_len [OF ok(1) assms(2)] ok(2)
    by simp
qed

text \<open>A layer over the interleaving strategy.\<close>

theorem strategies_round_trip_witness:
  "\<exists>fr g'. st_fragment (layered_strategy counter_rng
       \<lparr>sub_strategies = [interleaved_strategy counter_rng interleaved_new]\<rparr>) [5, 6] 0 = (Inr fr, g') \<and>
     st_defragment (layered_strategy counter_rng \<lparr>sub_strategies = [interleaved_strategy counter_rng interleaved_new]\<rparr>) fr = Inr [5, 6]"
proof -
  let ?self = "\<lparr>sub_strategies = [interleaved_strategy counter_rng interleaved_new]\<rparr>"
  have i: "st_fragment (interleaved_strategy counter_rng interleaved_new) = interleaved_fragment counter_rng interleaved_new"
    by (simp add: interleaved_strategy_def)
  have ok: "returns_ok (interleaved_fragment counter_rng interleaved_new [5, 6])"
    by (rule interleaved_fragment_ok)
       (simp_all add: counter_rng_total interleaved_new_def DEFAULT_POOL_FACTOR_def u32_max_def)
  have "returns_ok (layered_fragment counter_rng ?self [5, 6])"
  proof (rule layered_fragment_ok [OF counter_rng_total])
    fix s g fr g'
    assume "s \<in> set (sub_strategies ?self)" and "st_fragment s [5, 6] g = (Inr fr, g')"
    then have "interleaved_fragment counter_rng interleaved_new [5, 6] g = (Inr fr, g')"
      using i by simp
    then show "4 + length (layout_bytes fr) \<le> isize_max"
      by (rule interleaved_fragment_Inr) (simp add: length_concat comp_def sum_list_triv isize_max_def)
  qed (auto simp: i ok u32_max_def)
  then obtain fr g' where fr: "layered_fragment counter_rng ?self [5, 6] 0 = (Inr fr, g')"
    by (rule returns_okE)
  then have "st_fragment (layered_strategy counter_rng ?self) [5, 6] 0 = (Inr fr, g')"
    by (simp add: layered_strategy_def)
  moreover have "composed_strategy counter_rng (layered_strategy counter_rng ?self)"
    by (rule composed_strategy.layered) (auto intro: composed_strategy.interleaved)
  ultimately show ?thesis
    using strategies_round_trip [of counter_rng "layered_strategy counter_rng ?self"] by blast
qed

text \<open>Corrupt input to the layered strategy: a layout with no room for the header, or a header that
  names no sub-strategy, is refused with a \<^verbatim>\<open>Defragment\<close> error and the caller's buffer is untouched; any
  other layout reaches the named sub-strategy with the header hidden.\<close>

theorem layered_header_checked:
  "layered_defragment_into self fr out =
    (let ly = layout_bytes fr; pick = unat (u32_from_le_bytes (take 4 ly)) in
     if 4 \<le> length ly \<and> pick < length (sub_strategies self)
     then st_defragment_into (sub_strategies self ! pick) (view_skipping fr 4) out
     else (Inl (Err (Defragment (if length ly < 4 then ''layered layout shorter than 4-byte header''
             else ''layered layout strategy index '' @ decimal pick @ '' out of range''))), out))"
  by (simp add: layered_defragment_into_def layered_pick_def Let_def)

end
