(* ===== verification/Codices.thy ===== *)
theory Codices
  imports Rng
begin

text \<open>
  Layer 5, \<^verbatim>\<open>src/src/codex/\<close>: the \<^verbatim>\<open>Codex\<close> trait as a record of its two methods, the
  identity and closure codices, the table codex with its two constructors, and the
  randomised codex. The trait's contract is the locale \<open>codex_law\<close>; the codices whose two
  methods are one involution satisfy it through \<open>involution\<close>.
\<close>

unbundle bit_operations_syntax

section \<open>The trait and its contract\<close>

record codex =
  encode :: "u8 \<Rightarrow> u8"
  decode :: "u8 \<Rightarrow> u8"

locale codex_law =
  fixes enc :: "u8 \<Rightarrow> u8" and dec :: "u8 \<Rightarrow> u8"
  assumes decode_encode: "dec (enc b) = b"
begin

lemma map_decode_encode: "map dec (map enc bs) = bs"
  by (induction bs) (simp_all add: decode_encode)

lemma encode_inj: "enc a = enc b \<longleftrightarrow> a = b"
  by (metis decode_encode)

lemma encode_bij: "bij enc"
proof -
  have "inj enc" by (simp add: inj_def encode_inj)
  then show ?thesis by (simp add: bij_def finite_UNIV_inj_surj)
qed

end

locale involution =
  fixes f :: "u8 \<Rightarrow> u8"
  assumes involutive: "f (f b) = b"

sublocale involution \<subseteq> self: codex_law f f
  by unfold_locales (rule involutive)

section \<open>Identity and closure codices\<close>

definition identity_codex :: codex where
  "identity_codex = \<lparr>encode = (\<lambda>byte. byte), decode = (\<lambda>byte. byte)\<rparr>"

definition fn_codex :: "(u8 \<Rightarrow> u8) \<Rightarrow> codex" where
  "fn_codex f = \<lparr>encode = (\<lambda>byte. f byte), decode = (\<lambda>byte. f byte)\<rparr>"

section \<open>The table codex\<close>

record static_codex =
  table :: bytes

text \<open>The identity table both constructors start from.\<close>

definition identity_table :: bytes where
  "identity_table = map word_of_nat [0..<256]"

fun from_swaps_loop :: "bytes \<Rightarrow> bool list \<Rightarrow> (u8 \<times> u8) list \<Rightarrow> bytes result" where
  "from_swaps_loop tbl used [] = Inr tbl"
| "from_swaps_loop tbl used ((a, b) # swaps) =
     (if a = b then from_swaps_loop tbl (used[unat a := True]) swaps
      else if used ! unat a \<or> used ! unat b
           then Inl (Err (Codex ''byte appears in more than one swap pair''))
      else from_swaps_loop (tbl[unat a := b, unat b := a])
             (used[unat a := True, unat b := True]) swaps)"

definition from_swaps :: "(u8 \<times> u8) list \<Rightarrow> static_codex result" where
  "from_swaps swaps =
     ebind (from_swaps_loop identity_table (replicate 256 False) swaps)
           (\<lambda>tbl. Inr \<lparr>table = tbl\<rparr>)"

text \<open>The pairing loop of \<^verbatim>\<open>random_involution\<close>: adjacent entries are swapped.\<close>

fun pair_adjacent :: "bytes \<Rightarrow> bytes \<Rightarrow> bytes" where
  "pair_adjacent tbl (a # b # perm) = pair_adjacent (tbl[unat a := b, unat b := a]) perm"
| "pair_adjacent tbl perm = tbl"

definition random_involution :: "'g getrandom \<Rightarrow> ('g, static_codex) rand" where
  "random_involution gr =
     rbind (fisher_yates gr (map word_of_nat [0..<256])) (\<lambda>perm.
       rret \<lparr>table = pair_adjacent identity_table perm\<rparr>)"

definition static_encode :: "static_codex \<Rightarrow> u8 \<Rightarrow> u8" where
  "static_encode c byte = table c ! unat byte"

definition static_decode :: "static_codex \<Rightarrow> u8 \<Rightarrow> u8" where
  "static_decode c byte = table c ! unat byte"

definition static_as_codex :: "static_codex \<Rightarrow> codex" where
  "static_as_codex c = \<lparr>encode = static_encode c, decode = static_decode c\<rparr>"

section \<open>The randomised codex\<close>

record dynamic_codex =
  inner :: static_codex

definition dynamic_new :: "'g getrandom \<Rightarrow> ('g, dynamic_codex) rand" where
  "dynamic_new gr = rbind (random_involution gr) (\<lambda>c. rret \<lparr>inner = c\<rparr>)"

definition dynamic_as_codex :: "dynamic_codex \<Rightarrow> codex" where
  "dynamic_as_codex d =
     \<lparr>encode = (\<lambda>byte. static_encode (inner d) byte),
      decode = (\<lambda>byte. static_decode (inner d) byte)\<rparr>"

section \<open>Tables as functions on bytes\<close>

text \<open>A table of 256 entries read at a byte never runs out of range.\<close>

definition table_at :: "bytes \<Rightarrow> u8 \<Rightarrow> u8" where
  "table_at t b = t ! unat b"

lemma unat_u8_less [simp]: "unat (b :: u8) < 256"
  using unsigned_less [of b, where ?'a = nat] by simp

lemma length_identity_table [simp]: "length identity_table = 256"
  by (simp add: identity_table_def)

lemma table_at_identity [simp]: "table_at identity_table b = b"
  by (simp add: table_at_def identity_table_def)

lemma table_at_update:
  "length t = 256 \<Longrightarrow> table_at (t[unat a := v]) b = (if b = a then v else table_at t b)"
  by (auto simp: table_at_def nth_list_update dest: unsigned_word_eqI)

lemma used_update:
  "length u = 256 \<Longrightarrow> u[unat (a :: u8) := v] ! unat b = (if b = a then v else u ! unat b)"
  by (auto simp: nth_list_update dest: unsigned_word_eqI)

lemma all_bytes: "set (map word_of_nat [0..<256]) = (UNIV :: u8 set)"
proof -
  have "b \<in> word_of_nat ` {0..<256}" for b :: u8
    by (rule image_eqI [where x = "unat b"]) auto
  then show ?thesis by auto
qed

lemma distinct_bytes: "distinct (map word_of_nat [0..<256] :: u8 list)"
  by (rule card_distinct) (simp add: all_bytes del: set_map, simp add: card_word)

section \<open>Swap tables are involutions\<close>

text \<open>
  The loop keeps the table an involution in which every byte not yet used is a fixed
  point; that is what makes the next pair safe to swap in.
\<close>

definition swaps_inv :: "bytes \<Rightarrow> bool list \<Rightarrow> bool" where
  "swaps_inv t u \<longleftrightarrow> length t = 256 \<and> length u = 256 \<and>
     (\<forall>b. table_at t (table_at t b) = b) \<and> (\<forall>b. \<not> u ! unat b \<longrightarrow> table_at t b = b)"

lemma swaps_inv_init: "swaps_inv identity_table (replicate 256 False)"
  by (simp add: swaps_inv_def)

lemma swaps_inv_swap:
  assumes inv: "swaps_inv t u" and fresh: "\<not> u ! unat a" "\<not> u ! unat b" and neq: "a \<noteq> b"
  shows "swaps_inv (t[unat a := b, unat b := a]) (u[unat a := True, unat b := True])"
proof -
  have len: "length t = 256" "length u = 256" and ab: "table_at t a = a" "table_at t b = b"
    using inv fresh by (auto simp: swaps_inv_def)
  have at: "table_at (t[unat a := b, unat b := a]) c =
      (if c = b then a else if c = a then b else table_at t c)" for c
    using len by (simp add: table_at_update)
  have "table_at t c \<noteq> a \<and> table_at t c \<noteq> b" if "c \<noteq> a" "c \<noteq> b" for c
    using inv ab that by (metis swaps_inv_def)
  moreover have "table_at t (table_at t c) = c" for c
    using inv by (simp add: swaps_inv_def)
  ultimately have "table_at (t[unat a := b, unat b := a])
      (table_at (t[unat a := b, unat b := a]) c) = c" for c
    using neq by (simp add: at)
  moreover have "table_at (t[unat a := b, unat b := a]) c = c"
    if "\<not> u[unat a := True, unat b := True] ! unat c" for c
    using that inv len by (auto simp: at used_update swaps_inv_def split: if_splits)
  ultimately show ?thesis
    using len by (simp add: swaps_inv_def)
qed

lemma from_swaps_loop_inv:
  "swaps_inv t u \<Longrightarrow> from_swaps_loop t u swaps = Inr t' \<Longrightarrow> \<exists>u'. swaps_inv t' u'"
proof (induction t u swaps rule: from_swaps_loop.induct)
  case (1 tbl used)
  then show ?case by auto
next
  case (2 tbl used a b swaps)
  show ?case
  proof (cases "a = b")
    case True
    have "swaps_inv tbl (used[unat a := True])"
      using "2.prems"(1) by (auto simp: swaps_inv_def used_update)
    with True "2.IH"(1) "2.prems"(2) show ?thesis by simp
  next
    case False
    with "2.prems"(2) have "\<not> used ! unat a" "\<not> used ! unat b"
      by (auto split: if_splits)
    with False "2.prems" "2.IH"(2) swaps_inv_swap show ?thesis by simp
  qed
qed

lemma from_swaps_table:
  assumes "from_swaps swaps = Inr c"
  shows "length (table c) = 256" and "table_at (table c) (table_at (table c) b) = b"
proof -
  from assms obtain t where
    "from_swaps_loop identity_table (replicate 256 False) swaps = Inr t" and "c = \<lparr>table = t\<rparr>"
    by (auto simp: from_swaps_def result_simps)
  with from_swaps_loop_inv [OF swaps_inv_init] show
    "length (table c) = 256" "table_at (table c) (table_at (table c) b) = b"
    by (auto simp: swaps_inv_def)
qed

lemma from_swaps_involution: "from_swaps swaps = Inr c \<Longrightarrow> involution (static_encode c)"
  by unfold_locales (simp add: static_encode_def from_swaps_table(2) flip: table_at_def)

section \<open>The random pairing is an involution without fixed points\<close>

lemma pair_adjacent_involution:
  assumes "length t = 256" and "distinct xs" and "even (length xs)"
    and "\<And>c. c \<notin> set xs \<Longrightarrow> table_at t c \<notin> set xs \<and> table_at t (table_at t c) = c \<and> table_at t c \<noteq> c"
  shows "table_at (pair_adjacent t xs) (table_at (pair_adjacent t xs) c) = c \<and>
         table_at (pair_adjacent t xs) c \<noteq> c"
  using assms
proof (induction t xs arbitrary: c rule: pair_adjacent.induct)
  case (1 t a b perm)
  let ?t = "t[unat a := b, unat b := a]"
  have at: "table_at ?t d = (if d = b then a else if d = a then b else table_at t d)" for d
    using "1.prems"(1) by (simp add: table_at_update)
  have "table_at ?t d \<notin> set perm \<and> table_at ?t (table_at ?t d) = d \<and> table_at ?t d \<noteq> d"
    if d: "d \<notin> set perm" for d
  proof (cases "d = a \<or> d = b")
    case True
    with "1.prems"(2) show ?thesis by (auto simp: at)
  next
    case False
    with d "1.prems"(4) [of d] show ?thesis by (auto simp: at)
  qed
  with "1.IH" "1.prems" show ?case by simp
qed (use assms in auto)

lemma random_involution_table:
  assumes "random_involution gr g = (Inr c, g')"
  shows "table_at (table c) (table_at (table c) b) = b \<and> table_at (table c) b \<noteq> b"
proof -
  from assms obtain perm where perm: "fisher_yates gr (map word_of_nat [0..<256]) g = (Inr perm, g')"
    and c: "table c = pair_adjacent identity_table perm"
    by (auto simp: random_involution_def result_simps)
  have "set perm = UNIV"
    using fisher_yates_set [OF perm] all_bytes by simp
  moreover have "distinct perm" and "even (length perm)"
    using fisher_yates_distinct [OF perm distinct_bytes] fisher_yates_length [OF perm] by simp_all
  ultimately show ?thesis
    unfolding c by (intro pair_adjacent_involution) simp_all
qed

lemma random_involution_involution:
  "random_involution gr g = (Inr c, g') \<Longrightarrow> involution (static_encode c)"
  by unfold_locales (simp add: static_encode_def random_involution_table flip: table_at_def)

lemma random_involution_ok: "rng_total gr \<Longrightarrow> returns_ok (random_involution gr)"
  unfolding random_involution_def by (blast intro: fisher_yates_ok)

section \<open>The codices satisfy the contract\<close>

interpretation identity: involution "encode identity_codex"
  by unfold_locales (simp add: identity_codex_def)

interpretation xor: involution "encode (fn_codex (\<lambda>b. b XOR mask))" for mask :: u8
  by unfold_locales (simp add: fn_codex_def ac_simps)

interpretation identity_law: codex_law "encode identity_codex" "decode identity_codex"
  by unfold_locales (simp add: identity_codex_def)

lemma static_codex_law:
  "involution (static_encode c) \<Longrightarrow> codex_law (encode (static_as_codex c)) (decode (static_as_codex c))"
  by unfold_locales
     (simp add: static_as_codex_def static_decode_def involution.involutive flip: static_encode_def)

section \<open>Properties\<close>

text \<open>Swap tables: whenever \<^verbatim>\<open>StaticCodex::from_swaps\<close> accepts a list of pairs, the table it builds
  is an involution, so decoding is the inverse of encoding on every byte; and it never panics: a refusal is
  a \<^verbatim>\<open>Codex\<close> error.\<close>

lemma from_swaps_inverse:
  "case from_swaps swaps of
     Inr c \<Rightarrow> \<forall>b. static_decode c (static_encode c b) = b
   | Inl e \<Rightarrow> e = Err (Codex ''byte appears in more than one swap pair'')"
proof (cases "from_swaps swaps")
  case (Inl e)
  have "from_swaps_loop t u swaps = Inl e \<Longrightarrow> e = Err (Codex ''byte appears in more than one swap pair'')" for t u
    by (induction t u swaps rule: from_swaps_loop.induct) (auto split: if_splits)
  with Inl show ?thesis
    by (auto simp: from_swaps_def result_simps)
next
  case (Inr c)
  then show ?thesis
    using involution.involutive [OF from_swaps_involution [OF Inr]]
    by (simp add: static_decode_def flip: static_encode_def)
qed

text \<open>Which lists are refused depends on their order: a self-swap is accepted after a pair that uses the
  byte and the same self-swap before that pair makes the pair an error, although the documentation says an
  error is returned whenever a byte appears in more than one pair.\<close>

theorem from_swaps_self_swap_order:
  assumes "a \<noteq> b"
  shows "(\<exists>c. from_swaps [(a, b), (a, a)] = Inr c) \<and>
         from_swaps [(a, a), (a, b)] = Inl (Err (Codex ''byte appears in more than one swap pair''))"
  using assms by (simp add: from_swaps_def result_simps)

theorem from_swaps_self_swap_order_witness:
  "(\<exists>c. from_swaps [(1, 2), (1, 1)] = Inr c) \<and>
   from_swaps [(1, 1), (1, 2)] = Inl (Err (Codex ''byte appears in more than one swap pair''))"
  by (rule from_swaps_self_swap_order) simp

text \<open>The random codex: whatever the random source gives, a table that \<^verbatim>\<open>random_involution\<close> returns
  (and so a \<^verbatim>\<open>DynamicCodex\<close>) decodes what it encodes and maps no byte to itself.\<close>

lemma dynamic_codex_inverse_no_fixed_point:
  assumes "dynamic_new gr g = (Inr d, g')"
  shows "decode (dynamic_as_codex d) (encode (dynamic_as_codex d) b) = b \<and> encode (dynamic_as_codex d) b \<noteq> b"
proof -
  from assms obtain c where c: "random_involution gr g = (Inr c, g')" and d: "d = \<lparr>inner = c\<rparr>"
    by (auto simp: dynamic_new_def result_simps)
  show ?thesis
    using random_involution_table [OF c, of b] unfolding d
    by (simp add: dynamic_as_codex_def static_encode_def static_decode_def table_at_def)
qed

text \<open>(C36) The built-in codices decode what they encode. Whenever \<^verbatim>\<open>StaticCodex::from_swaps\<close> accepts a list of pairs
  the table is an involution, and a refusal is a \<^verbatim>\<open>Codex\<close> error, never a panic. Whatever the random source gives, a
  \<^verbatim>\<open>DynamicCodex\<close> decodes what it encodes and maps no byte to itself.\<close>

theorem codices_invert:
  assumes "dynamic_new gr g = (Inr d, g')"
  shows "(case from_swaps swaps of
      Inr c \<Rightarrow> \<forall>b. static_decode c (static_encode c b) = b
    | Inl e \<Rightarrow> e = Err (Codex ''byte appears in more than one swap pair'')) \<and>
    decode (dynamic_as_codex d) (encode (dynamic_as_codex d) b) = b \<and> encode (dynamic_as_codex d) b \<noteq> b"
  using from_swaps_inverse dynamic_codex_inverse_no_fixed_point [OF assms] ..

theorem codices_invert_witness:
  "\<exists>d g'. dynamic_new counter_rng 0 = (Inr d, g') \<and>
     decode (dynamic_as_codex d) (encode (dynamic_as_codex d) 7) = 7 \<and> encode (dynamic_as_codex d) 7 \<noteq> 7"
proof -
  have "returns_ok (dynamic_new counter_rng)"
    unfolding dynamic_new_def by (intro returns_ok_rbind random_involution_ok counter_rng_total) simp
  then obtain d g' where "dynamic_new counter_rng 0 = (Inr d, g')"
    by (rule returns_okE)
  with codices_invert [OF this] show ?thesis by blast
qed

end
