(* ===== verification/Handle.thy ===== *)
theory Handle
  imports Prelude
begin

text \<open>
  Handles and metadata: \<^verbatim>\<open>src/src/handle.rs\<close> and \<^verbatim>\<open>src/src/metadata.rs\<close>. A \<^verbatim>\<open>KeyId\<close> is a
  non-zero 64-bit number drawn from a process-wide counter that wraps; the counter is part
  of the state of whoever allocates. A \<^verbatim>\<open>KeyHandle\<close> wraps the id.
\<close>

type_synonym key_id = u64

section \<open>Identifiers\<close>

text \<open>\<^verbatim>\<open>COUNTER.fetch_add(1)\<close>: the old value, and the counter one further, wrapping.\<close>

definition next_raw :: "u64 \<Rightarrow> u64 \<times> u64" where
  "next_raw counter = (counter, counter + 1)"

text \<open>Without 64-bit atomics the counter is behind a mutex: read, \<^verbatim>\<open>wrapping_add\<close>, write back.\<close>

definition next_raw_locked :: "u64 \<Rightarrow> u64 \<times> u64" where
  "next_raw_locked counter = (let raw = counter; counter' = word_of_nat ((unat counter + 1) mod 2 ^ 64) in (raw, counter'))"

lemma next_raw_locked_eq: "next_raw_locked = next_raw"
proof
  fix c :: u64
  have "unat (word_of_nat ((unat c + 1) mod 2 ^ 64) :: u64) = unat (c + 1)"
    by (simp add: unat_word_ariths unat_of_nat)
  then have "word_of_nat ((unat c + 1) mod 2 ^ 64) = c + 1"
    by (rule unsigned_word_eqI)
  then show "next_raw_locked c = next_raw c"
    by (simp add: next_raw_locked_def next_raw_def)
qed

definition key_id_next :: "u64 \<Rightarrow> key_id \<times> u64" where
  "key_id_next counter =
     (let (raw, counter') = next_raw counter in (if raw = 0 then 1 else raw, counter'))"

record key_handle =
  handle_id :: key_id

definition handle_allocate :: "u64 \<Rightarrow> key_handle \<times> u64" where
  "handle_allocate counter =
     (let (i, counter') = key_id_next counter in (\<lparr>handle_id = i\<rparr>, counter'))"

definition handle_from_id :: "key_id \<Rightarrow> key_handle" where
  "handle_from_id i = \<lparr>handle_id = i\<rparr>"

text \<open>\<^verbatim>\<open>ConstantTimeEq\<close> and \<^verbatim>\<open>PartialEq\<close>: equality of the raw ids.\<close>

definition handle_eq :: "key_handle \<Rightarrow> key_handle \<Rightarrow> bool" where
  "handle_eq a b \<longleftrightarrow> handle_id a = handle_id b"

text \<open>The \<^verbatim>\<open>Debug\<close> renderings.\<close>

definition key_id_debug :: "key_id \<Rightarrow> string" where
  "key_id_debug i = ''KeyId(<redacted>)''"

definition handle_debug :: "key_handle \<Rightarrow> string" where
  "handle_debug h = ''KeyHandle(<redacted>)''"

text \<open>The ids of \<open>n\<close> allocations in a row.\<close>

primrec allocations :: "nat \<Rightarrow> u64 \<Rightarrow> key_id list \<times> u64" where
  "allocations 0 c = ([], c)"
| "allocations (Suc n) c =
     (let (h, c1) = handle_allocate c; (is, c2) = allocations n c1 in (handle_id h # is, c2))"

section \<open>Metadata\<close>

datatype algorithm_hint =
    Symmetric128 | Symmetric256 | Ed25519 | X25519 | P256 | P384
  | Rsa2048 | Rsa3072 | Rsa4096 | Hmac | OtherAlgorithm

record key_metadata =
  registered_since_epoch :: duration
  md_length :: nat
  algorithm :: "algorithm_hint option"

definition key_metadata_new :: "duration \<Rightarrow> nat \<Rightarrow> algorithm_hint option \<Rightarrow> key_metadata" where
  "key_metadata_new t n a = \<lparr>registered_since_epoch = t, md_length = n, algorithm = a\<rparr>"

section \<open>Identifiers are non-zero, and unique for 2^64 - 1 allocations\<close>

lemma key_id_next_nonzero: "fst (key_id_next c) \<noteq> 0"
  by (simp add: key_id_next_def next_raw_def)

lemma handle_allocate_simps:
  "handle_id (fst (handle_allocate c)) = (if c = 0 then 1 else c)" "snd (handle_allocate c) = c + 1"
  by (simp_all add: handle_allocate_def key_id_next_def next_raw_def)

lemma allocations_eq:
  "n \<le> 2 ^ 64 - unat c \<Longrightarrow> 0 < unat c \<Longrightarrow>
     fst (allocations n c) = map word_of_nat [unat c ..< unat c + n]"
proof (induction n arbitrary: c)
  case 0
  then show ?case by simp
next
  case (Suc n)
  have "c \<noteq> 0"
    using Suc.prems(2) by auto
  then have step: "fst (allocations (Suc n) c) = c # fst (allocations n (c + 1))"
    by (simp add: handle_allocate_def key_id_next_def next_raw_def split_beta)
  show ?case
  proof (cases n)
    case 0
    with step show ?thesis by (simp add: upt_rec)
  next
    case (Suc m)
    then have c: "unat (c + 1) = Suc (unat c)"
      using Suc.prems by (simp add: unat_word_ariths)
    then have "fst (allocations n (c + 1)) = map word_of_nat [Suc (unat c) ..< Suc (unat c) + n]"
      using Suc.IH [of "c + 1"] Suc.prems by auto
    moreover have "[unat c ..< unat c + Suc n] = unat c # [Suc (unat c) ..< Suc (unat c) + n]"
      by (simp add: upt_conv_Cons del: upt_Suc)
    ultimately show ?thesis
      using step by (simp del: upt_Suc allocations.simps)
  qed
qed

lemma allocations_distinct:
  assumes "n < 2 ^ 64"
  shows "distinct (fst (allocations n 1)) \<and> 0 \<notin> set (fst (allocations n 1))"
proof -
  have eq: "fst (allocations n 1) = map word_of_nat [1 ..< Suc n]"
    using allocations_eq [of n 1] assms by simp
  have "inj_on (word_of_nat :: nat \<Rightarrow> u64) {1 ..< Suc n}"
  proof (rule inj_onI)
    fix x y assume xy: "x \<in> {1 ..< Suc n}" "y \<in> {1 ..< Suc n}" "(word_of_nat x :: u64) = word_of_nat y"
    from xy(3) have "x mod 2 ^ 64 = y mod 2 ^ 64"
      by (simp add: word_of_nat_eq_iff take_bit_eq_mod)
    with xy(1,2) assms show "x = y" by simp
  qed
  moreover have "(word_of_nat x :: u64) \<noteq> 0" if "1 \<le> x" "x < Suc n" for x
    using that assms by (simp add: word_of_nat_eq_0_iff nat_dvd_not_less)
  ultimately show ?thesis
    unfolding eq by (auto simp: distinct_map simp del: upt_Suc)
qed

section \<open>Properties\<close>

text \<open>(C38) Handles: the ids of the first \<open>2 ^ 64 - 1\<close> allocations of a process are pairwise distinct, and an
  id is never zero, also after the counter has wrapped.\<close>

theorem handle_ids_unique:
  "(\<forall>c. handle_id (fst (handle_allocate c)) \<noteq> 0) \<and> distinct (fst (allocations (2 ^ 64 - 1) 1))"
  using allocations_distinct [of "2 ^ 64 - 1"] by (simp add: handle_allocate_simps)

end
