(* ===== verification/Hooks.thy ===== *)
theory Hooks
  imports Prelude
begin

text \<open>
  The outbound hooks: the security monitor of \<^verbatim>\<open>src/src/monitor/\<close> and the audit trail of
  \<^verbatim>\<open>src/src/audit/\<close>. The implementations an application passes in are parameters: a
  monitor is three state updates on whatever state the application keeps, an audit sink one
  update and a flag. The built-in ones (\<^verbatim>\<open>NoMonitor\<close>, \<^verbatim>\<open>CompositeMonitor\<close>, \<^verbatim>\<open>LogMonitor\<close>,
  \<^verbatim>\<open>NoAudit\<close>, \<^verbatim>\<open>LogAudit\<close>) are modelled; the \<^verbatim>\<open>tracing\<close> crate the two log sinks call is
  the list of records handed to it.
\<close>

section \<open>Monitor contexts\<close>

record failure_context =
  fc_key_name :: string
  consecutive_failures :: nat
  window_elapsed :: duration
  fc_note :: string

record access_context =
  ac_key_name :: string
  ac_note :: string

datatype lockout_scope = VaultScope | KeyScope

record threshold_context =
  tc_key_name :: string
  failures_in_window :: nat
  tc_window :: duration
  lockout_triggered :: bool
  scope :: lockout_scope

text \<open>The calls a monitor receives, in order.\<close>

datatype monitor_event =
    OnDecryptionFailure failure_context
  | OnAnomalousAccess access_context
  | OnThresholdBreach threshold_context

record 'm monitor =
  on_decryption_failure :: "failure_context \<Rightarrow> 'm \<Rightarrow> 'm"
  on_anomalous_access :: "access_context \<Rightarrow> 'm \<Rightarrow> 'm"
  on_threshold_breach :: "threshold_context \<Rightarrow> 'm \<Rightarrow> 'm"

fun deliver :: "'m monitor \<Rightarrow> monitor_event \<Rightarrow> 'm \<Rightarrow> 'm" where
  "deliver m (OnDecryptionFailure ctx) s = on_decryption_failure m ctx s"
| "deliver m (OnAnomalousAccess ctx) s = on_anomalous_access m ctx s"
| "deliver m (OnThresholdBreach ctx) s = on_threshold_breach m ctx s"

definition no_monitor :: "'m monitor" where
  "no_monitor = \<lparr>on_decryption_failure = (\<lambda>ctx s. s), on_anomalous_access = (\<lambda>ctx s. s),
                 on_threshold_breach = (\<lambda>ctx s. s)\<rparr>"

text \<open>\<^verbatim>\<open>CompositeMonitor\<close>: every inner monitor in registration order.\<close>

definition composite :: "'m monitor list \<Rightarrow> 'm monitor" where
  "composite inner =
     \<lparr>on_decryption_failure = (\<lambda>ctx s. fold (\<lambda>m. on_decryption_failure m ctx) inner s),
      on_anomalous_access = (\<lambda>ctx s. fold (\<lambda>m. on_anomalous_access m ctx) inner s),
      on_threshold_breach = (\<lambda>ctx s. fold (\<lambda>m. on_threshold_breach m ctx) inner s)\<rparr>"

definition composite_len :: "'m monitor list \<Rightarrow> nat" where
  "composite_len inner = length inner"

definition composite_is_empty :: "'m monitor list \<Rightarrow> bool" where
  "composite_is_empty inner \<longleftrightarrow> inner = []"

section \<open>Log records\<close>

datatype level = Info | Warn | Error

datatype field_value = Text string | Number nat | Flag bool

record log_record =
  lr_level :: level
  lr_target :: string
  lr_fields :: "(string \<times> field_value) list"
  lr_message :: string

text \<open>\<^verbatim>\<open>u64::try_from(d.as_millis()).unwrap_or(u64::MAX)\<close>.\<close>

definition as_millis_u64 :: "duration \<Rightarrow> nat" where
  "as_millis_u64 d = (let ms = d div 1000000 in if ms \<le> usize_max then ms else usize_max)"

fun scope_debug :: "lockout_scope \<Rightarrow> string" where
  "scope_debug VaultScope = ''Vault''"
| "scope_debug KeyScope = ''Key''"

definition log_monitor :: "log_record list monitor" where
  "log_monitor =
     \<lparr>on_decryption_failure = (\<lambda>ctx out. out @
        [\<lparr>lr_level = Warn, lr_target = ''key_vault::monitor'',
          lr_fields = [(''key_name'', Text (fc_key_name ctx)),
                       (''consecutive_failures'', Number (consecutive_failures ctx)),
                       (''window_elapsed_ms'', Number (as_millis_u64 (window_elapsed ctx))),
                       (''note'', Text (fc_note ctx))],
          lr_message = ''key access failure''\<rparr>]),
      on_anomalous_access = (\<lambda>ctx out. out @
        [\<lparr>lr_level = Warn, lr_target = ''key_vault::monitor'',
          lr_fields = [(''key_name'', Text (ac_key_name ctx)), (''note'', Text (ac_note ctx))],
          lr_message = ''anomalous key access''\<rparr>]),
      on_threshold_breach = (\<lambda>ctx out. out @
        [\<lparr>lr_level = Error, lr_target = ''key_vault::monitor'',
          lr_fields = [(''key_name'', Text (tc_key_name ctx)),
                       (''failures_in_window'', Number (failures_in_window ctx)),
                       (''window_ms'', Number (as_millis_u64 (tc_window ctx))),
                       (''lockout_triggered'', Flag (lockout_triggered ctx)),
                       (''scope'', Text (scope_debug (scope ctx)))],
          lr_message = ''threshold breach''\<rparr>])\<rparr>"

section \<open>Audit events\<close>

datatype access_kind =
    Register | Unregister | Read | Rotate | OneShotFragment | OneShotDefragment
  | MasterUnlockAttempt bool

fun access_kind_display :: "access_kind \<Rightarrow> string" where
  "access_kind_display Register = ''register''"
| "access_kind_display Unregister = ''unregister''"
| "access_kind_display Read = ''read''"
| "access_kind_display Rotate = ''rotate''"
| "access_kind_display OneShotFragment = ''one-shot-fragment''"
| "access_kind_display OneShotDefragment = ''one-shot-defragment''"
| "access_kind_display (MasterUnlockAttempt True) = ''master-unlock-ok''"
| "access_kind_display (MasterUnlockAttempt False) = ''master-unlock-fail''"

record audit_event =
  timestamp :: duration
  ev_key_name :: string
  kind :: access_kind
  thread_id :: nat
  ev_note :: string

record 'a audit_sink =
  on_event :: "audit_event \<Rightarrow> 'a \<Rightarrow> 'a"
  is_no_op :: bool

definition no_audit :: "'a audit_sink" where
  "no_audit = \<lparr>on_event = (\<lambda>ev s. s), is_no_op = True\<rparr>"

definition log_audit :: "log_record list audit_sink" where
  "log_audit =
     \<lparr>on_event = (\<lambda>ev out. out @
        [\<lparr>lr_level = Info, lr_target = ''key_vault::audit'',
          lr_fields = [(''key_name'', Text (ev_key_name ev)),
                       (''kind'', Text (access_kind_display (kind ev))),
                       (''thread_id'', Number (thread_id ev)),
                       (''timestamp_ms_since_epoch'', Number (as_millis_u64 (timestamp ev))),
                       (''note'', Text (ev_note ev))],
          lr_message = ''audit event''\<rparr>]),
      is_no_op = False\<rparr>"

section \<open>Facts\<close>

lemma access_kind_display_inj: "inj access_kind_display"
proof (rule injI)
  fix a b assume "access_kind_display a = access_kind_display b"
  then show "a = b"
    by (cases a rule: access_kind_display.cases; cases b rule: access_kind_display.cases) auto
qed

lemma deliver_composite: "deliver (composite inner) ev s = fold (\<lambda>m. deliver m ev) inner s"
  by (cases ev) (auto simp: composite_def fun_eq_iff intro!: arg_cong [of _ _ "\<lambda>f. fold f inner s"])

lemma deliver_composite_empty: "deliver (composite []) ev s = deliver no_monitor ev s"
  by (cases ev) (simp_all add: composite_def no_monitor_def)

text \<open>
  A monitor that works on its own part of a larger state, selected by \<open>get\<close> and \<open>put\<close>.
\<close>

definition at_slot :: "nat \<Rightarrow> 'm monitor \<Rightarrow> (nat \<Rightarrow> 'm) monitor" where
  "at_slot i m =
     \<lparr>on_decryption_failure = (\<lambda>ctx s. s(i := on_decryption_failure m ctx (s i))),
      on_anomalous_access = (\<lambda>ctx s. s(i := on_anomalous_access m ctx (s i))),
      on_threshold_breach = (\<lambda>ctx s. s(i := on_threshold_breach m ctx (s i)))\<rparr>"

lemma deliver_at_slot: "deliver (at_slot i m) ev s = s(i := deliver m ev (s i))"
  by (cases ev) (simp_all add: at_slot_def)

lemma fold_slots_outside:
  "j \<notin> fst ` set ps \<Longrightarrow> fold (\<lambda>(i, m). deliver (at_slot i m) ev) ps s j = s j"
  by (induction ps arbitrary: s) (auto simp: deliver_at_slot)

lemma fold_slots:
  "distinct (map fst ps) \<Longrightarrow> (i, m) \<in> set ps \<Longrightarrow>
     fold (\<lambda>(i, m). deliver (at_slot i m) ev) ps s i = deliver m ev (s i)"
proof (induction ps arbitrary: s)
  case Nil
  then show ?case by simp
next
  case (Cons p ps)
  show ?case
  proof (cases "p = (i, m)")
    case True
    with Cons.prems(1) have "i \<notin> fst ` set ps" by simp
    then have "fold (\<lambda>(i, m). deliver (at_slot i m) ev) ps (deliver (at_slot i m) ev s) i =
        deliver (at_slot i m) ev s i"
      by (rule fold_slots_outside)
    with True show ?thesis by (simp add: deliver_at_slot [of i m ev s])
  next
    case False
    obtain j m' where p: "p = (j, m')" by fastforce
    with False Cons.prems have "i \<noteq> j" "(i, m) \<in> set ps" "distinct (map fst ps)"
      by (auto simp: image_iff)
    then have "fold (\<lambda>(i, m). deliver (at_slot i m) ev) ps (s(j := deliver m' ev (s j))) i =
        deliver m ev ((s(j := deliver m' ev (s j))) i)"
      by (intro Cons.IH)
    with p \<open>i \<noteq> j\<close> show ?thesis
      by (simp add: deliver_at_slot [of j m' ev s] del: fun_upd_apply) simp
  qed
qed

text \<open>
  Fan-out: every member of a composite, each with its own state, ends in the state it would
  have reached had it received the whole sequence of events alone.
\<close>

lemma composite_fan_out:
  assumes "i < length ms"
  shows "fold (deliver (composite (map (\<lambda>(i, m). at_slot i m) (enumerate 0 ms)))) evs s i =
         fold (deliver (ms ! i)) evs (s i)"
proof (induction evs arbitrary: s)
  case Nil
  then show ?case by simp
next
  case (Cons ev evs)
  have "(i, ms ! i) \<in> set (enumerate 0 ms)"
    using assms by (auto simp: enumerate_eq_zip in_set_zip intro!: exI [of _ i])
  then have "deliver (composite (map (\<lambda>(i, m). at_slot i m) (enumerate 0 ms))) ev s i =
      deliver (ms ! i) ev (s i)"
    using fold_slots [of "enumerate 0 ms" i "ms ! i" ev s]
    by (simp add: deliver_composite fold_map comp_def case_prod_beta')
  with Cons show ?case by simp
qed

section \<open>Properties\<close>

text \<open>Fan-out of \<^verbatim>\<open>CompositeMonitor\<close>: each inner monitor, working on its own state, ends where it would
  be had it received the same sequence of events alone: every monitor gets every event once, in order.\<close>

theorem composite_delivers_to_all:
  assumes "i < length ms"
  shows "fold (deliver (composite (map (\<lambda>(i, m). at_slot i m) (enumerate 0 ms)))) evs s i =
         fold (deliver (ms ! i)) evs (s i)"
  by (rule composite_fan_out [OF assms])

theorem composite_delivers_to_all_witness:
  "fold (deliver (composite (map (\<lambda>(i, m). at_slot i m) (enumerate 0 [log_monitor, no_monitor]))))
     [OnAnomalousAccess \<lparr>ac_key_name = ''k'', ac_note = ''n''\<rparr>] (\<lambda>_. []) 0 =
   fold (deliver ([log_monitor, no_monitor] ! 0))
     [OnAnomalousAccess \<lparr>ac_key_name = ''k'', ac_note = ''n''\<rparr>] []"
  by (rule composite_delivers_to_all) simp

end
