(* ===== verification/Vault_State.thy ===== *)
theory Vault_State
  imports Layered Codices Handle Hooks
begin

text \<open>
  The data of \<^verbatim>\<open>src/src/vault/mod.rs\<close>: the configuration, the parts of \<^verbatim>\<open>VaultInner\<close> that
  never change after \<^verbatim>\<open>build\<close> (the record \<open>vault\<close>), and everything the operations change
  (the record \<open>vstate\<close>). The operations are computations on that state.

  The environment of the vault is a record of parameters over one abstract world: the
  random source, the operating system's memory calls, the clock and the hash function. The
  two sinks are the lists of what they have been handed. The thread's scratch buffer is the
  field \<open>scratch\<close>, with the \<^verbatim>\<open>RefCell\<close> borrow flag beside it. One thread runs at a time
  here; interleavings of several are the subject of the theory \<open>Concurrency\<close>.
\<close>

section \<open>Configuration\<close>

definition NORMALIZATION_KEY_CONTEXT :: string where
  "NORMALIZATION_KEY_CONTEXT = ''key-vault 2026-10 normalization key v1''"

definition MASTER_NAME :: string where
  "MASTER_NAME = ''<master>''"

definition DEFAULT_MAX_FAILURES :: nat where
  "DEFAULT_MAX_FAILURES = 0"

definition DEFAULT_FAILURE_WINDOW :: duration where
  "DEFAULT_FAILURE_WINDOW = from_secs 60"

record vault_config =
  key_normalization :: bool
  keyed_normalization :: bool
  max_failures_before_lockout :: nat
  failure_window :: duration
  key_lockout_threshold :: nat
  key_lockout_window :: duration
  key_lockout_duration :: "duration option"
  master_backoff_base :: duration
  master_backoff_max :: duration
  page_protection :: bool

definition vault_config_new :: vault_config where
  "vault_config_new =
     \<lparr>key_normalization = True, keyed_normalization = False,
      max_failures_before_lockout = DEFAULT_MAX_FAILURES,
      failure_window = DEFAULT_FAILURE_WINDOW, key_lockout_threshold = 0,
      key_lockout_window = DEFAULT_FAILURE_WINDOW, key_lockout_duration = None,
      master_backoff_base = 0, master_backoff_max = 0, page_protection = False\<rparr>"

section \<open>The environment\<close>

record 'w env =
  env_rng :: "'w getrandom"
  env_os :: "'w os"
  env_now :: "'w \<Rightarrow> duration \<times> 'w"
  env_unix_time :: "'w \<Rightarrow> duration \<times> 'w"
  env_thread :: nat
  env_blake3 :: blake3

section \<open>The parts of a vault\<close>

datatype 'w fragmenter = StandardF "'w standard_fragmenter" | CustomF "'w strategy"

text \<open>\<^verbatim>\<open>SecretBytes\<close>: one chunk and an empty layout, page-protected or not.\<close>

type_synonym secret_bytes = storage

datatype normalizer = NormOff | NormPlain | NormKeyed secret_bytes | NormUnavailable string

datatype master_verifier = MasterReady secret_bytes | MasterUnavailable string

record backoff =
  failures :: nat
  next_allowed :: duration

definition backoff_default :: backoff where
  "backoff_default = \<lparr>failures = 0, next_allowed = 0\<rparr>"

record key_entry =
  ke_name :: string
  ke_fragments :: storage
  ke_metadata :: key_metadata

record 'w vault =
  v_config :: vault_config
  v_fragmenter :: "'w fragmenter"
  v_decoy_ignored :: bool
  v_normalizer :: normalizer
  v_codex :: "codex option"
  v_master :: "master_verifier option"
  v_audit_no_op :: bool

record 'w vstate =
  world :: 'w
  id_counter :: u64
  regions_tab :: regions
  region_next :: nat
  keys :: "(key_id \<times> key_entry) list"
  failure_tracker :: "string \<rightharpoonup> duration list"
  locked_out :: bool
  key_locks :: "string \<rightharpoonup> duration option"
  key_locks_active :: u64
  master_backoff :: backoff
  scratch :: bytes
  scratch_borrowed :: bool
  audit_log :: "audit_event list"
  monitor_log :: "monitor_event list"

type_synonym ('w, 'a) vop = "('w vstate, 'a) rand"

section \<open>Working on one part of the state\<close>

text \<open>A computation on the world, run on the world of the vault's state.\<close>

definition on_world :: "('w, 'a) rand \<Rightarrow> ('w, 'a) vop" where
  "on_world m s = (case m (world s) of (r, w) \<Rightarrow> (r, s\<lparr>world := w\<rparr>))"

lemma on_world_eq_Inr [result_simps]:
  "on_world m s = (Inr a, s') \<longleftrightarrow> (\<exists>w. m (world s) = (Inr a, w) \<and> s' = s\<lparr>world := w\<rparr>)"
  by (auto simp: on_world_def split: prod.splits)

lemma on_world_frame: "\<exists>w. snd (on_world m s) = s\<lparr>world := w\<rparr>"
  by (auto simp: on_world_def split: prod.splits)

definition clock_now :: "'w env \<Rightarrow> 'w vstate \<Rightarrow> duration \<times> 'w vstate" where
  "clock_now E s = (case env_now E (world s) of (t, w) \<Rightarrow> (t, s\<lparr>world := w\<rparr>))"

definition clock_unix_time :: "'w env \<Rightarrow> 'w vstate \<Rightarrow> duration \<times> 'w vstate" where
  "clock_unix_time E s = (case env_unix_time E (world s) of (t, w) \<Rightarrow> (t, s\<lparr>world := w\<rparr>))"

text \<open>
  The registry map. \<^verbatim>\<open>HashMap\<close> leaves the order of its entries open; the list has some
  order. Inserting replaces the entry of an id that is already there.
\<close>

definition kv_get :: "key_id \<Rightarrow> (key_id \<times> key_entry) list \<Rightarrow> key_entry option" where
  "kv_get i m = map_of m i"

definition kv_remove :: "key_id \<Rightarrow> (key_id \<times> key_entry) list \<Rightarrow> (key_id \<times> key_entry) list" where
  "kv_remove i m = filter (\<lambda>(j, e). j \<noteq> i) m"

definition kv_insert ::
  "key_id \<Rightarrow> key_entry \<Rightarrow> (key_id \<times> key_entry) list \<Rightarrow> (key_id \<times> key_entry) list" where
  "kv_insert i e m = (i, e) # kv_remove i m"

definition kv_has_name :: "string \<Rightarrow> (key_id \<times> key_entry) list \<Rightarrow> bool" where
  "kv_has_name n m \<longleftrightarrow> (\<exists>(j, e)\<in>set m. ke_name e = n)"

section \<open>Fragmenter dispatch\<close>

fun fragmenter_fragment :: "'w env \<Rightarrow> 'w fragmenter \<Rightarrow> bytes \<Rightarrow> ('w, fragments) rand" where
  "fragmenter_fragment E (StandardF s) key = standard_fragment (env_rng E) s key"
| "fragmenter_fragment E (CustomF c) key = st_fragment c key"

fun fragmenter_defragment :: "'w fragmenter \<Rightarrow> fragments \<Rightarrow> bytes result" where
  "fragmenter_defragment (StandardF s) fr = standard_defragment fr"
| "fragmenter_defragment (CustomF c) fr = st_defragment c fr"

fun fragmenter_defragment_into :: "'w fragmenter \<Rightarrow> fragments \<Rightarrow> bytes \<Rightarrow> unit result \<times> bytes" where
  "fragmenter_defragment_into (StandardF s) fr out = standard_defragment_into fr out"
| "fragmenter_defragment_into (CustomF c) fr out = st_defragment_into c fr out"

fun fragmenter_describe :: "'w fragmenter \<Rightarrow> string" where
  "fragmenter_describe (StandardF s) = ''standard''"
| "fragmenter_describe (CustomF c) = st_describe c"

text \<open>The contract of whatever strategy the vault was built with.\<close>

definition fragmenter_ok :: "'w fragmenter \<Rightarrow> bool" where
  "fragmenter_ok f = (case f of StandardF s \<Rightarrow> True | CustomF c \<Rightarrow> strategy_ok c)"

lemma fragmenter_contract:
  assumes "fragmenter_ok f"
  shows "fragment_strategy (fragmenter_fragment E f) (fragmenter_defragment_into f)"
proof (cases f)
  case (StandardF s)
  have "fragmenter_fragment E f = standard_fragment (env_rng E) s"
    "fragmenter_defragment_into f = standard_defragment_into"
    using StandardF by (simp_all add: fun_eq_iff)
  then show ?thesis
    using standard.fragment_strategy_axioms [of "env_rng E" s] by simp
next
  case (CustomF c)
  have "fragmenter_fragment E f = st_fragment c" "fragmenter_defragment_into f = st_defragment_into c"
    using CustomF by (simp_all add: fun_eq_iff)
  then show ?thesis
    using assms CustomF by (simp add: fragmenter_ok_def strategy_ok_def)
qed

lemma fragmenter_defragment_via:
  "fragmenter_ok f \<Longrightarrow> fragmenter_defragment f = defragment_via (fragmenter_defragment_into f)"
  by (cases f) (auto simp: fragmenter_ok_def strategy_ok_def standard_defragment_def defragment_via_def fun_eq_iff)

section \<open>Secrets\<close>

text \<open>
  \<^verbatim>\<open>SecretBytes::new\<close>, in the state of whoever owns the region table, and
  \<^verbatim>\<open>SecretBytes::read\<close>: open, run the closure over the first chunk, close.
\<close>

definition secret_new ::
  "'w os \<Rightarrow> nat \<Rightarrow> regions \<Rightarrow> bytes \<Rightarrow> bool \<Rightarrow> ('w, secret_bytes \<times> regions) rand" where
  "secret_new os i rs bs protect =
     (let fr = from_parts [bs] [] (length bs)
      in if protect then into_protected os i rs fr else rret (Heap fr, rs))"

definition secret_read :: "'w env \<Rightarrow> secret_bytes \<Rightarrow> (bytes \<Rightarrow> 'a) \<Rightarrow> ('w, 'a) vop" where
  "secret_read E st f s =
     (case storage_open (env_os E) (regions_tab s) st (world s) of
        (Inl e, w) \<Rightarrow> (Inl e, s\<lparr>world := w\<rparr>)
      | (Inr rs, w) \<Rightarrow>
          (case load rs st of
             Inl e \<Rightarrow> (Inl e, s\<lparr>world := w, regions_tab := rs\<rparr>)
           | Inr fr \<Rightarrow>
               (case storage_close (env_os E) rs st w of
                  (rs', w') \<Rightarrow>
                    (Inr (f (case chunk fr 0 of Some c \<Rightarrow> c | None \<Rightarrow> [])),
                     s\<lparr>world := w', regions_tab := rs'\<rparr>))))"

section \<open>Codex passes\<close>

definition codex_apply :: "codex \<Rightarrow> bytes \<Rightarrow> bytes" where
  "codex_apply c key = map (encode c) key"

definition codex_decode_in_place :: "codex \<Rightarrow> bytes \<Rightarrow> bytes" where
  "codex_decode_in_place c out = map (decode c) out"

section \<open>Audit\<close>

definition emit_audit ::
  "'w env \<Rightarrow> 'w vault \<Rightarrow> string \<Rightarrow> access_kind \<Rightarrow> string \<Rightarrow> 'w vstate \<Rightarrow> 'w vstate" where
  "emit_audit E v name k note s =
     (if v_audit_no_op v then s
      else case clock_unix_time E s of
             (t, s1) \<Rightarrow> s1\<lparr>audit_log := audit_log s1 @
                [\<lparr>timestamp = t, ev_key_name = name, kind = k, thread_id = env_thread E,
                  ev_note = note\<rparr>]\<rparr>)"

text \<open>The \<^verbatim>\<open>Debug\<close> rendering of a name, for ASCII names.\<close>

definition hex_digit :: "nat \<Rightarrow> char" where
  "hex_digit n = char_of (if n < 10 then 48 + n else 87 + n)"

definition debug_char :: "char \<Rightarrow> string" where
  "debug_char c =
     (let n = of_char c :: nat; bs = char_of (92::nat) :: char in
      if n = 34 \<or> n = 92 then [bs, c]
      else if n = 10 then [bs, CHR ''n'']
      else if n = 13 then [bs, CHR ''r'']
      else if n = 9 then [bs, CHR ''t'']
      else if n = 0 then [bs, CHR ''0'']
      else if n < 32 \<or> n = 127
      then [bs, CHR ''u'', CHR ''{''] @
           (if n < 16 then [hex_digit n] else [hex_digit (n div 16), hex_digit (n mod 16)]) @ [CHR ''}'']
      else [c])"

definition debug_str :: "string \<Rightarrow> string" where
  "debug_str s = [char_of (34::nat)] @ concat (map debug_char s) @ [char_of (34::nat)]"

end
