(* ===== verification/Lockout.thy ===== *)
theory Lockout
  imports Vault_State
begin

text \<open>
  The failure tracker and the two lockouts of \<^verbatim>\<open>src/src/vault/mod.rs\<close>: \<^verbatim>\<open>report_failure\<close>,
  \<^verbatim>\<open>handle_failure\<close>, \<^verbatim>\<open>record_failure\<close>, \<^verbatim>\<open>key_locked\<close>, \<^verbatim>\<open>clear_key_lockout\<close> and
  \<^verbatim>\<open>clear_lockout\<close>. The tracker forgets timestamps that are older than the longest window;
  an abstract detector that keeps the whole history of failures is its specification
  (\<open>report_failure_refines\<close>). The counter \<^verbatim>\<open>key_locks_active\<close>, a machine word that wraps,
  counts the per-key locks (\<open>locks_inv\<close>), which is what makes the fast path sound.
\<close>

record failure_counts =
  in_window :: nat
  in_key_window :: nat
  counts_window_elapsed :: duration

section \<open>Operations\<close>

definition is_locked_out :: "'w vstate \<Rightarrow> bool" where
  "is_locked_out s = locked_out s"

text \<open>\<^verbatim>\<open>u32::try_from(n).unwrap_or(u32::MAX)\<close> of the entries inside the window.\<close>

definition count_within :: "duration \<Rightarrow> duration \<Rightarrow> duration list \<Rightarrow> nat" where
  "count_within now window entries =
     (let n = length (filter (\<lambda>t. now - t \<le> window) entries) in if n \<le> u32_max then n else u32_max)"

definition record_failure ::
  "'w env \<Rightarrow> 'w vault \<Rightarrow> string \<Rightarrow> bool \<Rightarrow> 'w vstate \<Rightarrow> failure_counts \<times> 'w vstate" where
  "record_failure E v key_name per_key s =
     (let (now, s1) = clock_now E s;
          config = v_config v;
          keep = (if per_key then max (failure_window config) (key_lockout_window config)
                  else failure_window config);
          entries0 = (case failure_tracker s1 key_name of Some es \<Rightarrow> es | None \<Rightarrow> []);
          entries = dropWhile (\<lambda>front. keep < now - front) entries0 @ [now];
          s2 = s1\<lparr>failure_tracker := (failure_tracker s1)(key_name \<mapsto> entries)\<rparr>;
          oldest_in_window =
            (case List.find (\<lambda>t. now - t \<le> failure_window config) entries of
               Some t \<Rightarrow> t | None \<Rightarrow> now)
      in (\<lparr>in_window = count_within now (failure_window config) entries,
           in_key_window =
             (if per_key then count_within now (key_lockout_window config) entries else 0),
           counts_window_elapsed = now - oldest_in_window\<rparr>, s2))"

text \<open>The two threshold blocks of \<^verbatim>\<open>handle_failure\<close>, in their order.\<close>

definition vault_threshold ::
  "'w vault \<Rightarrow> string \<Rightarrow> failure_counts \<Rightarrow> 'w vstate \<Rightarrow> 'w vstate" where
  "vault_threshold v key_name counts s =
     (let config = v_config v; threshold = max_failures_before_lockout config in
      if threshold > 0 \<and> in_window counts \<ge> threshold
      then
        let was_locked = locked_out s;
            breach = \<lparr>tc_key_name = key_name, failures_in_window = in_window counts,
                      tc_window = failure_window config, lockout_triggered = \<not> was_locked,
                      scope = VaultScope\<rparr>
        in s\<lparr>locked_out := True, monitor_log := monitor_log s @ [OnThresholdBreach breach]\<rparr>
      else s)"

definition key_threshold_block ::
  "'w env \<Rightarrow> 'w vault \<Rightarrow> string \<Rightarrow> nat \<Rightarrow> failure_counts \<Rightarrow> 'w vstate \<Rightarrow> 'w vstate" where
  "key_threshold_block E v key_name key_threshold counts s =
     (let config = v_config v in
      if key_threshold > 0 \<and> in_key_window counts \<ge> key_threshold
      then
        let (until, s1) = (case key_lockout_duration config of
                             None \<Rightarrow> (None, s)
                           | Some d \<Rightarrow> (case clock_now E s of (t, s') \<Rightarrow> (Some (dur_saturating_add t d), s')));
            previous = key_locks s1 key_name;
            s2 = s1\<lparr>key_locks := (key_locks s1)(key_name \<mapsto> until)\<rparr>;
            s3 = (if previous = None then s2\<lparr>key_locks_active := key_locks_active s2 + 1\<rparr> else s2);
            newly_locked = (previous = None);
            breach = \<lparr>tc_key_name = key_name, failures_in_window = in_key_window counts,
                      tc_window = key_lockout_window config, lockout_triggered = newly_locked,
                      scope = KeyScope\<rparr>
        in s3\<lparr>monitor_log := monitor_log s3 @ [OnThresholdBreach breach]\<rparr>
      else s)"

definition handle_failure ::
  "'w env \<Rightarrow> 'w vault \<Rightarrow> string \<Rightarrow> string option \<Rightarrow> bool \<Rightarrow> 'w vstate \<Rightarrow> 'w vstate" where
  "handle_failure E v key_name note per_key s =
     (let note' = (case note of Some n \<Rightarrow> n | None \<Rightarrow> []);
          config = v_config v;
          key_threshold = (if per_key then key_lockout_threshold config else 0);
          (counts, s1) = record_failure E v key_name (key_threshold > 0) s;
          ctx = \<lparr>fc_key_name = key_name, consecutive_failures = in_window counts,
                 window_elapsed = counts_window_elapsed counts, fc_note = note'\<rparr>;
          s2 = s1\<lparr>monitor_log := monitor_log s1 @ [OnDecryptionFailure ctx]\<rparr>;
          s3 = vault_threshold v key_name counts s2
      in key_threshold_block E v key_name key_threshold counts s3)"

definition report_failure ::
  "'w env \<Rightarrow> 'w vault \<Rightarrow> string \<Rightarrow> string option \<Rightarrow> 'w vstate \<Rightarrow> 'w vstate" where
  "report_failure E v key_name note s = handle_failure E v key_name note True s"

definition key_locked_slow :: "'w env \<Rightarrow> string \<Rightarrow> 'w vstate \<Rightarrow> bool \<times> 'w vstate" where
  "key_locked_slow E name s =
     (case key_locks s name of
        None \<Rightarrow> (False, s)
      | Some None \<Rightarrow> (True, s)
      | Some (Some until) \<Rightarrow>
          (case clock_now E s of
             (now, s1) \<Rightarrow>
               if now < until then (True, s1)
               else (False, s1\<lparr>key_locks := (key_locks s1)(name := None),
                               key_locks_active := key_locks_active s1 - 1,
                               failure_tracker := (failure_tracker s1)(name := None)\<rparr>)))"

definition key_locked :: "'w env \<Rightarrow> string \<Rightarrow> 'w vstate \<Rightarrow> bool \<times> 'w vstate" where
  "key_locked E name s = (if key_locks_active s = 0 then (False, s) else key_locked_slow E name s)"

definition is_key_locked_out :: "'w env \<Rightarrow> key_handle \<Rightarrow> 'w vstate \<Rightarrow> bool \<times> 'w vstate" where
  "is_key_locked_out E h s =
     (case kv_get (handle_id h) (keys s) of
        None \<Rightarrow> (False, s)
      | Some e \<Rightarrow> key_locked E (ke_name e) s)"

definition clear_key_lockout :: "string \<Rightarrow> 'w vstate \<Rightarrow> bool \<times> 'w vstate" where
  "clear_key_lockout name s =
     (let removed = (key_locks s name \<noteq> None);
          s1 = s\<lparr>key_locks := (key_locks s)(name := None)\<rparr>;
          s2 = (if removed then s1\<lparr>key_locks_active := key_locks_active s1 - 1\<rparr> else s1)
      in (removed, s2\<lparr>failure_tracker := (failure_tracker s2)(name := None)\<rparr>))"

definition clear_lockout :: "'w vstate \<Rightarrow> 'w vstate" where
  "clear_lockout s =
     s\<lparr>locked_out := False, key_locks := Map.empty, key_locks_active := 0,
       failure_tracker := Map.empty\<rparr>"

definition report_anomalous_access :: "string \<Rightarrow> string option \<Rightarrow> 'w vstate \<Rightarrow> 'w vstate" where
  "report_anomalous_access key_name note s =
     (let note' = (case note of Some n \<Rightarrow> n | None \<Rightarrow> []) in
      s\<lparr>monitor_log := monitor_log s @
          [OnAnomalousAccess \<lparr>ac_key_name = key_name, ac_note = note'\<rparr>]\<rparr>)"

section \<open>The number of per-key locks\<close>

definition locks_inv :: "'w vstate \<Rightarrow> bool" where
  "locks_inv s \<longleftrightarrow> finite (dom (key_locks s)) \<and> key_locks_active s = of_nat (card (dom (key_locks s)))"

lemma clock_now_simps [simp]:
  "key_locks (snd (clock_now E s)) = key_locks s"
  "key_locks_active (snd (clock_now E s)) = key_locks_active s"
  "failure_tracker (snd (clock_now E s)) = failure_tracker s"
  "locked_out (snd (clock_now E s)) = locked_out s"
  "keys (snd (clock_now E s)) = keys s"
  by (simp_all add: clock_now_def split: prod.splits)

lemma record_failure_simps [simp]:
  "key_locks (snd (record_failure E v n p s)) = key_locks s"
  "key_locks_active (snd (record_failure E v n p s)) = key_locks_active s"
  "locked_out (snd (record_failure E v n p s)) = locked_out s"
  "keys (snd (record_failure E v n p s)) = keys s"
  by (simp_all add: record_failure_def Let_def split_beta)

lemma vault_threshold_simps [simp]:
  "key_locks (vault_threshold v n c s) = key_locks s"
  "key_locks_active (vault_threshold v n c s) = key_locks_active s"
  "failure_tracker (vault_threshold v n c s) = failure_tracker s"
  "keys (vault_threshold v n c s) = keys s"
  "world (vault_threshold v n c s) = world s"
  by (simp_all add: vault_threshold_def Let_def)

lemma locks_inv_cong:
  "key_locks s = key_locks t \<Longrightarrow> key_locks_active s = key_locks_active t \<Longrightarrow> locks_inv s \<longleftrightarrow> locks_inv t"
  by (simp add: locks_inv_def)

lemma locks_inv_insert:
  assumes "locks_inv s" and "key_locks t = (key_locks s)(n \<mapsto> u)"
    and "key_locks_active t = (if key_locks s n = None then key_locks_active s + 1 else key_locks_active s)"
  shows "locks_inv t"
  using assms by (auto simp: locks_inv_def insert_absorb domIff)

lemma locks_inv_remove:
  assumes "locks_inv s" and "key_locks t = (key_locks s)(n := None)"
    and "key_locks_active t = (if key_locks s n = None then key_locks_active s else key_locks_active s - 1)"
  shows "locks_inv t"
proof (cases "n \<in> dom (key_locks s)")
  case True
  then obtain k where k: "card (dom (key_locks s)) = Suc k"
    using assms(1) by (metis card_Suc_Diff1 locks_inv_def)
  then have "card (dom (key_locks t)) = k"
    using assms True by (simp add: locks_inv_def)
  with k True assms show ?thesis
    by (auto simp: locks_inv_def)
next
  case False
  then have "key_locks s n = None" by auto
  moreover from this have "key_locks t = key_locks s"
    using assms(2) by auto
  ultimately show ?thesis
    using assms by (simp add: locks_inv_def)
qed

lemma key_threshold_block_locks_inv: "locks_inv s \<Longrightarrow> locks_inv (key_threshold_block E v n k c s)"
  unfolding key_threshold_block_def Let_def
  by (auto simp: split_beta split: option.splits intro!: locks_inv_insert [of s])

lemma handle_failure_locks_inv: "locks_inv s \<Longrightarrow> locks_inv (handle_failure E v n note p s)"
  unfolding handle_failure_def Let_def split_beta
  by (intro key_threshold_block_locks_inv) (simp add: locks_inv_def)

lemma key_locked_slow_locks_inv: "locks_inv s \<Longrightarrow> locks_inv (snd (key_locked_slow E n s))"
  unfolding key_locked_slow_def
  by (auto simp: split_beta locks_inv_cong [of "snd (clock_now E s)" s] split: option.splits
      intro!: locks_inv_remove [of s])

lemma key_locked_locks_inv: "locks_inv s \<Longrightarrow> locks_inv (snd (key_locked E n s))"
  by (simp add: key_locked_def key_locked_slow_locks_inv)

lemma clear_key_lockout_locks_inv: "locks_inv s \<Longrightarrow> locks_inv (snd (clear_key_lockout n s))"
  unfolding clear_key_lockout_def Let_def
  by (auto intro!: locks_inv_remove [of s])

lemma clear_lockout_locks_inv: "locks_inv (clear_lockout s)"
  by (simp add: clear_lockout_def locks_inv_def)

text \<open>
  With the invariant, and fewer than \<open>2 ^ 64\<close> locks, the fast path changes nothing: the
  answer is what the lock table says.
\<close>

lemma key_locked_eq:
  assumes "locks_inv s" "card (dom (key_locks s)) < 2 ^ 64"
  shows "key_locked E n s = key_locked_slow E n s"
proof (cases "key_locks_active s = 0")
  case True
  then have "(2::nat) ^ 64 dvd card (dom (key_locks s))"
    using assms(1) by (simp add: locks_inv_def word_of_nat_eq_0_iff)
  then have "card (dom (key_locks s)) = 0"
    using assms(2) by (metis dvd_imp_le neq0_conv not_less)
  then have "key_locks s n = None"
    using assms(1) by (auto simp: locks_inv_def)
  then show ?thesis
    using True by (simp add: key_locked_def key_locked_slow_def)
qed (simp add: key_locked_def)

lemma key_locked_iff:
  assumes "locks_inv s" "card (dom (key_locks s)) < 2 ^ 64"
  shows "fst (key_locked E n s) \<longleftrightarrow>
    (\<exists>u. key_locks s n = Some u \<and> (\<forall>t. u = Some t \<longrightarrow> fst (env_now E (world s)) < t))"
  unfolding key_locked_eq [OF assms]
  by (auto simp: key_locked_slow_def clock_now_def split: option.splits prod.splits)

section \<open>The detector counts every failure in the window\<close>

text \<open>
  The specification keeps the whole history: the times and names of the reported failures.
  The vault-wide lockout must be on exactly when, at one of them, the failures of the same
  name inside the window had reached the configured maximum.
\<close>

definition failures_at :: "duration \<Rightarrow> (duration \<times> string) list \<Rightarrow> nat \<Rightarrow> nat" where
  "failures_at window evs k =
     length (filter (\<lambda>e. snd e = snd (evs ! k) \<and> fst (evs ! k) - fst e \<le> window) (take (Suc k) evs))"

definition breached :: "vault_config \<Rightarrow> (duration \<times> string) list \<Rightarrow> bool" where
  "breached cfg evs \<longleftrightarrow> (\<exists>k\<in>{..<length evs}. 0 < max_failures_before_lockout cfg \<and>
     max_failures_before_lockout cfg \<le> failures_at (failure_window cfg) evs k)"

text \<open>The clock's contract: it does not go backwards.\<close>

definition clock_monotone :: "'w env \<Rightarrow> bool" where
  "clock_monotone E \<longleftrightarrow> (\<forall>w. fst (env_now E w) \<le> fst (env_now E (snd (env_now E w))))"

text \<open>A run of failure reports, with the times at which the vault recorded them.\<close>

fun report_all :: "'w env \<Rightarrow> 'w vault \<Rightarrow> string list \<Rightarrow> 'w vstate \<Rightarrow> duration list \<times> 'w vstate" where
  "report_all E v [] s = ([], s)"
| "report_all E v (n # ns) s =
     (let t = fst (env_now E (world s));
          (ts, s') = report_all E v ns (report_failure E v n None s)
      in (t # ts, s'))"

definition tracked :: "'w vstate \<Rightarrow> string \<Rightarrow> duration list" where
  "tracked s n = (case failure_tracker s n of Some es \<Rightarrow> es | None \<Rightarrow> [])"

definition times_of :: "string \<Rightarrow> (duration \<times> string) list \<Rightarrow> duration list" where
  "times_of n evs = map fst (filter (\<lambda>e. snd e = n) evs)"

text \<open>
  What links a state to the history: a name's tracker has lost only timestamps that no
  window reaches any more.
\<close>

definition keep_of :: "vault_config \<Rightarrow> duration" where
  "keep_of cfg = (if 0 < key_lockout_threshold cfg then max (failure_window cfg) (key_lockout_window cfg)
                  else failure_window cfg)"

definition tracks :: "'w vault \<Rightarrow> (duration \<times> string) list \<Rightarrow> duration \<Rightarrow> 'w vstate \<Rightarrow> bool" where
  "tracks v evs t0 s \<longleftrightarrow> (locked_out s \<longleftrightarrow> breached (v_config v) evs) \<and>
     (\<forall>n. \<exists>old. times_of n evs = old @ tracked s n \<and> (\<forall>t\<in>set old. keep_of (v_config v) < t0 - t))"

lemma times_of_snoc: "times_of n (evs @ [(t, m)]) = times_of n evs @ (if m = n then [t] else [])"
  by (simp add: times_of_def)

lemma failures_at_last: "failures_at w (evs @ [(t, n)]) (length evs) =
    length (filter (\<lambda>x. t - x \<le> w) (times_of n evs)) + 1"
  by (simp add: failures_at_def times_of_def filter_map comp_def conj_commute)

lemma failures_at_before: "k < length evs \<Longrightarrow> failures_at w (evs @ [e]) k = failures_at w evs k"
  by (simp add: failures_at_def nth_append)

lemma breached_snoc:
  "breached cfg (evs @ [(t, n)]) \<longleftrightarrow> breached cfg evs \<or> (0 < max_failures_before_lockout cfg \<and>
     max_failures_before_lockout cfg \<le> length (filter (\<lambda>x. t - x \<le> failure_window cfg) (times_of n evs)) + 1)"
  unfolding breached_def
  by (auto simp: less_Suc_eq failures_at_last failures_at_before lessThan_Suc)

lemma key_threshold_block_simps [simp]:
  "failure_tracker (key_threshold_block E v n k c s) = failure_tracker s"
  "locked_out (key_threshold_block E v n k c s) = locked_out s"
  by (simp_all add: key_threshold_block_def Let_def split_beta clock_now_def split: option.splits)

lemma report_failure_tracker:
  fixes s :: "'w vstate" and E :: "'w env"
  defines "now \<equiv> fst (env_now E (world s))"
  shows "failure_tracker (report_failure E v n note s) =
    (failure_tracker s)(n \<mapsto> dropWhile (\<lambda>x. keep_of (v_config v) < now - x) (tracked s n) @ [now])"
  by (simp add: report_failure_def handle_failure_def record_failure_def Let_def split_beta
      keep_of_def tracked_def now_def clock_now_def)

lemma report_failure_locked:
  fixes s :: "'w vstate" and E :: "'w env"
  defines "now \<equiv> fst (env_now E (world s))"
  shows "locked_out (report_failure E v n note s) \<longleftrightarrow> locked_out s \<or>
    (0 < max_failures_before_lockout (v_config v) \<and> max_failures_before_lockout (v_config v) \<le>
      count_within now (failure_window (v_config v))
        (dropWhile (\<lambda>x. keep_of (v_config v) < now - x) (tracked s n) @ [now]))"
  by (simp add: report_failure_def handle_failure_def record_failure_def vault_threshold_def Let_def
      split_beta keep_of_def tracked_def now_def clock_now_def)

lemma filter_recent_dropWhile:
  "w \<le> keep \<Longrightarrow> filter (\<lambda>x. now - x \<le> w) (dropWhile (\<lambda>x. keep < now - x) xs) = filter (\<lambda>x. now - x \<le> w) xs"
  for now w keep :: nat
  by (induction xs) auto

lemma report_failure_tracks:
  assumes "tracks v evs t0 s" "t0 \<le> fst (env_now E (world s))"
    and "max_failures_before_lockout (v_config v) \<le> u32_max"
  shows "tracks v (evs @ [(fst (env_now E (world s)), n)]) (fst (env_now E (world s))) (report_failure E v n note s)"
    (is "tracks v (evs @ [(?now, n)]) ?now ?s")
proof -
  let ?cfg = "v_config v" and ?keep = "keep_of (v_config v)"
  let ?evict = "dropWhile (\<lambda>x. ?keep < ?now - x)"
  have fw: "failure_window ?cfg \<le> ?keep"
    by (simp add: keep_of_def)
  have old: "\<exists>old. times_of m evs = old @ tracked s m \<and> (\<forall>t\<in>set old. ?keep < ?now - t)" for m
    using assms(1,2) unfolding tracks_def by (meson diff_le_mono less_le_trans)
  obtain gone where gone: "times_of n evs = gone @ tracked s n" "\<forall>t\<in>set gone. ?keep < ?now - t"
    using old by blast
  have "filter (\<lambda>x. ?now - x \<le> failure_window ?cfg) gone = []"
    using gone(2) fw by (auto simp: filter_empty_conv)
  then have count: "length (filter (\<lambda>x. ?now - x \<le> failure_window ?cfg) (times_of n evs)) =
      length (filter (\<lambda>x. ?now - x \<le> failure_window ?cfg) (?evict (tracked s n)))"
    using gone(1) fw by (simp add: filter_recent_dropWhile)
  have "locked_out ?s \<longleftrightarrow> breached ?cfg (evs @ [(?now, n)])"
    using assms(1,3) count unfolding report_failure_locked breached_snoc tracks_def
    by (auto simp: count_within_def Let_def)
  moreover have "\<exists>old. times_of m (evs @ [(?now, n)]) = old @ tracked ?s m \<and> (\<forall>t\<in>set old. ?keep < ?now - t)" for m
  proof (cases "m = n")
    case True
    let ?old = "gone @ takeWhile (\<lambda>x. ?keep < ?now - x) (tracked s n)"
    have "times_of n (evs @ [(?now, n)]) = ?old @ tracked ?s n"
      using gone(1) by (simp add: times_of_snoc tracked_def [of ?s] report_failure_tracker)
    moreover have "\<forall>t\<in>set ?old. ?keep < ?now - t"
      using gone(2) by (auto dest: set_takeWhileD)
    ultimately show ?thesis
      unfolding True by (intro exI [of _ ?old] conjI)
  next
    case False
    then have "tracked ?s m = tracked s m"
      by (simp add: tracked_def report_failure_tracker)
    with False old show ?thesis
      by (simp add: times_of_snoc)
  qed
  ultimately show ?thesis
    unfolding tracks_def by blast
qed

lemma report_failure_world:
  "world (report_failure E v n note s) \<in>
     {snd (env_now E (world s)), snd (env_now E (snd (env_now E (world s))))}"
  by (simp add: report_failure_def handle_failure_def key_threshold_block_def record_failure_def
      Let_def split_beta clock_now_def split: option.split)

lemma report_failure_time:
  assumes "clock_monotone E"
  shows "fst (env_now E (world s)) \<le> fst (env_now E (world (report_failure E v n note s)))"
  using report_failure_world [of E v n "note" s] assms unfolding clock_monotone_def
  by (auto intro: order_trans)

lemma report_all_tracks:
  assumes "clock_monotone E" "max_failures_before_lockout (v_config v) \<le> u32_max"
  shows "tracks v evs t0 s \<Longrightarrow> t0 \<le> fst (env_now E (world s)) \<Longrightarrow> report_all E v ns s = (ts, s') \<Longrightarrow>
    \<exists>t1. tracks v (evs @ zip ts ns) t1 s'"
proof (induction ns arbitrary: s evs t0 ts)
  case Nil
  then show ?case by auto
next
  case (Cons n ns)
  let ?now = "fst (env_now E (world s))" and ?s = "report_failure E v n None s"
  obtain ts1 where ts: "report_all E v ns ?s = (ts1, s')" "ts = ?now # ts1"
    using Cons.prems(3) by (auto simp: Let_def split: prod.splits)
  have "tracks v (evs @ [(?now, n)]) ?now ?s"
    by (rule report_failure_tracks [OF Cons.prems(1,2) assms(2)])
  from Cons.IH [OF this report_failure_time [OF assms(1)] ts(1)] show ?case
    using ts(2) by simp
qed

section \<open>The per-key detector\<close>

text \<open>
  The specification again keeps the whole history. Beside the time at which a failure was
  recorded it has a mark, the next reading of the clock: if the failure locks the name for a
  while, the lock ends that long after the mark. A name is locked at a time \<open>now\<close> when one of its
  failures reached the threshold and the lock it set does not end before \<open>now\<close>.
\<close>

definition key_hit :: "vault_config \<Rightarrow> (duration \<times> string) list \<Rightarrow> string \<Rightarrow> nat \<Rightarrow> bool" where
  "key_hit cfg evs n k \<longleftrightarrow> snd (evs ! k) = n \<and> 0 < key_lockout_threshold cfg \<and>
     key_lockout_threshold cfg \<le> failures_at (key_lockout_window cfg) evs k"

definition key_locked_at ::
  "vault_config \<Rightarrow> (duration \<times> string) list \<Rightarrow> duration list \<Rightarrow> string \<Rightarrow> duration \<Rightarrow> bool" where
  "key_locked_at cfg evs marks n now \<longleftrightarrow> (\<exists>k\<in>{..<length evs}. key_hit cfg evs n k \<and>
     (case key_lockout_duration cfg of None \<Rightarrow> True | Some d \<Rightarrow> now < dur_saturating_add (marks ! k) d))"

fun report_marks :: "'w env \<Rightarrow> 'w vault \<Rightarrow> string list \<Rightarrow> 'w vstate \<Rightarrow> duration list" where
  "report_marks E v [] s = []"
| "report_marks E v (n # ns) s =
     fst (env_now E (snd (env_now E (world s)))) # report_marks E v ns (report_failure E v n None s)"

text \<open>The marks of the failures that set a lock; the table holds the lock set by the last of them.\<close>

definition hit_marks :: "vault_config \<Rightarrow> (duration \<times> string) list \<Rightarrow> duration list \<Rightarrow> string \<Rightarrow> duration list" where
  "hit_marks cfg evs marks n = map ((!) marks) (filter (key_hit cfg evs n) [0..<length evs])"

definition lock_of :: "vault_config \<Rightarrow> duration list \<Rightarrow> duration option option" where
  "lock_of cfg hits = (if hits = [] then None
     else Some (map_option (dur_saturating_add (last hits)) (key_lockout_duration cfg)))"

definition key_tracks ::
  "'w vault \<Rightarrow> (duration \<times> string) list \<Rightarrow> duration list \<Rightarrow> duration \<Rightarrow> 'w vstate \<Rightarrow> bool" where
  "key_tracks v evs marks t s \<longleftrightarrow> length marks = length evs \<and> sorted marks \<and> (\<forall>m\<in>set marks. m \<le> t) \<and>
     (\<forall>n. key_locks s n = lock_of (v_config v) (hit_marks (v_config v) evs marks n))"

lemma key_hit_snoc:
  "k < length evs \<Longrightarrow> key_hit cfg (evs @ [e]) n k = key_hit cfg evs n k"
  "key_hit cfg (evs @ [(t, m)]) n (length evs) \<longleftrightarrow> m = n \<and> 0 < key_lockout_threshold cfg \<and>
     key_lockout_threshold cfg \<le> length (filter (\<lambda>x. t - x \<le> key_lockout_window cfg) (times_of m evs)) + 1"
  by (auto simp: key_hit_def nth_append failures_at_before failures_at_last)

lemma hit_marks_snoc:
  assumes "length marks = length evs"
  shows "hit_marks cfg (evs @ [(t, m)]) (marks @ [u]) n = hit_marks cfg evs marks n @
    (if key_hit cfg (evs @ [(t, m)]) n (length evs) then [u] else [])"
proof -
  have "filter (key_hit cfg (evs @ [(t, m)]) n) [0..<length evs] = filter (key_hit cfg evs n) [0..<length evs]"
    by (rule filter_cong) (simp_all add: key_hit_snoc(1))
  moreover have "map ((!) (marks @ [u])) ks = map ((!) marks) ks" if "set ks \<subseteq> {..<length evs}" for ks
    using that assms by (auto simp: nth_append)
  ultimately show ?thesis
    using assms by (auto simp: hit_marks_def nth_append)
qed

lemma sorted_hit_marks:
  assumes "length marks = length evs" "sorted marks"
  shows "sorted (hit_marks cfg evs marks n)"
proof -
  have "sorted (filter (key_hit cfg evs n) [0..<length evs])"
    by (rule sorted_wrt_filter) simp
  then show ?thesis
    unfolding hit_marks_def sorted_map
    by (rule sorted_wrt_mono_rel [rotated]) (use assms in \<open>auto intro: sorted_nth_mono\<close>)
qed

lemma report_failure_key_locks:
  fixes s :: "'w vstate" and E :: "'w env"
  defines "now \<equiv> fst (env_now E (world s))" and "mark \<equiv> fst (env_now E (snd (env_now E (world s))))"
  shows "key_locks (report_failure E v n note s) =
    (if 0 < key_lockout_threshold (v_config v) \<and> key_lockout_threshold (v_config v) \<le>
          count_within now (key_lockout_window (v_config v))
            (dropWhile (\<lambda>x. keep_of (v_config v) < now - x) (tracked s n) @ [now])
     then (key_locks s)(n \<mapsto> map_option (dur_saturating_add mark) (key_lockout_duration (v_config v)))
     else key_locks s)"
  by (simp add: report_failure_def handle_failure_def record_failure_def key_threshold_block_def Let_def
      split_beta keep_of_def tracked_def now_def mark_def clock_now_def split: option.split)

lemma report_failure_mark:
  assumes "clock_monotone E"
  shows "fst (env_now E (snd (env_now E (world s)))) \<le> fst (env_now E (world (report_failure E v n note s)))"
  using report_failure_world [of E v n "note" s] assms unfolding clock_monotone_def by auto

lemma report_failure_key_tracks:
  assumes "clock_monotone E" "tracks v evs t0 s" "t0 \<le> fst (env_now E (world s))"
    and "key_tracks v evs marks (fst (env_now E (world s))) s" "key_lockout_threshold (v_config v) \<le> u32_max"
  shows "key_tracks v (evs @ [(fst (env_now E (world s)), n)])
    (marks @ [fst (env_now E (snd (env_now E (world s))))])
    (fst (env_now E (world (report_failure E v n note s)))) (report_failure E v n note s)"
    (is "key_tracks v (evs @ [(?now, n)]) (marks @ [?mark]) ?next ?s")
proof -
  let ?cfg = "v_config v" and ?keep = "keep_of (v_config v)"
  let ?kw = "key_lockout_window ?cfg"
  let ?evict = "dropWhile (\<lambda>x. ?keep < ?now - x) (tracked s n)"
  let ?hit = "0 < key_lockout_threshold ?cfg \<and> key_lockout_threshold ?cfg \<le> count_within ?now ?kw (?evict @ [?now])"
  obtain gone where gone: "times_of n evs = gone @ tracked s n" "\<forall>t\<in>set gone. ?keep < t0 - t"
    using assms(2) unfolding tracks_def by blast
  have hit: "?hit \<longleftrightarrow> key_hit ?cfg (evs @ [(?now, n)]) n (length evs)"
  proof (cases "0 < key_lockout_threshold ?cfg")
    case True
    then have kw: "?kw \<le> ?keep"
      by (simp add: keep_of_def)
    have "filter (\<lambda>x. ?now - x \<le> ?kw) gone = []"
      using gone(2) kw assms(3) by (force simp: filter_empty_conv)
    then show ?thesis
      using gone(1) kw assms(5) by (auto simp: key_hit_snoc filter_recent_dropWhile count_within_def Let_def)
  qed (simp add: key_hit_def)
  have len: "length marks = length evs"
    using assms(4) by (simp add: key_tracks_def)
  have other: "\<not> key_hit ?cfg (evs @ [(?now, n)]) m (length evs)" if "m \<noteq> n" for m
    using that by (simp add: key_hit_snoc)
  have "key_locks ?s m = lock_of ?cfg (hit_marks ?cfg (evs @ [(?now, n)]) (marks @ [?mark]) m)" for m
    using assms(4) other [of m]
    unfolding report_failure_key_locks hit hit_marks_snoc [OF len] key_tracks_def
    by (cases "m = n") (auto simp: lock_of_def)
  moreover have "m \<le> ?next" if "m \<in> set (marks @ [?mark])" for m
  proof -
    have "?now \<le> ?mark" "?mark \<le> ?next"
      using report_failure_mark [OF assms(1)] assms(1) by (simp_all add: clock_monotone_def)
    then show ?thesis
      using that assms(4) by (auto simp: key_tracks_def)
  qed
  moreover have "sorted (marks @ [?mark])"
    using assms(1,4) by (auto simp: key_tracks_def sorted_append clock_monotone_def intro: order_trans)
  ultimately show ?thesis
    using len by (simp add: key_tracks_def)
qed

lemma report_all_key_tracks:
  assumes "clock_monotone E" "max_failures_before_lockout (v_config v) \<le> u32_max"
    and "key_lockout_threshold (v_config v) \<le> u32_max"
  shows "tracks v evs t0 s \<Longrightarrow> t0 \<le> fst (env_now E (world s)) \<Longrightarrow>
    key_tracks v evs marks (fst (env_now E (world s))) s \<Longrightarrow> report_all E v ns s = (ts, s') \<Longrightarrow>
    key_tracks v (evs @ zip ts ns) (marks @ report_marks E v ns s) (fst (env_now E (world s'))) s'"
proof (induction ns arbitrary: s evs marks t0 ts)
  case Nil
  then show ?case by auto
next
  case (Cons n ns)
  let ?now = "fst (env_now E (world s))" and ?s = "report_failure E v n None s"
  obtain ts1 where ts: "report_all E v ns ?s = (ts1, s')" "ts = ?now # ts1"
    using Cons.prems(4) by (auto simp: Let_def split: prod.splits)
  have t: "tracks v (evs @ [(?now, n)]) ?now ?s"
    by (rule report_failure_tracks [OF Cons.prems(1,2) assms(2)])
  note k = report_failure_key_tracks [OF assms(1) Cons.prems(1-3) assms(3)]
  from Cons.IH [OF t report_failure_time [OF assms(1)] k ts(1)] show ?case
    using ts(2) by simp
qed

lemma lock_of_locked:
  assumes "key_tracks v evs marks t s"
  shows "(\<exists>u. key_locks s n = Some u \<and> (\<forall>e. u = Some e \<longrightarrow> now < e)) \<longleftrightarrow> key_locked_at (v_config v) evs marks n now"
proof -
  let ?cfg = "v_config v"
  let ?hits = "hit_marks ?cfg evs marks n"
  have len: "length marks = length evs" and srt: "sorted marks" and k: "key_locks s n = lock_of ?cfg ?hits"
    using assms by (auto simp: key_tracks_def)
  have set: "set ?hits = {marks ! k |k. k < length evs \<and> key_hit ?cfg evs n k}"
    by (auto simp: hit_marks_def)
  have "(\<exists>m\<in>set ?hits. P m) \<longleftrightarrow> ?hits \<noteq> [] \<and> P (last ?hits)"
    if mono: "\<And>a b. a \<le> b \<Longrightarrow> P a \<Longrightarrow> P b" for P
  proof
    assume "\<exists>m\<in>set ?hits. P m"
    then obtain m where m: "m \<in> set ?hits" "P m" by blast
    then have ne: "?hits \<noteq> []" by auto
    then have "sorted (butlast ?hits @ [last ?hits])"
      using sorted_hit_marks [OF len srt, of ?cfg n] by simp
    moreover have "m \<in> set (butlast ?hits @ [last ?hits])"
      using m(1) ne by simp
    ultimately have "m \<le> last ?hits"
      by (auto simp: sorted_append)
    with ne m mono show "?hits \<noteq> [] \<and> P (last ?hits)" by blast
  qed (use last_in_set in blast)
  note ex = this
  show ?thesis
  proof (cases "key_lockout_duration ?cfg")
    case None
    have "?hits \<noteq> [] \<longleftrightarrow> (\<exists>k < length evs. key_hit ?cfg evs n k)"
      by (auto simp: hit_marks_def filter_empty_conv)
    then show ?thesis
      using None k by (auto simp: lock_of_def key_locked_at_def)
  next
    case (Some d)
    have "(\<exists>m\<in>set ?hits. now < dur_saturating_add m d) \<longleftrightarrow> ?hits \<noteq> [] \<and> now < dur_saturating_add (last ?hits) d"
      by (rule ex) (auto simp: dur_saturating_add_def)
    then show ?thesis
      using Some k unfolding set by (auto simp: lock_of_def key_locked_at_def)
  qed
qed

text \<open>A query that finds the lock of a name expired removes it and the name's failure counts.\<close>

lemma key_locked_slow_expired:
  assumes "key_locked_slow E n s = (False, s')" "key_locks s n \<noteq> None"
  shows "key_locks s' n = None \<and> failure_tracker s' n = None"
  using assms by (auto simp: key_locked_slow_def split: option.splits prod.splits if_splits)

lemma card_insert_Suc: "card (insert x X) \<le> Suc (card X)"
  by (cases "finite X") (simp_all add: card_insert_if)

lemma report_all_locks_inv: "locks_inv s \<Longrightarrow> locks_inv (snd (report_all E v ns s))"
proof (induction ns arbitrary: s)
  case (Cons n ns)
  have "locks_inv (report_failure E v n None s)"
    using Cons.prems by (simp add: report_failure_def handle_failure_locks_inv)
  from Cons.IH [OF this] show ?case
    by (simp add: Let_def split_beta)
qed simp

lemma report_all_card:
  "card (dom (key_locks (snd (report_all E v ns s)))) \<le> card (dom (key_locks s)) + length ns"
proof (induction ns arbitrary: s)
  case (Cons n ns)
  have "card (dom (key_locks (report_failure E v n None s))) \<le> Suc (card (dom (key_locks s)))"
    by (auto simp: report_failure_def handle_failure_def key_threshold_block_def Let_def split_beta
        card_insert_Suc clock_now_def split: option.split)
  then show ?case
    using Cons.IH [of "report_failure E v n None s"] by (simp add: Let_def split_beta)
qed simp

end
