(* ===== verification/Vault.thy ===== *)
theory Vault
  imports Lockout
begin

text \<open>
  The operations of \<^verbatim>\<open>KeyVault\<close> (\<^verbatim>\<open>src/src/vault/mod.rs\<close>) that handle key material: the
  one-shot \<^verbatim>\<open>fragment\<close> and \<^verbatim>\<open>defragment\<close>, the registry (\<^verbatim>\<open>register\<close>, \<^verbatim>\<open>unregister\<close>,
  \<^verbatim>\<open>rotate\<close> and the lookups), and \<^verbatim>\<open>with_key\<close> with its scratch buffer. A callback passed to
  \<^verbatim>\<open>with_key\<close> is a computation on the vault's state (it may call the vault again) that
  returns a value or unwinds (\<open>None\<close>).

  The old registry map is dropped after every write, so the storage of a removed or
  replaced entry is freed there (\<open>release_entry\<close>).
\<close>

section \<open>The pipeline\<close>

text \<open>The closure that \<^verbatim>\<open>Normalizer::Keyed\<close> runs over its key.\<close>

definition keyed_closure :: "blake3 \<Rightarrow> bytes \<Rightarrow> bytes \<Rightarrow> bytes result" where
  "keyed_closure b3 key k =
     (if length k = 32 then Inr (blake3_keyed_normalize b3 k key)
      else Inl (Err (Internal ''normalization key has the wrong length'')))"

definition normalize :: "'w env \<Rightarrow> 'w vault \<Rightarrow> bytes \<Rightarrow> ('w, bytes) vop" where
  "normalize E v key =
     (case v_normalizer v of
        NormOff \<Rightarrow> rret key
      | NormPlain \<Rightarrow> rret (blake3_normalize (env_blake3 E) key)
      | NormKeyed secret \<Rightarrow>
          rbind (secret_read E secret (keyed_closure (env_blake3 E) key)) (\<lambda>r. rlift r)
      | NormUnavailable reason \<Rightarrow> rlift (Inl (Err (Internal reason))))"

definition fragment_pipeline :: "'w env \<Rightarrow> 'w vault \<Rightarrow> bytes \<Rightarrow> ('w, fragments) vop" where
  "fragment_pipeline E v key =
     rbind (normalize E v key) (\<lambda>working.
       let encoded = (case v_codex v of Some c \<Rightarrow> codex_apply c working | None \<Rightarrow> working)
       in on_world (fragmenter_fragment E (v_fragmenter v) encoded))"

definition protect_fragments :: "'w env \<Rightarrow> fragments \<Rightarrow> ('w, storage) vop" where
  "protect_fragments E fr s =
     (case into_protected (env_os E) (region_next s) (regions_tab s) fr (world s) of
        (Inl e, w) \<Rightarrow> (Inl e, s\<lparr>world := w\<rparr>)
      | (Inr (st, rs), w) \<Rightarrow>
          (Inr st, s\<lparr>world := w, regions_tab := rs, region_next := Suc (region_next s)\<rparr>))"

definition fragment_for_registry :: "'w env \<Rightarrow> 'w vault \<Rightarrow> bytes \<Rightarrow> ('w, storage) vop" where
  "fragment_for_registry E v key =
     rbind (fragment_pipeline E v key) (\<lambda>fr.
       if page_protection (v_config v) then protect_fragments E fr else rret (Heap fr))"

section \<open>One-shot operations\<close>

definition vault_fragment :: "'w env \<Rightarrow> 'w vault \<Rightarrow> bytes \<Rightarrow> ('w, fragments) vop" where
  "vault_fragment E v key s =
     (if is_locked_out s then (Inl (Err LockedOut), s)
      else case fragment_pipeline E v key s of
             (Inl e, s1) \<Rightarrow> (Inl e, s1)
           | (Inr fr, s1) \<Rightarrow> (Inr fr, emit_audit E v [] OneShotFragment [] s1))"

definition vault_defragment :: "'w env \<Rightarrow> 'w vault \<Rightarrow> fragments \<Rightarrow> ('w, bytes) vop" where
  "vault_defragment E v fr s =
     (if is_locked_out s then (Inl (Err LockedOut), s)
      else case fragmenter_defragment (v_fragmenter v) fr of
             Inl e \<Rightarrow> (Inl e, s)
           | Inr encoded \<Rightarrow>
               let decoded = (case v_codex v of Some c \<Rightarrow> codex_apply c encoded | None \<Rightarrow> encoded)
               in (Inr decoded, emit_audit E v [] OneShotDefragment [] s))"

section \<open>The registry\<close>

definition free_storage :: "'w env \<Rightarrow> storage \<Rightarrow> 'w vstate \<Rightarrow> 'w vstate" where
  "free_storage E st s =
     (case storage_drop (env_os E) (regions_tab s) st (world s) of
        (rs, w) \<Rightarrow> s\<lparr>regions_tab := rs, world := w\<rparr>)"

definition release_entry ::
  "'w env \<Rightarrow> (key_id \<times> key_entry) list \<Rightarrow> key_id \<Rightarrow> 'w vstate \<Rightarrow> 'w vstate" where
  "release_entry E previous i s =
     (case kv_get i previous of Some e \<Rightarrow> free_storage E (ke_fragments e) s | None \<Rightarrow> s)"

definition duplicate :: "string \<Rightarrow> fault" where
  "duplicate name = Err (InvalidConfig (''key name '' @ debug_str name @ '' is already registered''))"

definition allocate_handle :: "'w vstate \<Rightarrow> key_handle \<times> 'w vstate" where
  "allocate_handle s =
     (case handle_allocate (id_counter s) of (h, c) \<Rightarrow> (h, s\<lparr>id_counter := c\<rparr>))"

text \<open>The part of \<^verbatim>\<open>register\<close> under the writer lock, and what follows it.\<close>

definition register_install ::
  "'w env \<Rightarrow> 'w vault \<Rightarrow> string \<Rightarrow> storage \<Rightarrow> key_handle \<Rightarrow> key_metadata \<Rightarrow> ('w, key_handle) vop" where
  "register_install E v name st h md s =
     (let current = keys s in
      if kv_has_name name current then (Inl (duplicate name), free_storage E st s)
      else
        let e = \<lparr>ke_name = name, ke_fragments = st, ke_metadata = md\<rparr>;
            s1 = s\<lparr>keys := kv_insert (handle_id h) e current\<rparr>;
            s2 = release_entry E current (handle_id h) s1
        in (Inr h, emit_audit E v name Register [] s2))"

definition register :: "'w env \<Rightarrow> 'w vault \<Rightarrow> string \<Rightarrow> bytes \<Rightarrow> ('w, key_handle) vop" where
  "register E v name key s =
     (if is_locked_out s then (Inl (Err LockedOut), s)
      else if kv_has_name name (keys s) then (Inl (duplicate name), s)
      else
        rbind (fragment_for_registry E v key) (\<lambda>st s1.
          let (h, s2) = allocate_handle s1;
              (t, s3) = clock_unix_time E s2
          in register_install E v name st h (key_metadata_new t (length key) None) s3) s)"

definition unregister :: "'w env \<Rightarrow> 'w vault \<Rightarrow> key_handle \<Rightarrow> ('w, unit) vop" where
  "unregister E v h s =
     (let current = keys s in
      case kv_get (handle_id h) current of
        None \<Rightarrow> (Inl (Err KeyNotFound), s)
      | Some e \<Rightarrow>
          let s1 = s\<lparr>keys := kv_remove (handle_id h) current\<rparr>;
              s2 = release_entry E current (handle_id h) s1
          in (Inr (), emit_audit E v (ke_name e) Unregister [] s2))"

definition rotate_install ::
  "'w env \<Rightarrow> 'w vault \<Rightarrow> key_handle \<Rightarrow> storage \<Rightarrow> key_metadata \<Rightarrow> ('w, unit) vop" where
  "rotate_install E v h st md s =
     (let current = keys s in
      case kv_get (handle_id h) current of
        None \<Rightarrow> (Inl (Err KeyNotFound), free_storage E st s)
      | Some e \<Rightarrow>
          let s1 = s\<lparr>keys := kv_insert (handle_id h) (e\<lparr>ke_fragments := st, ke_metadata := md\<rparr>) current\<rparr>;
              s2 = release_entry E current (handle_id h) s1
          in (Inr (), emit_audit E v (ke_name e) Rotate [] s2))"

definition rotate :: "'w env \<Rightarrow> 'w vault \<Rightarrow> key_handle \<Rightarrow> bytes \<Rightarrow> ('w, unit) vop" where
  "rotate E v h new_key s =
     (if is_locked_out s then (Inl (Err LockedOut), s)
      else case kv_get (handle_id h) (keys s) of
        None \<Rightarrow> (Inl (Err KeyNotFound), s)
      | Some e \<Rightarrow>
          (case key_locked E (ke_name e) s of
             (True, s1) \<Rightarrow> (Inl (Err LockedOut), s1)
           | (False, s1) \<Rightarrow>
               rbind (fragment_for_registry E v new_key) (\<lambda>st s2.
                 let (t, s3) = clock_unix_time E s2
                 in rotate_install E v h st (key_metadata_new t (length new_key) None) s3) s1))"

definition contains :: "key_handle \<Rightarrow> 'w vstate \<Rightarrow> bool" where
  "contains h s \<longleftrightarrow> kv_get (handle_id h) (keys s) \<noteq> None"

definition metadata :: "key_handle \<Rightarrow> 'w vstate \<Rightarrow> key_metadata option" where
  "metadata h s = map_option ke_metadata (kv_get (handle_id h) (keys s))"

definition handle_for_name :: "string \<Rightarrow> 'w vstate \<Rightarrow> key_handle option" where
  "handle_for_name name s =
     map_option (\<lambda>(i, e). handle_from_id i) (List.find (\<lambda>(i, e). ke_name e = name) (keys s))"

definition key_count :: "'w vstate \<Rightarrow> nat" where
  "key_count s = length (keys s)"

section \<open>Reading a key\<close>

definition ensure_len :: "nat \<Rightarrow> bytes \<Rightarrow> bytes" where
  "ensure_len len buf = (if len \<le> length buf then buf else replicate len 0)"

definition volatile_zero_slice :: "bytes \<Rightarrow> bytes" where
  "volatile_zero_slice s = replicate (length s) 0"

text \<open>
  \<^verbatim>\<open>reassemble\<close>: the region is open only around the call of \<^verbatim>\<open>defragment_into\<close>, also when
  that call fails; the codex is applied to what it wrote.
\<close>

definition reassemble ::
  "'w env \<Rightarrow> 'w vault \<Rightarrow> storage \<Rightarrow> bytes \<Rightarrow> 'w vstate \<Rightarrow> unit result \<times> bytes \<times> 'w vstate" where
  "reassemble E v st out s =
     (let protect = page_protection (v_config v) in
      case (if protect then storage_open (env_os E) (regions_tab s) st (world s)
            else (Inr (regions_tab s), world s)) of
        (Inl e, w) \<Rightarrow> (Inl e, out, s\<lparr>world := w\<rparr>)
      | (Inr rs, w) \<Rightarrow>
          (case load rs st of
             Inl e \<Rightarrow> (Inl e, out, s\<lparr>world := w, regions_tab := rs\<rparr>)
           | Inr fr \<Rightarrow>
               let (r, out1) = fragmenter_defragment_into (v_fragmenter v) fr out;
                   (rs', w') = (if protect then storage_close (env_os E) rs st w else (rs, w));
                   s1 = s\<lparr>world := w', regions_tab := rs'\<rparr>
               in (case r of
                     Inl e \<Rightarrow> (Inl e, out1, s1)
                   | Inr u \<Rightarrow>
                       (Inr (), (case v_codex v of Some c \<Rightarrow> codex_decode_in_place c out1 | None \<Rightarrow> out1), s1))))"

text \<open>
  \<^verbatim>\<open>read_key\<close> with \<^verbatim>\<open>std\<close>: a second borrow of the thread's scratch panics, and so does a buffer that
  would have to grow beyond \<^verbatim>\<open>isize::MAX\<close> (the unwinding ends the borrow). The guard zeroes
  the used part of the buffer and the borrow ends, however the body is left.
\<close>

definition end_read :: "nat \<Rightarrow> bytes \<Rightarrow> 'w vstate \<Rightarrow> 'w vstate" where
  "end_read tot buf s =
     s\<lparr>scratch := volatile_zero_slice (take tot buf) @ drop tot buf, scratch_borrowed := False\<rparr>"

definition read_key ::
  "'w env \<Rightarrow> 'w vault \<Rightarrow> storage \<Rightarrow> (bytes \<Rightarrow> 'w vstate \<Rightarrow> 'a option \<times> 'w vstate) \<Rightarrow> ('w, 'a) vop" where
  "read_key E v st f s =
     (let tot = storage_total_len st in
      if scratch_borrowed s then (Inl Panic, s)
      else if length (scratch s) < tot \<and> isize_max < tot then (Inl Panic, s)
      else
        let buf = ensure_len tot (scratch s);
            s1 = s\<lparr>scratch := buf, scratch_borrowed := True\<rparr>
        in (case reassemble E v st (take tot buf) s1 of
              (Inl e, out, s2) \<Rightarrow> (Inl e, end_read tot (out @ drop tot buf) s2)
            | (Inr u, out, s2) \<Rightarrow>
                let buf1 = out @ drop tot buf;
                    s3 = s2\<lparr>scratch := buf1\<rparr>
                in (case f out s3 of
                      (None, s4) \<Rightarrow> (Inl Panic, end_read tot buf1 s4)
                    | (Some a, s4) \<Rightarrow> (Inr a, end_read tot buf1 s4))))"

definition with_key ::
  "'w env \<Rightarrow> 'w vault \<Rightarrow> key_handle \<Rightarrow> (bytes \<Rightarrow> 'w vstate \<Rightarrow> 'a option \<times> 'w vstate) \<Rightarrow> ('w, 'a) vop" where
  "with_key E v h f s =
     (if is_locked_out s then (Inl (Err LockedOut), s)
      else case kv_get (handle_id h) (keys s) of
        None \<Rightarrow> (Inl (Err KeyNotFound), s)
      | Some e \<Rightarrow>
          (case key_locked E (ke_name e) s of
             (True, s1) \<Rightarrow> (Inl (Err LockedOut), s1)
           | (False, s1) \<Rightarrow>
               let name = (if v_audit_no_op v then None else Some (ke_name e)) in
               rbind (read_key E v (ke_fragments e) f) (\<lambda>a s2.
                 (Inr a, case name of Some n \<Rightarrow> emit_audit E v n Read [] s2 | None \<Rightarrow> s2)) s1))"

section \<open>The build without thread-local storage\<close>

text \<open>\<^verbatim>\<open>read_key\<close> without \<^verbatim>\<open>std\<close>: a fresh buffer per call, wiped when it is dropped.\<close>

definition read_key_no_std ::
  "'w env \<Rightarrow> 'w vault \<Rightarrow> storage \<Rightarrow> (bytes \<Rightarrow> 'w vstate \<Rightarrow> 'a option \<times> 'w vstate) \<Rightarrow> ('w, 'a) vop" where
  "read_key_no_std E v st f s =
     rbind (rlift (zero_vec (storage_total_len st))) (\<lambda>buf s.
       case reassemble E v st buf s of
         (Inl e, out, s1) \<Rightarrow> (Inl e, s1)
       | (Inr u, out, s1) \<Rightarrow>
           (case f out s1 of
              (None, s2) \<Rightarrow> (Inl Panic, s2)
            | (Some a, s2) \<Rightarrow> (Inr a, s2))) s"

end
