(* ===== verification/Registry.thy ===== *)
theory Registry
  imports Vault
begin

text \<open>
  The registry against its specification. The specification of a vault is a map from ids to
  a name, the plain (normalized) key bytes and the metadata; \<open>store_inv\<close> links the concrete
  registry and region table to it: every entry's storage gives back the encoded bytes when
  it is opened and defragmented, ids and names are unique, and no two storages share a
  region. Every operation preserves the link (a functional refinement), and \<open>with_key\<close>
  hands its callback exactly the bytes the specification holds.
\<close>

section \<open>Regions up to protection\<close>

text \<open>
  Two region tables that hold the same bytes with the same number of readers. Opening and
  closing a region leads from one to the other.
\<close>

definition same_bytes :: "regions \<Rightarrow> regions \<Rightarrow> bool" where
  "same_bytes rs rs' \<longleftrightarrow> (\<forall>i. map_option (\<lambda>r. (mem r, readers r)) (rs i) =
                              map_option (\<lambda>r. (mem r, readers r)) (rs' i))"

lemma same_bytes_refl [simp]: "same_bytes rs rs"
  by (simp add: same_bytes_def)

lemma same_bytes_trans: "same_bytes a b \<Longrightarrow> same_bytes b c \<Longrightarrow> same_bytes a c"
  by (simp add: same_bytes_def)

lemma same_bytes_SomeD:
  "same_bytes rs rs' \<Longrightarrow> rs i = Some r \<Longrightarrow> \<exists>r'. rs' i = Some r' \<and> mem r' = mem r \<and> readers r' = readers r"
  by (cases "rs' i") (auto simp: same_bytes_def dest!: spec [of _ i])

lemma same_bytes_None: "same_bytes rs rs' \<Longrightarrow> rs i = None \<longleftrightarrow> rs' i = None"
  by (cases "rs i"; cases "rs' i") (auto simp: same_bytes_def dest!: spec [of _ i])

lemma storage_open_close:
  assumes "storage_open os rs st w = (Inr rs1, w1)" "storage_close os rs1 st w2 = (rs2, w3)"
  shows "same_bytes rs rs2"
proof (cases st)
  case (Heap fr)
  with assms show ?thesis by simp
next
  case (Region i sizes l n)
  with assms(1) obtain r r1 where r: "rs i = Some r" "guarded_open os r w = (Inr r1, w1)" "rs1 = rs(i \<mapsto> r1)"
    by (auto simp: result_simps split: option.splits)
  obtain r2 where r2: "region_access_drop os r1 w2 = (r2, w3)" "rs2 = rs1(i \<mapsto> r2)"
    using assms(2) Region r(3) by (auto split: prod.splits)
  have "mem r2 = mem r \<and> readers r2 = readers r"
    using guarded_open_Inr [OF r(2)] region_access_drop_fields [OF r2(1)] by simp
  then show ?thesis
    using r r2 by (simp add: same_bytes_def)
qed

text \<open>What the fragments in a storage are, read off the memory of its region.\<close>

definition contents :: "regions \<Rightarrow> storage \<Rightarrow> fragments option" where
  "contents rs st =
     (case st of
        Heap fr \<Rightarrow> Some fr
      | Region i sizes l n \<Rightarrow>
          map_option (\<lambda>r. from_parts (cut sizes (mem r)) (take l (drop (sum_list sizes) (mem r))) n) (rs i))"

definition idle :: "regions \<Rightarrow> storage \<Rightarrow> bool" where
  "idle rs st = (case st of Heap fr \<Rightarrow> True | Region i sizes l n \<Rightarrow> (\<exists>r. rs i = Some r \<and> readers r = 0))"

lemma storage_open_total:
  assumes "protect_total os" "idle rs st"
  shows "\<exists>rs1 w1. storage_open os rs st w = (Inr rs1, w1)"
proof (cases st)
  case (Heap fr)
  then show ?thesis by simp
next
  case (Region i sizes l n)
  then obtain r where r: "rs i = Some r" using assms(2) by (auto simp: idle_def)
  have "fst (os_protect os w (base r) (map_len r) ReadAccess)"
    using assms(1) by (simp add: protect_total_def)
  then have "\<exists>r1 w1. guarded_open os r w = (Inr r1, w1)"
    by (auto simp: guarded_open_def split: prod.splits bool.splits)
  with r Region show ?thesis by (auto simp: result_simps)
qed

lemma contents_same_bytes: "same_bytes rs rs' \<Longrightarrow> contents rs' st = contents rs st"
proof (cases st)
  case (Region i sizes l n)
  assume "same_bytes rs rs'"
  then show ?thesis
    using Region by (cases "rs i") (auto simp: contents_def same_bytes_None dest: same_bytes_SomeD)
qed (simp add: contents_def)

lemma idle_same_bytes: "same_bytes rs rs' \<Longrightarrow> idle rs st \<Longrightarrow> idle rs' st"
  by (cases st) (auto simp: idle_def dest: same_bytes_SomeD)

lemma load_open:
  assumes "storage_open os rs st w = (Inr rs1, w1)" "idle rs st"
  shows "\<exists>fr. contents rs st = Some fr \<and> load rs1 st = Inr fr"
proof (cases st)
  case (Heap fr)
  then show ?thesis by (simp add: contents_def)
next
  case (Region i sizes l n)
  with assms obtain r r1 where r: "rs i = Some r" "readers r = 0" "guarded_open os r w = (Inr r1, w1)"
    "rs1 = rs(i \<mapsto> r1)"
    by (auto simp: result_simps idle_def)
  have "prot r1 = ReadAccess" "mem r1 = mem r"
    using guarded_open_Inr [OF r(3)] r(2) by auto
  with r Region show ?thesis by (simp add: contents_def)
qed

section \<open>Secrets\<close>

definition secret_holds :: "regions \<Rightarrow> secret_bytes \<Rightarrow> bytes \<Rightarrow> bool" where
  "secret_holds rs st k \<longleftrightarrow> idle rs st \<and> (\<exists>fr. contents rs st = Some fr \<and> chunk fr 0 = Some k)"

lemma secret_holds_same_bytes: "same_bytes rs rs' \<Longrightarrow> secret_holds rs st k \<Longrightarrow> secret_holds rs' st k"
  by (auto simp: secret_holds_def contents_same_bytes idle_same_bytes)

lemma secret_read_frame:
  assumes "secret_read E st f s = (r, s')"
    and "secret_holds (regions_tab s) st k"
  shows "\<exists>w rs. s' = s\<lparr>world := w, regions_tab := rs\<rparr> \<and> same_bytes (regions_tab s) rs \<and>
    (r = Inr (f k) \<or> (\<exists>e. r = Inl e \<and> (protect_total (env_os E) \<longrightarrow> False)))"
proof (cases "storage_open (env_os E) (regions_tab s) st (world s)")
  case (Pair x w)
  show ?thesis
  proof (cases x)
    case (Inl e)
    have "\<not> protect_total (env_os E)"
      using storage_open_total [of "env_os E" "regions_tab s" st "world s"] assms(2) Pair Inl
      by (auto simp: secret_holds_def)
    then show ?thesis
      using assms(1) Pair Inl by (auto simp: secret_read_def intro!: exI [of _ w] exI [of _ "regions_tab s"])
  next
    case (Inr rs)
    obtain fr where fr: "contents (regions_tab s) st = Some fr" "load rs st = Inr fr"
      using load_open [of "env_os E" "regions_tab s" st "world s" rs w] Pair Inr assms(2)
      by (auto simp: secret_holds_def)
    obtain rs' w' where cl: "storage_close (env_os E) rs st w = (rs', w')"
      by fastforce
    have "same_bytes (regions_tab s) rs'"
      using storage_open_close [OF _ cl] Pair Inr by simp
    then show ?thesis
      using assms Pair Inr fr cl by (auto simp: secret_read_def secret_holds_def)
  qed
qed

lemma into_protected_contents:
  assumes "into_protected os i rs fr w = (Inr (st, rs'), w')" "layout_start fr = 0"
  shows "\<exists>fr2. contents rs' st = Some fr2 \<and> same_view fr2 fr" "idle rs' st"
    "\<forall>j. j \<noteq> i \<longrightarrow> rs' j = rs j" "\<exists>sizes l. st = Region i sizes l (total_len fr)"
  using into_protected_region [OF assms(1)] assms(2)
  by (auto simp: contents_def idle_def same_view_def cut_concat concat_cut_length layout_bytes_drop)

section \<open>The specification and the link to it\<close>

type_synonym spec = "key_id \<rightharpoonup> string \<times> bytes \<times> key_metadata"

definition enc_bytes :: "'w vault \<Rightarrow> bytes \<Rightarrow> bytes" where
  "enc_bytes v bs = (case v_codex v of Some c \<Rightarrow> codex_apply c bs | None \<Rightarrow> bs)"

definition dec_bytes :: "'w vault \<Rightarrow> bytes \<Rightarrow> bytes" where
  "dec_bytes v bs = (case v_codex v of Some c \<Rightarrow> codex_decode_in_place c bs | None \<Rightarrow> bs)"

text \<open>What the vault was built with: a strategy that meets its contract and a lawful codex.\<close>

definition vault_ok :: "'w vault \<Rightarrow> bool" where
  "vault_ok v \<longleftrightarrow> fragmenter_ok (v_fragmenter v) \<and>
     (case v_codex v of None \<Rightarrow> True | Some c \<Rightarrow> codex_law (encode c) (decode c))"

lemma dec_enc: "vault_ok v \<Longrightarrow> dec_bytes v (enc_bytes v bs) = bs"
  by (auto simp: vault_ok_def dec_bytes_def enc_bytes_def codex_apply_def codex_decode_in_place_def
      codex_law.map_decode_encode simp del: map_map split: option.splits)

lemma length_enc [simp]: "length (enc_bytes v bs) = length bs"
  by (simp add: enc_bytes_def codex_apply_def split: option.split)

text \<open>The regions a storage occupies, and those of the vault's own secrets.\<close>

fun region_ids :: "storage \<Rightarrow> nat set" where
  "region_ids (Heap fr) = {}"
| "region_ids (Region i sizes l n) = {i}"

definition holds :: "'w vault \<Rightarrow> regions \<Rightarrow> storage \<Rightarrow> bytes \<Rightarrow> bool" where
  "holds v rs st bs \<longleftrightarrow> idle rs st \<and> storage_total_len st = length bs \<and> length bs \<le> isize_max \<and>
     (page_protection (v_config v) \<or> region_ids st = {}) \<and>
     (\<exists>fr. contents rs st = Some fr \<and>
       (\<forall>out. length out = length bs \<longrightarrow> fragmenter_defragment_into (v_fragmenter v) fr out = (Inr (), bs)))"

definition secret_ids :: "'w vault \<Rightarrow> nat set" where
  "secret_ids v =
     (case v_normalizer v of NormKeyed st \<Rightarrow> region_ids st | _ \<Rightarrow> {}) \<union>
     (case v_master v of Some (MasterReady st) \<Rightarrow> region_ids st | _ \<Rightarrow> {})"

record secrets =
  normalization_key :: bytes
  master_stored :: bytes

definition secrets_ok :: "'w vault \<Rightarrow> secrets \<Rightarrow> regions \<Rightarrow> bool" where
  "secrets_ok v k rs \<longleftrightarrow>
     (\<forall>st. v_normalizer v = NormKeyed st \<longrightarrow> secret_holds rs st (normalization_key k)) \<and>
     (\<forall>st. v_master v = Some (MasterReady st) \<longrightarrow> secret_holds rs st (master_stored k))"

text \<open>Ids and names are unique.\<close>

definition names_inv :: "(key_id \<times> key_entry) list \<Rightarrow> bool" where
  "names_inv ks \<longleftrightarrow> distinct (map fst ks) \<and> distinct (map (\<lambda>(i, e). ke_name e) ks)"

text \<open>Every entry is what the specification says, and there is no other.\<close>

definition entry_rel :: "'w vault \<Rightarrow> regions \<Rightarrow> key_entry \<Rightarrow> string \<times> bytes \<times> key_metadata \<Rightarrow> bool" where
  "entry_rel v rs e a = (case a of (n, bs, md) \<Rightarrow>
     ke_name e = n \<and> ke_metadata e = md \<and> holds v rs (ke_fragments e) (enc_bytes v bs))"

definition spec_rel :: "'w vault \<Rightarrow> regions \<Rightarrow> (key_id \<times> key_entry) list \<Rightarrow> spec \<Rightarrow> bool" where
  "spec_rel v rs ks A \<longleftrightarrow> (\<forall>i. rel_option (entry_rel v rs) (kv_get i ks) (A i))"

text \<open>No two entries share a region, and none uses a region of the vault's secrets.\<close>

definition apart :: "'w vault \<Rightarrow> nat \<Rightarrow> (key_id \<times> key_entry) list \<Rightarrow> bool" where
  "apart v rn ks \<longleftrightarrow>
     (\<forall>(i, e)\<in>set ks. region_ids (ke_fragments e) \<subseteq> {..<rn} - secret_ids v) \<and>
     (\<forall>(i, e)\<in>set ks. \<forall>(j, f)\<in>set ks. i \<noteq> j \<longrightarrow> region_ids (ke_fragments e) \<inter> region_ids (ke_fragments f) = {})"

definition store_inv :: "'w vault \<Rightarrow> secrets \<Rightarrow> spec \<Rightarrow> 'w vstate \<Rightarrow> bool" where
  "store_inv v k A s \<longleftrightarrow>
     names_inv (keys s) \<and> spec_rel v (regions_tab s) (keys s) A \<and> apart v (region_next s) (keys s) \<and>
     secret_ids v \<subseteq> {..<region_next s} \<and> secrets_ok v k (regions_tab s)"

lemma store_inv_cong:
  "keys s = keys t \<Longrightarrow> regions_tab s = regions_tab t \<Longrightarrow> region_next s = region_next t \<Longrightarrow>
     store_inv v k A s \<longleftrightarrow> store_inv v k A t"
  by (simp add: store_inv_def)

lemma holds_same_bytes: "same_bytes rs rs' \<Longrightarrow> holds v rs st bs \<Longrightarrow> holds v rs' st bs"
  by (auto simp: holds_def contents_same_bytes idle_same_bytes)

lemma spec_rel_mono:
  assumes "spec_rel v rs ks A"
    and "\<And>i e bs. kv_get i ks = Some e \<Longrightarrow> holds v rs (ke_fragments e) bs \<Longrightarrow> holds v rs' (ke_fragments e) bs"
  shows "spec_rel v rs' ks A"
  unfolding spec_rel_def
proof
  fix i
  show "rel_option (entry_rel v rs') (kv_get i ks) (A i)"
    using assms by (cases "kv_get i ks"; cases "A i") (force simp: spec_rel_def entry_rel_def dest: spec [of _ i])+
qed

lemma store_inv_same_bytes:
  assumes "store_inv v k A s" "same_bytes (regions_tab s) (regions_tab t)"
    and "keys t = keys s" "region_next t = region_next s"
  shows "store_inv v k A t"
  using assms holds_same_bytes [OF assms(2)] secret_holds_same_bytes [OF assms(2)]
  by (auto simp: store_inv_def secrets_ok_def intro: spec_rel_mono)

lemma store_inv_get:
  assumes "store_inv v k A s" "A i = Some (n, bs, md)"
  obtains e where "kv_get i (keys s) = Some e" "ke_name e = n" "ke_metadata e = md"
    "holds v (regions_tab s) (ke_fragments e) (enc_bytes v bs)"
proof -
  have "rel_option (entry_rel v (regions_tab s)) (kv_get i (keys s)) (A i)"
    using assms(1) by (simp add: store_inv_def spec_rel_def)
  with assms(2) that show thesis
    by (cases "kv_get i (keys s)") (auto simp: entry_rel_def)
qed

lemma store_inv_None: "store_inv v k A s \<Longrightarrow> kv_get i (keys s) = None \<longleftrightarrow> A i = None"
  unfolding store_inv_def spec_rel_def by (metis option.rel_distinct option.collapse option.rel_sel)

text \<open>The regions that stay as they are keep what they hold.\<close>

lemma holds_agree:
  "(\<And>i. i \<in> region_ids st \<Longrightarrow> rs' i = rs i) \<Longrightarrow> holds v rs st bs \<Longrightarrow> holds v rs' st bs"
  by (cases st) (auto simp: holds_def contents_def idle_def)

lemma secret_holds_agree:
  "(\<And>i. i \<in> region_ids st \<Longrightarrow> rs' i = rs i) \<Longrightarrow> secret_holds rs st k \<Longrightarrow> secret_holds rs' st k"
  by (cases st) (auto simp: secret_holds_def contents_def idle_def)

lemma secrets_ok_agree:
  "(\<And>i. i \<in> secret_ids v \<Longrightarrow> rs' i = rs i) \<Longrightarrow> secrets_ok v k rs \<Longrightarrow> secrets_ok v k rs'"
  unfolding secrets_ok_def secret_ids_def
  by (auto intro!: secret_holds_agree [of _ rs' rs])

section \<open>Reading\<close>

text \<open>The operating system grants every protection change, where the vault relies on it.\<close>

definition os_ok :: "'w env \<Rightarrow> 'w vault \<Rightarrow> bool" where
  "os_ok E v \<longleftrightarrow> (page_protection (v_config v) \<longrightarrow> protect_total (env_os E))"

lemma reassemble_frame:
  assumes "holds v (regions_tab s) st bs" "reassemble E v st out s = (r, out', s')"
  shows "\<exists>w rs. s' = s\<lparr>world := w, regions_tab := rs\<rparr> \<and> same_bytes (regions_tab s) rs"
proof (cases "page_protection (v_config v)")
  case False
  then have "\<exists>fr. st = Heap fr"
    using assms(1) by (cases st) (auto simp: holds_def)
  then show ?thesis
    using assms(2) False
    by (auto simp: reassemble_def Let_def split: prod.splits sum.splits
        intro!: exI [of _ "world s"] exI [of _ "regions_tab s"])
next
  case True
  show ?thesis
  proof (cases "storage_open (env_os E) (regions_tab s) st (world s)")
    case (Pair x w)
    show ?thesis
    proof (cases x)
      case (Inl e)
      then show ?thesis
        using assms(2) True Pair
        by (auto simp: reassemble_def Let_def intro!: exI [of _ w] exI [of _ "regions_tab s"])
    next
      case (Inr rs)
      obtain fr where "load rs st = Inr fr"
        using load_open [of "env_os E" "regions_tab s" st "world s" rs w] Pair Inr assms(1)
        by (auto simp: holds_def)
      moreover obtain rs' w' where cl: "storage_close (env_os E) rs st w = (rs', w')"
        by fastforce
      moreover have "same_bytes (regions_tab s) rs'"
        using storage_open_close [OF _ cl] Pair Inr by simp
      ultimately show ?thesis
        using assms(2) True Pair Inr
        by (auto simp: reassemble_def Let_def split: prod.splits sum.splits
            intro!: exI [of _ w'] exI [of _ rs'])
    qed
  qed
qed

lemma reassemble_holds:
  assumes "vault_ok v" "os_ok E v" "holds v (regions_tab s) st (enc_bytes v bs)" "length out = length bs"
  shows "\<exists>s'. reassemble E v st out s = (Inr (), bs, s')"
proof -
  obtain fr where fr: "contents (regions_tab s) st = Some fr"
    "fragmenter_defragment_into (v_fragmenter v) fr out = (Inr (), enc_bytes v bs)"
    using assms(3,4) by (auto simp: holds_def)
  have dec: "(case v_codex v of Some c \<Rightarrow> codex_decode_in_place c (enc_bytes v bs) | None \<Rightarrow> enc_bytes v bs) = bs"
    using dec_enc [OF assms(1), of bs] by (simp add: dec_bytes_def)
  show ?thesis
  proof (cases "page_protection (v_config v)")
    case False
    then have "st = Heap fr"
      using assms(3) fr(1) by (cases st) (auto simp: holds_def contents_def)
    with False fr(2) dec show ?thesis
      by (simp add: reassemble_def)
  next
    case True
    obtain rs w where op: "storage_open (env_os E) (regions_tab s) st (world s) = (Inr rs, w)"
      using storage_open_total [of "env_os E" "regions_tab s" st "world s"] assms(2,3) True
      by (auto simp: os_ok_def holds_def)
    have "load rs st = Inr fr"
      using load_open [OF op] assms(3) fr(1) by (auto simp: holds_def)
    with True op fr(2) dec show ?thesis
      by (auto simp: reassemble_def split: prod.split)
  qed
qed

text \<open>
  The callback of \<open>read_key\<close> sees the plain bytes, in a state that differs from the one
  before only in the world, the protection of regions, and the scratch buffer.
\<close>

lemma read_key_calls:
  assumes "vault_ok v" "os_ok E v" "holds v (regions_tab s) st (enc_bytes v bs)" "\<not> scratch_borrowed s"
  shows "\<exists>w rs tail. same_bytes (regions_tab s) rs \<and>
    read_key E v st f s =
      (case f bs (s\<lparr>world := w, regions_tab := rs, scratch := bs @ tail, scratch_borrowed := True\<rparr>) of
         (None, s') \<Rightarrow> (Inl Panic, end_read (length bs) (bs @ tail) s')
       | (Some a, s') \<Rightarrow> (Inr a, end_read (length bs) (bs @ tail) s'))"
proof -
  let ?n = "length bs"
  let ?buf = "ensure_len ?n (scratch s)"
  let ?s1 = "s\<lparr>scratch := ?buf, scratch_borrowed := True\<rparr>"
  have n: "storage_total_len st = ?n" "\<not> isize_max < ?n"
    using assms(3) by (simp_all add: holds_def)
  have len: "length (take ?n ?buf) = ?n"
    by (simp add: ensure_len_def)
  have h1: "holds v (regions_tab ?s1) st (enc_bytes v bs)"
    using assms(3) by simp
  obtain s2 where s2: "reassemble E v st (take ?n ?buf) ?s1 = (Inr (), bs, s2)"
    using reassemble_holds [OF assms(1,2) h1 len] by blast
  obtain w rs where fr: "s2 = ?s1\<lparr>world := w, regions_tab := rs\<rparr>" "same_bytes (regions_tab ?s1) rs"
    using reassemble_frame [OF h1 s2] by blast
  let ?tail = "drop ?n ?buf"
  have "s2\<lparr>scratch := bs @ ?tail\<rparr> =
      s\<lparr>world := w, regions_tab := rs, scratch := bs @ ?tail, scratch_borrowed := True\<rparr>"
    using fr(1) by simp
  then show ?thesis
    using s2 n assms(4) fr(2)
    by (intro exI [of _ w] exI [of _ rs] exI [of _ ?tail]) (simp add: read_key_def Let_def)
qed

section \<open>The pipeline\<close>

definition norm_value :: "'w env \<Rightarrow> 'w vault \<Rightarrow> secrets \<Rightarrow> bytes \<Rightarrow> bytes" where
  "norm_value E v k key =
     (case v_normalizer v of
        NormOff \<Rightarrow> key
      | NormPlain \<Rightarrow> blake3_normalize (env_blake3 E) key
      | NormKeyed st \<Rightarrow> blake3_keyed_normalize (env_blake3 E) (normalization_key k) key
      | NormUnavailable r \<Rightarrow> [])"

lemma normalize_frame:
  assumes "store_inv v k A s" "normalize E v key s = (r, s')"
  shows "\<exists>w rs. s' = s\<lparr>world := w, regions_tab := rs\<rparr> \<and> same_bytes (regions_tab s) rs"
    and "r = Inr out \<Longrightarrow> out = norm_value E v k key"
proof -
  have "(\<exists>w rs. s' = s\<lparr>world := w, regions_tab := rs\<rparr> \<and> same_bytes (regions_tab s) rs) \<and>
        (\<forall>out. r = Inr out \<longrightarrow> out = norm_value E v k key)"
  proof (cases "v_normalizer v")
    case (NormKeyed st)
    obtain r1 s1 where rd: "secret_read E st (keyed_closure (env_blake3 E) key) s = (r1, s1)"
      by fastforce
    have "secret_holds (regions_tab s) st (normalization_key k)"
      using assms(1) NormKeyed by (simp add: store_inv_def secrets_ok_def)
    from secret_read_frame [OF rd this] show ?thesis
      using assms(2) NormKeyed rd
      by (auto simp: normalize_def norm_value_def rbind_def keyed_closure_def split: if_splits sum.splits)
  qed (use assms(2) in \<open>auto simp: normalize_def norm_value_def intro!: exI [of _ "world s"] exI [of _ "regions_tab s"]\<close>)
  then show "\<exists>w rs. s' = s\<lparr>world := w, regions_tab := rs\<rparr> \<and> same_bytes (regions_tab s) rs"
    and "r = Inr out \<Longrightarrow> out = norm_value E v k key"
    by blast+
qed

lemma fragment_pipeline_frame:
  assumes "store_inv v k A s" "fragment_pipeline E v key s = (r, s')"
  shows "\<exists>w rs. s' = s\<lparr>world := w, regions_tab := rs\<rparr> \<and> same_bytes (regions_tab s) rs"
proof -
  obtain r1 s1 where n: "normalize E v key s = (r1, s1)"
    by fastforce
  obtain w rs where s1: "s1 = s\<lparr>world := w, regions_tab := rs\<rparr>" "same_bytes (regions_tab s) rs"
    using normalize_frame(1) [OF assms(1) n] by blast
  have "\<exists>w'. s' = s1\<lparr>world := w'\<rparr>"
  proof (cases r1)
    case (Inl e)
    then show ?thesis
      using assms(2) n s1 by (auto simp: fragment_pipeline_def rbind_def intro!: exI [of _ w])
  next
    case (Inr key1)
    then show ?thesis
      using assms(2) n by (auto simp: fragment_pipeline_def rbind_def Let_def on_world_def split: prod.splits)
  qed
  then obtain w' where "s' = s1\<lparr>world := w'\<rparr>" by blast
  then have "s' = s\<lparr>world := w', regions_tab := rs\<rparr>"
    using s1(1) by simp
  with s1(2) show ?thesis by blast
qed

lemma fragment_pipeline_Inr:
  assumes "vault_ok v" "store_inv v k A s" "fragment_pipeline E v key s = (Inr fr, s')"
  shows "layout_start fr = 0" "total_len fr = length (norm_value E v k key)"
    and "length (norm_value E v k key) \<le> isize_max"
    and "length out = length (norm_value E v k key) \<Longrightarrow>
      fragmenter_defragment_into (v_fragmenter v) fr out = (Inr (), enc_bytes v (norm_value E v k key))"
proof -
  obtain key1 s1 w1 where n: "normalize E v key s = (Inr key1, s1)"
    and f: "fragmenter_fragment E (v_fragmenter v) (enc_bytes v key1) (world s1) = (Inr fr, w1)"
    using assms(3) by (auto simp: fragment_pipeline_def result_simps Let_def enc_bytes_def)
  have key1: "key1 = norm_value E v k key"
    using normalize_frame(2) [OF assms(2) n] by simp
  have c: "fragment_strategy (fragmenter_fragment E (v_fragmenter v)) (fragmenter_defragment_into (v_fragmenter v))"
    using assms(1) by (intro fragmenter_contract) (simp add: vault_ok_def)
  show "layout_start fr = 0"
    by (rule fragment_strategy.frag_start [OF c f])
  show "total_len fr = length (norm_value E v k key)"
    using fragment_strategy.frag_total_len [OF c f] key1 by simp
  show "length (norm_value E v k key) \<le> isize_max"
    using fragment_strategy.frag_fits [OF c f] key1 by simp
  show "fragmenter_defragment_into (v_fragmenter v) fr out = (Inr (), enc_bytes v (norm_value E v k key))"
    if "length out = length (norm_value E v k key)"
    using fragment_strategy.round_trip [OF c f, of out] key1 that by simp
qed

lemma protect_fragments_Inr:
  assumes "protect_fragments E fr s = (Inr st, s')"
  obtains rs w where "into_protected (env_os E) (region_next s) (regions_tab s) fr (world s) = (Inr (st, rs), w)"
    "s' = s\<lparr>world := w, regions_tab := rs, region_next := Suc (region_next s)\<rparr>"
  using assms by (auto simp: protect_fragments_def split: prod.splits sum.splits)

lemma store_inv_new_region:
  assumes "store_inv v k A s" "keys t = keys s" "region_next s \<le> region_next t"
    and "\<And>j. j < region_next s \<Longrightarrow> regions_tab t j = regions_tab s j"
  shows "store_inv v k A t"
proof -
  have ap: "apart v (region_next s) (keys s)" and sec: "secret_ids v \<subseteq> {..<region_next s}"
    using assms(1) by (simp_all add: store_inv_def)
  have "holds v (regions_tab t) (ke_fragments e) bs"
    if "kv_get i (keys s) = Some e" "holds v (regions_tab s) (ke_fragments e) bs" for i e bs
  proof (rule holds_agree [OF _ that(2)])
    have "(i, e) \<in> set (keys s)"
      using that(1) by (auto simp: kv_get_def dest: map_of_SomeD)
    then have "region_ids (ke_fragments e) \<subseteq> {..<region_next s}"
      using ap by (auto simp: apart_def)
    then show "regions_tab t j = regions_tab s j" if "j \<in> region_ids (ke_fragments e)" for j
      using that assms(4) by blast
  qed
  moreover have "secrets_ok v k (regions_tab t)"
    using assms(1,4) sec by (intro secrets_ok_agree [of v "regions_tab t" "regions_tab s"]) (auto simp: store_inv_def)
  moreover have "apart v (region_next t) (keys s)"
    using ap assms(3) unfolding apart_def by fastforce
  ultimately show ?thesis
    using assms(1,2,3) sec unfolding store_inv_def by (auto intro: spec_rel_mono)
qed

lemma protect_fragments_Inl:
  "protect_fragments E fr s = (Inl e, s') \<Longrightarrow> \<exists>w. s' = s\<lparr>world := w\<rparr>"
  by (auto simp: protect_fragments_def split: prod.splits sum.splits)

lemma protected_holds:
  assumes "vault_ok v" "page_protection (v_config v)"
    and "\<exists>fr2. contents rs st = Some fr2 \<and> same_view fr2 fr" "idle rs st"
    and "\<forall>j. j \<noteq> i \<longrightarrow> rs j = rs0 j" "\<exists>sizes l. st = Region i sizes l (total_len fr)"
    and "layout_start fr = 0" "total_len fr = length bs" "length bs \<le> isize_max"
    and "\<And>out. length out = length bs \<Longrightarrow> fragmenter_defragment_into (v_fragmenter v) fr out = (Inr (), enc_bytes v bs)"
  shows "holds v rs st (enc_bytes v bs)"
proof -
  obtain fr2 where fr2: "contents rs st = Some fr2" "same_view fr2 fr"
    using assms(3) by blast
  have "fragmenter_ok (v_fragmenter v)"
    using assms(1) by (simp add: vault_ok_def)
  from fragment_strategy.into_view [OF fragmenter_contract [OF this] fr2(2)]
  have "fragmenter_defragment_into (v_fragmenter v) fr2 out = (Inr (), enc_bytes v bs)" if "length out = length bs" for out
    using assms(10) [OF that] by simp
  then show ?thesis
    using fr2(1) assms(2,4,6,8,9) by (auto simp: holds_def)
qed

text \<open>
  The storage that \<open>fragment_for_registry\<close> returns holds the encoded, normalized key, and
  no existing storage is touched.
\<close>

text \<open>What preparing a storage may change, and what it returns: a storage that holds \<open>bs\<close>, in regions of its own.\<close>

definition prepared :: "'w vault \<Rightarrow> secrets \<Rightarrow> spec \<Rightarrow> bytes \<Rightarrow> storage result \<Rightarrow> 'w vstate \<Rightarrow> 'w vstate \<Rightarrow> bool" where
  "prepared v k A bs r s s' \<longleftrightarrow> store_inv v k A s' \<and> region_next s \<le> region_next s' \<and>
     (\<exists>w rs rn. s' = s\<lparr>world := w, regions_tab := rs, region_next := rn\<rparr>) \<and>
     (\<forall>st. r = Inr st \<longrightarrow> holds v (regions_tab s') st (enc_bytes v bs) \<and>
        region_ids st \<subseteq> {region_next s ..< region_next s'})"

lemma prepared_later:
  "prepared v k A bs r (s\<lparr>world := w, regions_tab := rs\<rparr>) s' \<Longrightarrow> prepared v k A bs r s s'"
  by (auto simp: prepared_def)

lemma prepared_same:
  assumes "store_inv v k A s" "\<And>st. r = Inr st \<Longrightarrow> holds v (regions_tab s) st (enc_bytes v bs) \<and> region_ids st = {}"
  shows "prepared v k A bs r s s"
  using assms by (auto simp: prepared_def intro!: exI [of _ "world s"] exI [of _ "regions_tab s"] exI [of _ "region_next s"])

lemma protect_fragments_prepared:
  assumes "vault_ok v" "page_protection (v_config v)" "store_inv v k A s" "protect_fragments E fr s = (r, s')"
    and "layout_start fr = 0" "total_len fr = length bs" "length bs \<le> isize_max"
    and "\<And>out. length out = length bs \<Longrightarrow> fragmenter_defragment_into (v_fragmenter v) fr out = (Inr (), enc_bytes v bs)"
  shows "prepared v k A bs r s s'"
proof (cases r)
  case (Inl e)
  then obtain w where s': "s' = s\<lparr>world := w\<rparr>"
    using protect_fragments_Inl assms(4) by blast
  have "store_inv v k A s'"
    using s' assms(3) by (simp add: store_inv_def)
  then show ?thesis
    using Inl s' by (auto simp: prepared_def intro!: exI [of _ w] exI [of _ "regions_tab s"] exI [of _ "region_next s"])
next
  case (Inr st)
  obtain rs w where ip: "into_protected (env_os E) (region_next s) (regions_tab s) fr (world s) = (Inr (st, rs), w)"
    and s': "s' = s\<lparr>world := w, regions_tab := rs, region_next := Suc (region_next s)\<rparr>"
    using protect_fragments_Inr [of E fr s st s'] assms(4) Inr by blast
  note c = into_protected_contents [OF ip assms(5)]
  have "store_inv v k A s'"
    by (rule store_inv_new_region [OF assms(3)]) (use s' c(3) in simp_all)
  moreover have "holds v (regions_tab s') st (enc_bytes v bs)"
    using protected_holds [OF assms(1,2) c assms(5-8)] s' by simp
  ultimately show ?thesis
    using Inr s' c(4) by (auto simp: prepared_def)
qed

lemma fragment_for_registry_prepared:
  assumes "vault_ok v" "store_inv v k A s" "fragment_for_registry E v key s = (r, s')"
  shows "prepared v k A (norm_value E v k key) r s s'"
proof -
  obtain r1 s1 where p: "fragment_pipeline E v key s = (r1, s1)"
    by fastforce
  obtain w1 rs1 where s1: "s1 = s\<lparr>world := w1, regions_tab := rs1\<rparr>" "same_bytes (regions_tab s) rs1"
    using fragment_pipeline_frame [OF assms(2) p] by blast
  have inv1: "store_inv v k A s1"
    using s1 by (intro store_inv_same_bytes [OF assms(2)]) simp_all
  have "prepared v k A (norm_value E v k key) r s1 s'"
  proof (cases r1)
    case (Inl e)
    then have "r = Inl e" "s' = s1"
      using assms(3) p by (simp_all add: fragment_for_registry_def rbind_apply_Inl)
    then show ?thesis
      using prepared_same [OF inv1] by blast
  next
    case (Inr fr)
    note fr = fragment_pipeline_Inr [OF assms(1,2) p [unfolded Inr]]
    show ?thesis
    proof (cases "page_protection (v_config v)")
      case False
      then have "r = Inr (Heap fr)" "s' = s1"
        using assms(3) p Inr by (simp_all add: fragment_for_registry_def rbind_apply_Inr)
      moreover have "holds v (regions_tab s1) (Heap fr) (enc_bytes v (norm_value E v k key))"
        using fr by (simp add: holds_def idle_def contents_def)
      ultimately show ?thesis
        by (auto intro: prepared_same [OF inv1])
    next
      case True
      then have "protect_fragments E fr s1 = (r, s')"
        using assms(3) p Inr by (simp add: fragment_for_registry_def rbind_apply_Inr)
      then show ?thesis
        by (rule protect_fragments_prepared [OF assms(1) True inv1 _ fr])
    qed
  qed
  then show ?thesis
    unfolding s1(1) by (rule prepared_later)
qed

lemma fragment_for_registry_frame:
  assumes "vault_ok v" "store_inv v k A s" "fragment_for_registry E v key s = (r, s')"
  shows "store_inv v k A s'" and "region_next s \<le> region_next s'"
    and "\<exists>w rs rn. s' = s\<lparr>world := w, regions_tab := rs, region_next := rn\<rparr>"
    and "r = Inr st \<Longrightarrow> holds v (regions_tab s') st (enc_bytes v (norm_value E v k key))"
    and "r = Inr st \<Longrightarrow> region_ids st \<subseteq> {region_next s ..< region_next s'}"
  using fragment_for_registry_prepared [OF assms] unfolding prepared_def by blast+

end
