(* ===== verification/Refinement.thy ===== *)
theory Refinement
  imports Registry
begin

text \<open>
  Every registry operation as a step of the specification, and the states a vault can
  reach by any sequence of operations. The specification of \<^verbatim>\<open>register\<close> and \<^verbatim>\<open>rotate\<close> sets
  an entry, that of \<^verbatim>\<open>unregister\<close> removes it, and every other operation leaves it alone.
\<close>

section \<open>The map\<close>

lemma kv_get_remove [simp]: "kv_get j (kv_remove i m) = (if j = i then None else kv_get j m)"
  by (induction m) (auto simp: kv_get_def kv_remove_def)

lemma kv_get_insert [simp]: "kv_get j (kv_insert i e m) = (if j = i then Some e else kv_get j m)"
  using kv_get_remove [of j i m] by (simp add: kv_get_def kv_insert_def)

lemma set_kv_remove: "set (kv_remove i m) = {(j, e) \<in> set m. j \<noteq> i}"
  by (auto simp: kv_remove_def)

lemma kv_get_in: "names_inv m \<Longrightarrow> (i, e) \<in> set m \<longleftrightarrow> kv_get i m = Some e"
  by (auto simp: names_inv_def kv_get_def)

lemma names_inv_unique:
  assumes "names_inv m" "kv_get i m = Some e" "kv_get j m = Some f" "i \<noteq> j"
  shows "ke_name e \<noteq> ke_name f"
proof -
  have "(i, e) \<in> set m" "(j, f) \<in> set m"
    using assms by (simp_all add: kv_get_in)
  moreover have "inj_on (\<lambda>(i, e). ke_name e) (set m)"
    using assms(1) by (simp add: names_inv_def distinct_map)
  ultimately show ?thesis
    using assms(4) by (metis (mono_tags, lifting) Pair_inject case_prod_conv inj_onD)
qed

lemma names_inv_remove: "names_inv m \<Longrightarrow> names_inv (kv_remove i m)"
  by (auto simp: names_inv_def kv_remove_def distinct_map_filter)

lemma names_inv_insert:
  "names_inv m \<Longrightarrow> \<forall>(j, f)\<in>set m. j \<noteq> i \<longrightarrow> ke_name f \<noteq> ke_name e \<Longrightarrow> names_inv (kv_insert i e m)"
  using names_inv_remove [of m i]
  by (auto simp: names_inv_def kv_insert_def set_kv_remove)

section \<open>Installing and removing an entry\<close>

definition old_ids :: "key_id \<Rightarrow> (key_id \<times> key_entry) list \<Rightarrow> nat set" where
  "old_ids i m = (case kv_get i m of None \<Rightarrow> {} | Some e \<Rightarrow> region_ids (ke_fragments e))"

lemma free_storage_fields [simp]:
  "keys (free_storage E st s) = keys s" "region_next (free_storage E st s) = region_next s"
  "locked_out (free_storage E st s) = locked_out s" "key_locks (free_storage E st s) = key_locks s"
  "key_locks_active (free_storage E st s) = key_locks_active s"
  "scratch (free_storage E st s) = scratch s" "scratch_borrowed (free_storage E st s) = scratch_borrowed s"
  "audit_log (free_storage E st s) = audit_log s"
  by (simp_all add: free_storage_def split: prod.splits)

lemma free_storage_regions: "j \<notin> region_ids st \<Longrightarrow> regions_tab (free_storage E st s) j = regions_tab s j"
  by (cases st) (auto simp: free_storage_def split: option.splits prod.splits)

lemma release_entry_fields [simp]:
  "keys (release_entry E m i s) = keys s" "region_next (release_entry E m i s) = region_next s"
  "locked_out (release_entry E m i s) = locked_out s" "key_locks (release_entry E m i s) = key_locks s"
  "key_locks_active (release_entry E m i s) = key_locks_active s"
  "scratch (release_entry E m i s) = scratch s" "scratch_borrowed (release_entry E m i s) = scratch_borrowed s"
  "audit_log (release_entry E m i s) = audit_log s"
  by (simp_all add: release_entry_def split: option.split)

lemma release_entry_regions:
  "j \<notin> old_ids i m \<Longrightarrow> regions_tab (release_entry E m i s) j = regions_tab s j"
  by (auto simp: release_entry_def old_ids_def free_storage_regions split: option.splits)

lemma apart_ids: "apart v rn m \<Longrightarrow> (i, e) \<in> set m \<Longrightarrow> region_ids (ke_fragments e) \<subseteq> {..<rn} - secret_ids v"
  unfolding apart_def by blast

lemma apart_disjoint:
  "apart v rn m \<Longrightarrow> (i, e) \<in> set m \<Longrightarrow> (j, f) \<in> set m \<Longrightarrow> i \<noteq> j \<Longrightarrow>
     region_ids (ke_fragments e) \<inter> region_ids (ke_fragments f) = {}"
  unfolding apart_def by blast

lemma apart_subset: "apart v rn m \<Longrightarrow> set m' \<subseteq> set m \<Longrightarrow> apart v rn m'"
  unfolding apart_def by blast

lemma apart_Cons:
  assumes "apart v rn m" "region_ids (ke_fragments e) \<subseteq> {..<rn} - secret_ids v"
    and "\<And>j f. (j, f) \<in> set m \<Longrightarrow> region_ids (ke_fragments e) \<inter> region_ids (ke_fragments f) = {}"
  shows "apart v rn ((i, e) # m)"
  using assms unfolding apart_def by (auto simp: Int_commute split: prod.splits) blast+

lemma old_ids_in: "names_inv m \<Longrightarrow> r \<in> old_ids i m \<Longrightarrow> \<exists>e. (i, e) \<in> set m \<and> r \<in> region_ids (ke_fragments e)"
  by (auto simp: old_ids_def kv_get_in split: option.splits)

lemma old_ids_apart:
  assumes "names_inv m" "apart v rn m"
  shows "old_ids i m \<inter> secret_ids v = {}"
    and "(j, f) \<in> set m \<Longrightarrow> j \<noteq> i \<Longrightarrow> region_ids (ke_fragments f) \<inter> old_ids i m = {}"
  using old_ids_in [OF assms(1)] apart_ids [OF assms(2)] apart_disjoint [OF assms(2)] by blast+

lemma shrink_inv:
  assumes inv: "store_inv v k A s"
    and t: "keys t = kv_remove i (keys s)" "region_next t = region_next s"
    and regs: "\<And>j. j \<notin> old_ids i (keys s) \<Longrightarrow> regions_tab t j = regions_tab s j"
  shows "store_inv v k (A(i := None)) t"
proof -
  have n: "names_inv (keys s)" and a: "apart v (region_next s) (keys s)"
    and sp: "spec_rel v (regions_tab s) (keys s) A"
    using inv by (simp_all add: store_inv_def)
  note ids = old_ids_apart(1) [OF n a, of i]
  have "rel_option (entry_rel v (regions_tab s)) (kv_get j (keys t)) ((A(i := None)) j)" for j
    using sp t(1) by (simp add: spec_rel_def)
  then have "spec_rel v (regions_tab s) (keys t) (A(i := None))"
    by (simp add: spec_rel_def)
  then have "spec_rel v (regions_tab t) (keys t) (A(i := None))"
  proof (rule spec_rel_mono)
    fix j e bs
    assume "kv_get j (keys t) = Some e" and h: "holds v (regions_tab s) (ke_fragments e) bs"
    then have "(j, e) \<in> set (keys s)" "j \<noteq> i"
      using t(1) kv_get_in [OF n] by (auto split: if_splits)
    then have "region_ids (ke_fragments e) \<inter> old_ids i (keys s) = {}"
      using old_ids_apart(2) [OF n a] by blast
    then show "holds v (regions_tab t) (ke_fragments e) bs"
      using regs by (intro holds_agree [OF _ h]) blast
  qed
  moreover have "secrets_ok v k (regions_tab t)"
  proof (rule secrets_ok_agree)
    show "secrets_ok v k (regions_tab s)"
      using inv by (simp add: store_inv_def)
    show "regions_tab t j = regions_tab s j" if "j \<in> secret_ids v" for j
      using that ids regs by blast
  qed
  moreover have "apart v (region_next s) (kv_remove i (keys s))"
    by (rule apart_subset [OF a]) (auto simp: set_kv_remove)
  ultimately show ?thesis
    using inv t names_inv_remove [OF n] by (simp add: store_inv_def)
qed

lemma install_inv:
  assumes inv: "store_inv v k A s"
    and t: "keys t = kv_insert i e (keys s)" "region_next t = region_next s"
    and regs: "\<And>j. j \<notin> old_ids i (keys s) \<Longrightarrow> regions_tab t j = regions_tab s j"
    and new: "holds v (regions_tab s) (ke_fragments e) (enc_bytes v bs)"
    and fresh: "region_ids (ke_fragments e) \<subseteq> {..<region_next s} - secret_ids v"
      "\<And>j f. kv_get j (keys s) = Some f \<Longrightarrow> region_ids (ke_fragments e) \<inter> region_ids (ke_fragments f) = {}"
    and name: "\<And>j f. kv_get j (keys s) = Some f \<Longrightarrow> j \<noteq> i \<Longrightarrow> ke_name f \<noteq> ke_name e"
  shows "store_inv v k (A(i \<mapsto> (ke_name e, bs, ke_metadata e))) t"
proof -
  have n: "names_inv (keys s)" and a: "apart v (region_next s) (keys s)"
    using inv by (simp_all add: store_inv_def)
  have small: "store_inv v k (A(i := None)) (t\<lparr>keys := kv_remove i (keys s)\<rparr>)"
    using t regs by (intro shrink_inv [OF inv]) simp_all
  have "region_ids (ke_fragments e) \<inter> old_ids i (keys s) = {}"
    using fresh(2) by (auto simp: old_ids_def split: option.splits)
  then have h: "holds v (regions_tab t) (ke_fragments e) (enc_bytes v bs)"
    using regs by (intro holds_agree [OF _ new]) blast
  have "rel_option (entry_rel v (regions_tab t)) (kv_get j (keys t)) ((A(i \<mapsto> (ke_name e, bs, ke_metadata e))) j)" for j
    using small t(1) h by (auto simp: store_inv_def spec_rel_def entry_rel_def dest!: spec [of _ j])
  moreover have "names_inv (keys t)"
    using names_inv_insert [OF n, of i e] name kv_get_in [OF n] t(1) by auto
  moreover have "apart v (region_next t) (keys t)"
    unfolding t kv_insert_def
    by (rule apart_Cons [OF apart_subset [OF a] fresh(1)])
       (auto simp: set_kv_remove kv_get_in [OF n] dest: fresh(2))
  ultimately show ?thesis
    using small t(2) by (simp add: store_inv_def spec_rel_def)
qed

lemma emit_audit_fields [simp]:
  "keys (emit_audit E v n kd nt s) = keys s" "regions_tab (emit_audit E v n kd nt s) = regions_tab s"
  "region_next (emit_audit E v n kd nt s) = region_next s" "locked_out (emit_audit E v n kd nt s) = locked_out s"
  "key_locks (emit_audit E v n kd nt s) = key_locks s" "key_locks_active (emit_audit E v n kd nt s) = key_locks_active s"
  "failure_tracker (emit_audit E v n kd nt s) = failure_tracker s" "monitor_log (emit_audit E v n kd nt s) = monitor_log s"
  "scratch (emit_audit E v n kd nt s) = scratch s" "scratch_borrowed (emit_audit E v n kd nt s) = scratch_borrowed s"
  "master_backoff (emit_audit E v n kd nt s) = master_backoff s" "id_counter (emit_audit E v n kd nt s) = id_counter s"
  by (simp_all add: emit_audit_def clock_unix_time_def split: prod.splits)

lemma emit_audit_inv [simp]: "store_inv v k A (emit_audit E v n kd nt s) \<longleftrightarrow> store_inv v k A s"
  by (simp add: store_inv_def)

section \<open>Registering\<close>

lemma allocate_handle_fields [simp]:
  "keys (snd (allocate_handle s)) = keys s" "regions_tab (snd (allocate_handle s)) = regions_tab s"
  "region_next (snd (allocate_handle s)) = region_next s"
  by (simp_all add: allocate_handle_def split: prod.splits)

lemma clock_unix_time_fields [simp]:
  "keys (snd (clock_unix_time E s)) = keys s" "regions_tab (snd (clock_unix_time E s)) = regions_tab s"
  "region_next (snd (clock_unix_time E s)) = region_next s"
  by (simp_all add: clock_unix_time_def split: prod.splits)

lemma kv_has_name_iff: "names_inv m \<Longrightarrow> kv_has_name n m \<longleftrightarrow> (\<exists>i e. kv_get i m = Some e \<and> ke_name e = n)"
  by (fastforce simp: kv_has_name_def kv_get_in)

text \<open>A storage made for the registry since state \<open>s\<close>, whose entries are still those of \<open>s\<close>.\<close>

lemma fresh_storage:
  assumes "store_inv v k A s" "region_ids st \<subseteq> {region_next s ..< rn}"
  shows "region_ids st \<subseteq> {..<rn} - secret_ids v"
    and "kv_get j (keys s) = Some f \<Longrightarrow> region_ids st \<inter> region_ids (ke_fragments f) = {}"
proof -
  have a: "names_inv (keys s)" "apart v (region_next s) (keys s)" "secret_ids v \<subseteq> {..<region_next s}"
    using assms(1) by (simp_all add: store_inv_def)
  show "region_ids st \<subseteq> {..<rn} - secret_ids v"
    using assms(2) a(3) by fastforce
  show "region_ids st \<inter> region_ids (ke_fragments f) = {}" if "kv_get j (keys s) = Some f"
  proof -
    have "region_ids (ke_fragments f) \<subseteq> {..<region_next s}"
      using apart_ids [OF a(2)] kv_get_in [OF a(1)] that by blast
    then show ?thesis
      using assms(2) by fastforce
  qed
qed

lemma register_install_refines:
  assumes inv: "store_inv v k A s" and names: "\<not> kv_has_name name (keys s)"
    and st: "holds v (regions_tab s) st (enc_bytes v bs)" "region_ids st \<subseteq> {..<region_next s} - secret_ids v"
      "\<And>j f. kv_get j (keys s) = Some f \<Longrightarrow> region_ids st \<inter> region_ids (ke_fragments f) = {}"
    and res: "register_install E v name st h md s = (r, s')"
  shows "r = Inr h \<and> store_inv v k (A(handle_id h \<mapsto> (name, bs, md))) s'"
proof -
  let ?e = "\<lparr>ke_name = name, ke_fragments = st, ke_metadata = md\<rparr>"
  let ?t = "release_entry E (keys s) (handle_id h) (s\<lparr>keys := kv_insert (handle_id h) ?e (keys s)\<rparr>)"
  have n: "names_inv (keys s)"
    using inv by (simp add: store_inv_def)
  have "store_inv v k (A(handle_id h \<mapsto> (ke_name ?e, bs, ke_metadata ?e))) ?t"
    by (rule install_inv [OF inv])
       (use st names in \<open>auto simp: release_entry_regions kv_has_name_iff [OF n]\<close>)
  then show ?thesis
    using res names by (auto simp: register_install_def Let_def)
qed

lemma register_refines:
  assumes "vault_ok v" "store_inv v k A s" "register E v name key s = (r, s')"
  shows "case r of
      Inl e \<Rightarrow> store_inv v k A s'
    | Inr h \<Rightarrow> \<exists>t. store_inv v k (A(handle_id h \<mapsto>
                 (name, norm_value E v k key, key_metadata_new t (length key) None))) s'"
proof (cases "locked_out s \<or> kv_has_name name (keys s)")
  case True
  then show ?thesis
    using assms(2,3) by (auto simp: register_def is_locked_out_def split: if_splits)
next
  case False
  obtain r1 s1 where f: "fragment_for_registry E v key s = (r1, s1)"
    by fastforce
  note fr = fragment_for_registry_frame [OF assms(1,2) f]
  show ?thesis
  proof (cases r1)
    case (Inl e)
    then show ?thesis
      using assms(3) False f fr(1) by (auto simp: register_def is_locked_out_def rbind_def)
  next
    case (Inr st)
    obtain h s2 where h: "allocate_handle s1 = (h, s2)" by fastforce
    obtain t s3 where t: "clock_unix_time E s2 = (t, s3)" by fastforce
    have same: "keys s3 = keys s" "regions_tab s3 = regions_tab s1" "region_next s3 = region_next s1"
      using allocate_handle_fields [of s1] clock_unix_time_fields [of E s2] fr(3) h t by auto
    have "keys s1 = keys s"
      using fr(3) by auto
    then have inv3: "store_inv v k A s3"
      using fr(1) same by (simp add: store_inv_def)
    note fresh = fresh_storage [OF assms(2) fr(5) [OF Inr]]
    have ins: "register_install E v name st h (key_metadata_new t (length key) None) s3 = (r, s')"
      using assms(3) False f h t Inr by (simp add: register_def is_locked_out_def rbind_def)
    have "r = Inr h \<and> store_inv v k (A(handle_id h \<mapsto>
        (name, norm_value E v k key, key_metadata_new t (length key) None))) s'"
      by (rule register_install_refines [OF inv3 _ _ _ _ ins])
         (use False fr(4) [OF Inr] fresh same in simp_all)
    then show ?thesis by auto
  qed
qed

section \<open>Unregistering\<close>

lemma unregister_refines:
  assumes "store_inv v k A s" "unregister E v h s = (r, s')"
  shows "(A (handle_id h) = None \<and> r = Inl (Err KeyNotFound) \<and> s' = s) \<or>
         (A (handle_id h) \<noteq> None \<and> r = Inr () \<and> store_inv v k (A(handle_id h := None)) s')"
proof (cases "kv_get (handle_id h) (keys s)")
  case None
  then have "A (handle_id h) = None"
    using store_inv_None [OF assms(1)] by blast
  then show ?thesis
    using assms(2) None by (simp add: unregister_def)
next
  case (Some e)
  have "store_inv v k (A(handle_id h := None))
      (release_entry E (keys s) (handle_id h) (s\<lparr>keys := kv_remove (handle_id h) (keys s)\<rparr>))"
    by (rule shrink_inv [OF assms(1)]) (simp_all add: release_entry_regions)
  then show ?thesis
    using assms(2) Some store_inv_None [OF assms(1), of "handle_id h"]
    by (auto simp: unregister_def Let_def)
qed

section \<open>Key locks leave the store alone\<close>

lemma key_locked_fields [simp]:
  "keys (snd (key_locked E n s)) = keys s" "regions_tab (snd (key_locked E n s)) = regions_tab s"
  "region_next (snd (key_locked E n s)) = region_next s" "locked_out (snd (key_locked E n s)) = locked_out s"
  "scratch_borrowed (snd (key_locked E n s)) = scratch_borrowed s" "scratch (snd (key_locked E n s)) = scratch s"
  "audit_log (snd (key_locked E n s)) = audit_log s"
  by (simp_all add: key_locked_def key_locked_slow_def clock_now_def split: prod.split option.split)

lemma key_locked_inv: "key_locked E n s = (b, s1) \<Longrightarrow> store_inv v k A s \<Longrightarrow> store_inv v k A s1"
  using key_locked_fields [of E n s] by (simp add: store_inv_def)

section \<open>Rotating\<close>

lemma rotate_install_refines:
  assumes inv: "store_inv v k A s"
    and st: "holds v (regions_tab s) st (enc_bytes v bs)" "region_ids st \<subseteq> {..<region_next s} - secret_ids v"
      "\<And>j f. kv_get j (keys s) = Some f \<Longrightarrow> region_ids st \<inter> region_ids (ke_fragments f) = {}"
    and A: "A (handle_id h) = Some (n, old)"
    and res: "rotate_install E v h st md s = (r, s')"
  shows "r = Inr () \<and> store_inv v k (A(handle_id h \<mapsto> (n, bs, md))) s'"
proof -
  obtain e where e: "kv_get (handle_id h) (keys s) = Some e" "ke_name e = n"
    using store_inv_get [OF inv, of "handle_id h" n "fst old" "snd old"] A by auto
  let ?e = "e\<lparr>ke_fragments := st, ke_metadata := md\<rparr>"
  let ?t = "release_entry E (keys s) (handle_id h) (s\<lparr>keys := kv_insert (handle_id h) ?e (keys s)\<rparr>)"
  have nm: "names_inv (keys s)"
    using inv by (simp add: store_inv_def)
  have uniq: "ke_name f \<noteq> ke_name e" if "kv_get j (keys s) = Some f" "j \<noteq> handle_id h" for j f
    by (rule names_inv_unique [OF nm that(1) e(1) that(2)])
  have "store_inv v k (A(handle_id h \<mapsto> (ke_name ?e, bs, ke_metadata ?e))) ?t"
    by (rule install_inv [OF inv]) (use st uniq in \<open>auto simp: release_entry_regions\<close>)
  then show ?thesis
    using res e by (auto simp: rotate_install_def Let_def)
qed

lemma rotate_refines:
  assumes "vault_ok v" "store_inv v k A s" "rotate E v h key s = (r, s')"
  shows "case r of
      Inl e \<Rightarrow> store_inv v k A s'
    | Inr u \<Rightarrow> \<exists>n old t. A (handle_id h) = Some (n, old) \<and> store_inv v k (A(handle_id h \<mapsto>
                 (n, norm_value E v k key, key_metadata_new t (length key) None))) s'"
proof (cases "locked_out s \<or> A (handle_id h) = None")
  case True
  then show ?thesis
    using assms(2,3) store_inv_None [OF assms(2), of "handle_id h"]
    by (auto simp: rotate_def is_locked_out_def split: if_splits option.splits)
next
  case False
  then obtain n old where A: "A (handle_id h) = Some (n, old)" by auto
  then obtain e where e: "kv_get (handle_id h) (keys s) = Some e" "ke_name e = n"
    using store_inv_get [OF assms(2), of "handle_id h" n "fst old" "snd old"] by auto
  obtain b s1 where kl: "key_locked E n s = (b, s1)" by fastforce
  have inv1: "store_inv v k A s1"
    by (rule key_locked_inv [OF kl assms(2)])
  obtain r1 s2 where f: "fragment_for_registry E v key s1 = (r1, s2)"
    by fastforce
  note fr = fragment_for_registry_frame [OF assms(1) inv1 f]
  have rot: "rotate E v h key s = (if b then (Inl (Err LockedOut), s1)
      else case r1 of Inl e \<Rightarrow> (Inl e, s2) | Inr st \<Rightarrow>
        (case clock_unix_time E s2 of (t, s3) \<Rightarrow>
           rotate_install E v h st (key_metadata_new t (length key) None) s3))"
    using False e kl f by (simp add: rotate_def is_locked_out_def rbind_def split: sum.split)
  show ?thesis
  proof (cases "b \<or> (\<exists>e. r1 = Inl e)")
    case True
    then show ?thesis
      using assms(3) rot inv1 fr(1) by (auto split: if_splits)
  next
    case unlocked: False
    then obtain st where st: "r1 = Inr st" by (cases r1) auto
    obtain t s3 where t: "clock_unix_time E s2 = (t, s3)" by fastforce
    have same: "keys s3 = keys s1" "keys s2 = keys s1" "regions_tab s3 = regions_tab s2" "region_next s3 = region_next s2"
      using clock_unix_time_fields [of E s2] fr(3) t by auto
    have inv3: "store_inv v k A s3"
      using fr(1) same by (simp add: store_inv_def)
    note fresh = fresh_storage [OF inv1 fr(5) [OF st]]
    have ins: "rotate_install E v h st (key_metadata_new t (length key) None) s3 = (r, s')"
      using assms(3) rot unlocked st t by simp
    have "r = Inr () \<and> store_inv v k (A(handle_id h \<mapsto>
        (n, norm_value E v k key, key_metadata_new t (length key) None))) s'"
      by (rule rotate_install_refines [OF inv3 _ _ _ A ins])
         (use fr(4) [OF st] fresh same in simp_all)
    then show ?thesis
      using A by auto
  qed
qed

section \<open>Reading\<close>

text \<open>A callback that only computes with the bytes it is given; \<open>None\<close> is a panic.\<close>

definition pure_cb :: "(bytes \<Rightarrow> 'a option) \<Rightarrow> bytes \<Rightarrow> 'w vstate \<Rightarrow> 'a option \<times> 'w vstate" where
  "pure_cb g b s = (g b, s)"

lemma with_key_unlocked:
  assumes "store_inv v k A s" "A (handle_id h) = Some (n, bs, md)" "\<not> locked_out s"
    and "key_locked E n s = (False, s1)"
  obtains st where "holds v (regions_tab s1) st (enc_bytes v bs)"
    and "with_key E v h f s = rbind (read_key E v st f) (\<lambda>a s2.
       (Inr a, if v_audit_no_op v then s2 else emit_audit E v n Read [] s2)) s1"
proof -
  obtain e where e: "kv_get (handle_id h) (keys s) = Some e" "ke_name e = n"
    "holds v (regions_tab s) (ke_fragments e) (enc_bytes v bs)"
    using store_inv_get [OF assms(1,2)] by metis
  have "regions_tab s1 = regions_tab s"
    using key_locked_fields(2) [of E n s] assms(4) by simp
  with e assms(3,4) show thesis
    by (intro that [of "ke_fragments e"]) (simp_all add: with_key_def is_locked_out_def Let_def)
qed

lemma with_key_calls:
  assumes "vault_ok v" "os_ok E v" "store_inv v k A s" "A (handle_id h) = Some (n, bs, md)"
    and "\<not> locked_out s" "key_locked E n s = (False, s1)" "\<not> scratch_borrowed s"
  shows "\<exists>w rs tail. same_bytes (regions_tab s) rs \<and>
    with_key E v h f s =
      (case f bs (s1\<lparr>world := w, regions_tab := rs, scratch := bs @ tail, scratch_borrowed := True\<rparr>) of
         (None, s') \<Rightarrow> (Inl Panic, end_read (length bs) (bs @ tail) s')
       | (Some a, s') \<Rightarrow> (Inr a, let s2 = end_read (length bs) (bs @ tail) s' in
                             if v_audit_no_op v then s2 else emit_audit E v n Read [] s2))"
proof -
  obtain st where st: "holds v (regions_tab s1) st (enc_bytes v bs)"
    and wk: "with_key E v h f s = rbind (read_key E v st f) (\<lambda>a s2.
       (Inr a, if v_audit_no_op v then s2 else emit_audit E v n Read [] s2)) s1"
    by (rule with_key_unlocked [OF assms(3-6)])
  have s1: "\<not> scratch_borrowed s1" "regions_tab s1 = regions_tab s"
    using key_locked_fields [of E n s] assms(6,7) by simp_all
  obtain w rs tail where c: "same_bytes (regions_tab s1) rs"
    "read_key E v st f s1 =
      (case f bs (s1\<lparr>world := w, regions_tab := rs, scratch := bs @ tail, scratch_borrowed := True\<rparr>) of
         (None, s') \<Rightarrow> (Inl Panic, end_read (length bs) (bs @ tail) s')
       | (Some a, s') \<Rightarrow> (Inr a, end_read (length bs) (bs @ tail) s'))"
    using read_key_calls [OF assms(1,2) st s1(1)] by blast
  show ?thesis
    using c s1(2) unfolding wk
    by (intro exI [of _ w] exI [of _ rs] exI [of _ tail])
       (auto simp: rbind_def Let_def split: prod.splits option.splits)
qed

lemma end_read_fields [simp]:
  "keys (end_read n b s) = keys s" "regions_tab (end_read n b s) = regions_tab s"
  "region_next (end_read n b s) = region_next s" "locked_out (end_read n b s) = locked_out s"
  "key_locks (end_read n b s) = key_locks s" "key_locks_active (end_read n b s) = key_locks_active s"
  "audit_log (end_read n b s) = audit_log s" "scratch_borrowed (end_read n b s) = False"
  by (simp_all add: end_read_def)

lemma read_key_frame:
  assumes "holds v (regions_tab s) st bs" "read_key E v st (pure_cb g) s = (r, s')"
  shows "same_bytes (regions_tab s) (regions_tab s') \<and> keys s' = keys s \<and> region_next s' = region_next s \<and>
    locked_out s' = locked_out s \<and> key_locks s' = key_locks s \<and> key_locks_active s' = key_locks_active s \<and>
    audit_log s' = audit_log s"
proof (cases "scratch_borrowed s")
  case True
  then show ?thesis
    using assms(2) by (auto simp: read_key_def Let_def)
next
  case False
  let ?n = "storage_total_len st"
  let ?s1 = "s\<lparr>scratch := ensure_len ?n (scratch s), scratch_borrowed := True\<rparr>"
  obtain x out s2 where re: "reassemble E v st (take ?n (ensure_len ?n (scratch s))) ?s1 = (x, out, s2)"
    by (metis prod_cases3)
  obtain w rs where s2: "s2 = ?s1\<lparr>world := w, regions_tab := rs\<rparr>" "same_bytes (regions_tab s) rs"
    using reassemble_frame [of v ?s1 st bs, OF _ re] assms(1) by auto
  show ?thesis
    using assms(2) re s2 False
    by (auto simp: read_key_def Let_def pure_cb_def split: sum.splits option.splits if_splits)
qed

lemma with_key_entry:
  assumes "kv_get (handle_id h) (keys s) = Some e" "\<not> locked_out s" "key_locked E (ke_name e) s = (False, s1)"
  shows "with_key E v h f s = rbind (read_key E v (ke_fragments e) f) (\<lambda>a s2.
       (Inr a, if v_audit_no_op v then s2 else emit_audit E v (ke_name e) Read [] s2)) s1"
  using assms by (simp add: with_key_def is_locked_out_def Let_def)

lemma with_key_refused:
  assumes "with_key E v h f s = (r, s')"
    and "locked_out s \<or> kv_get (handle_id h) (keys s) = None \<or>
         (\<exists>e. kv_get (handle_id h) (keys s) = Some e \<and> fst (key_locked E (ke_name e) s))"
  shows "s' = s \<or> (\<exists>n. s' = snd (key_locked E n s))"
  using assms
  by (auto simp: with_key_def is_locked_out_def split: if_splits option.splits prod.splits bool.splits)
     (metis snd_conv)+

lemma with_key_inv:
  assumes "store_inv v k A s" "with_key E v h (pure_cb g) s = (r, s')"
  shows "store_inv v k A s'"
proof (cases "locked_out s \<or> kv_get (handle_id h) (keys s) = None \<or>
         (\<exists>e. kv_get (handle_id h) (keys s) = Some e \<and> fst (key_locked E (ke_name e) s))")
  case True
  from with_key_refused [OF assms(2) this] assms(1) show ?thesis
    by (auto simp: store_inv_def)
next
  case False
  then obtain e where e: "kv_get (handle_id h) (keys s) = Some e" "\<not> fst (key_locked E (ke_name e) s)" "\<not> locked_out s"
    by auto
  obtain s1 where kl: "key_locked E (ke_name e) s = (False, s1)"
    using e(2) by (cases "key_locked E (ke_name e) s") auto
  have inv1: "store_inv v k A s1"
    by (rule key_locked_inv [OF kl assms(1)])
  have k1: "keys s1 = keys s"
    using key_locked_fields(1) [of E "ke_name e" s] kl by simp
  obtain n bs md where "A (handle_id h) = Some (n, bs, md)"
    using store_inv_None [OF assms(1), of "handle_id h"] e(1) by (cases "A (handle_id h)") auto
  then have hold: "holds v (regions_tab s1) (ke_fragments e) (enc_bytes v bs)"
    using store_inv_get [OF inv1] e(1) k1 by (metis option.inject)
  obtain r2 s2 where rk: "read_key E v (ke_fragments e) (pure_cb g) s1 = (r2, s2)"
    by fastforce
  have inv2: "store_inv v k A s2"
    using read_key_frame [OF hold rk] by (intro store_inv_same_bytes [OF inv1]) simp_all
  show ?thesis
    using assms(2) inv2 rk unfolding with_key_entry [OF e(1,3) kl]
    by (auto simp: rbind_def split: sum.splits if_splits)
qed

end
