(* ===== verification/Master.thy ===== *)
theory Master
  imports Vault
begin

text \<open>
  The emergency unlock of \<^verbatim>\<open>src/src/vault/mod.rs\<close>: \<^verbatim>\<open>unlock_with_master\<close> with its
  exponential backoff. The constant-time comparison of the \<^verbatim>\<open>subtle\<close> crate is equality of
  the two byte strings.
\<close>

section \<open>Operations\<close>

definition backoff_delay :: "'w vault \<Rightarrow> nat \<Rightarrow> duration" where
  "backoff_delay v n =
     (let config = v_config v in
      if master_backoff_base config = 0 then 0
      else
        let shift = min (n - 1) 31 in
        min (case dur_checked_mul (master_backoff_base config) (2 ^ shift) of
               Some d \<Rightarrow> d | None \<Rightarrow> master_backoff_max config)
            (master_backoff_max config))"

text \<open>The closure over the stored verifier: the first 32 bytes key the hash of the attempt.\<close>

definition master_matches :: "blake3 \<Rightarrow> bytes \<Rightarrow> bytes \<Rightarrow> bool" where
  "master_matches b3 attempt stored =
     (if length stored < 32 then False
      else drop 32 stored = blake3_keyed_into b3 (take 32 stored) attempt 32)"

definition backoff_after :: "'w vault \<Rightarrow> duration \<Rightarrow> bool \<Rightarrow> backoff \<Rightarrow> backoff" where
  "backoff_after v now matched b =
     (if matched then backoff_default
      else
        let n = (if failures b < u32_max then failures b + 1 else u32_max)
        in \<lparr>failures = n, next_allowed = dur_saturating_add now (backoff_delay v n)\<rparr>)"

definition unlock_with_master :: "'w env \<Rightarrow> 'w vault \<Rightarrow> bytes \<Rightarrow> ('w, unit) vop" where
  "unlock_with_master E v attempt s =
     (case v_master v of
        None \<Rightarrow> (Inl (Err (InvalidConfig
          ''vault has no master key registered; pass with_master_key at build time'')), s)
      | Some master \<Rightarrow>
          (case clock_now E s of
             (now, s1) \<Rightarrow>
               if now < next_allowed (master_backoff s1)
               then (Inl (Err (RateLimited (next_allowed (master_backoff s1) - now))), s1)
               else (case master of
                  MasterUnavailable reason \<Rightarrow> (Inl (Err (Internal reason)), s1)
                | MasterReady secret \<Rightarrow>
                    rbind (secret_read E secret (master_matches (env_blake3 E) attempt))
                      (\<lambda>matched s2.
                        let s3 = s2\<lparr>master_backoff := backoff_after v now matched (master_backoff s2)\<rparr>;
                            s4 = emit_audit E v MASTER_NAME (MasterUnlockAttempt matched) [] s3
                        in if matched then (Inr (), clear_lockout s4)
                           else (Inl (Err (Acquisition ''master'' ''master credential did not match'')),
                                 handle_failure E v MASTER_NAME (Some ''invalid master credential'') False s4))
                      s1)))"

definition has_master_key :: "'w vault \<Rightarrow> bool" where
  "has_master_key v \<longleftrightarrow> v_master v \<noteq> None"

section \<open>The delay\<close>

lemma backoff_delay_le: "backoff_delay v n \<le> master_backoff_max (v_config v)"
  by (simp add: backoff_delay_def Let_def)

lemma backoff_delay_first:
  assumes "master_backoff_base (v_config v) \<le> master_backoff_max (v_config v)"
    "master_backoff_base (v_config v) \<le> duration_max"
  shows "backoff_delay v 1 = master_backoff_base (v_config v)"
  using assms by (simp add: backoff_delay_def Let_def dur_checked_mul_def)

text \<open>
  Up to 32 failures the delay is the base doubled once per further failure, capped; from
  then on it does not grow, whatever the cap.
\<close>

lemma backoff_delay_eq:
  assumes "master_backoff_max (v_config v) \<le> duration_max" "1 \<le> n"
  shows "backoff_delay v n =
    min (master_backoff_base (v_config v) * 2 ^ (min n 32 - 1)) (master_backoff_max (v_config v))"
proof -
  have "min (n - 1) 31 = min n 32 - 1"
    using assms(2) by auto
  then show ?thesis
    using assms(1) by (auto simp: backoff_delay_def Let_def dur_checked_mul_def)
qed

lemma backoff_delay_mono:
  assumes "master_backoff_max (v_config v) \<le> duration_max" "1 \<le> m" "m \<le> n"
  shows "backoff_delay v m \<le> backoff_delay v n"
proof -
  have "(2::nat) ^ (min m 32 - 1) \<le> 2 ^ (min n 32 - 1)"
    using assms(2,3) by (intro power_increasing) auto
  then have "master_backoff_base (v_config v) * 2 ^ (min m 32 - 1) \<le>
      master_backoff_base (v_config v) * 2 ^ (min n 32 - 1)"
    by (rule mult_left_mono) simp
  moreover have "1 \<le> n" using assms(2,3) by simp
  ultimately show ?thesis
    unfolding backoff_delay_eq [OF assms(1,2)] backoff_delay_eq [OF assms(1) \<open>1 \<le> n\<close>]
    by (intro min.mono order_refl)
qed

end
