(* ===== verification/Reachable.thy ===== *)
theory Reachable
  imports Refinement Master
begin

text \<open>
  The vault as a state machine: every public operation of \<^verbatim>\<open>KeyVault\<close> is a step, and the
  world may change between steps (time passes, other code draws random bytes). The
  specification runs beside the vault, and in every reachable state the two agree, the
  counter of per-key locks is right, and the scratch buffer holds nothing but zeros.
\<close>

section \<open>What the registry operations do not touch\<close>

definition store_only :: "'w vstate \<Rightarrow> 'w vstate \<Rightarrow> bool" where
  "store_only s s' \<longleftrightarrow> locked_out s' = locked_out s \<and> key_locks s' = key_locks s \<and>
     key_locks_active s' = key_locks_active s \<and> failure_tracker s' = failure_tracker s \<and>
     scratch s' = scratch s \<and> scratch_borrowed s' = scratch_borrowed s \<and>
     master_backoff s' = master_backoff s \<and> monitor_log s' = monitor_log s"

lemma store_only_refl [simp]: "store_only s s"
  by (simp add: store_only_def)

lemma store_only_trans: "store_only a b \<Longrightarrow> store_only b c \<Longrightarrow> store_only a c"
  by (simp add: store_only_def)

lemma store_only_rbind:
  assumes "store_only s (snd (m s))" "\<And>a s1. store_only s1 (snd (f a s1))"
  shows "store_only s (snd (rbind m f s))"
  using assms by (auto simp: rbind_def split: prod.splits sum.splits intro: store_only_trans)

lemma store_only_secret_read: "store_only s (snd (secret_read E st f s))"
  by (simp add: secret_read_def store_only_def split: prod.split sum.split)

lemma store_only_pipeline: "store_only s (snd (fragment_pipeline E v key s))"
  unfolding fragment_pipeline_def
proof (rule store_only_rbind)
  show "store_only s (snd (normalize E v key s))"
    by (auto simp: normalize_def split: normalizer.split
        intro!: store_only_rbind store_only_secret_read)
qed (simp add: on_world_def store_only_def Let_def split: prod.split)

lemma store_only_for_registry: "store_only s (snd (fragment_for_registry E v key s))"
  unfolding fragment_for_registry_def
  by (rule store_only_rbind [OF store_only_pipeline])
     (simp add: protect_fragments_def store_only_def split: prod.split sum.split)

lemma store_only_emit: "store_only s (emit_audit E v n kd nt s)"
  by (simp add: store_only_def)

lemma store_only_release: "store_only s (release_entry E m i s)"
  by (simp add: release_entry_def free_storage_def store_only_def split: option.split prod.split)

lemma store_only_register: "store_only s (snd (register E v name key s))"
proof -
  have inst: "store_only t (snd (register_install E v name st h md t))" for st h md t
    by (simp add: register_install_def Let_def free_storage_def store_only_def split: prod.split option.split)
       (simp add: release_entry_def free_storage_def split: option.split prod.split)
  have "store_only t (snd (let (h, s2) = allocate_handle t; (t, s3) = clock_unix_time E s2
          in register_install E v name st h (key_metadata_new t (length key) None) s3))" for t st
    by (auto simp: Let_def split_beta intro!: store_only_trans [OF _ inst])
       (simp add: store_only_def allocate_handle_def clock_unix_time_def split: prod.split)
  then show ?thesis
    by (auto simp: register_def intro!: store_only_rbind store_only_for_registry)
qed

lemma store_only_unregister: "store_only s (snd (unregister E v h s))"
  by (simp add: unregister_def Let_def release_entry_def free_storage_def store_only_def
      split: option.split prod.split)

lemma store_only_rotate_rest:
  "store_only t (snd (let (t', s3) = clock_unix_time E t
      in rotate_install E v h st (key_metadata_new t' (length key) None) s3))"
  by (simp add: Let_def split_beta rotate_install_def release_entry_def free_storage_def clock_unix_time_def
      store_only_def split: option.split prod.split)

lemma store_only_fragment: "store_only s (snd (vault_fragment E v key s))"
  using store_only_pipeline [of s E v key] store_only_emit store_only_trans
  by (fastforce simp: vault_fragment_def split: prod.split sum.split)

lemma store_only_defragment: "store_only s (snd (vault_defragment E v fr s))"
  by (simp add: vault_defragment_def Let_def store_only_def split: sum.split)

section \<open>The invariant\<close>

definition aux_inv :: "'w vstate \<Rightarrow> bool" where
  "aux_inv s \<longleftrightarrow> locks_inv s \<and> \<not> scratch_borrowed s \<and> set (scratch s) \<subseteq> {0}"

lemma aux_inv_store_only: "store_only s s' \<Longrightarrow> aux_inv s \<Longrightarrow> aux_inv s'"
  by (simp add: aux_inv_def store_only_def locks_inv_def)

lemma aux_inv_key_locked: "aux_inv s \<Longrightarrow> aux_inv (snd (key_locked E n s))"
  by (simp add: aux_inv_def key_locked_locks_inv)

lemma end_read_zero:
  "set (drop n b) \<subseteq> {0} \<Longrightarrow> set (scratch (end_read n b s)) \<subseteq> {0}"
  by (auto simp: end_read_def volatile_zero_slice_def)

lemma reassemble_length:
  assumes "fragmenter_ok (v_fragmenter v)" "reassemble E v st out s = (r, out', s')"
  shows "length out' = length out" "scratch s' = scratch s" "scratch_borrowed s' = scratch_borrowed s"
    "locked_out s' = locked_out s" "key_locks s' = key_locks s" "key_locks_active s' = key_locks_active s"
    "audit_log s' = audit_log s"
  using assms(2) fragment_strategy.into_length [OF fragmenter_contract [OF assms(1)]]
  by (auto simp: reassemble_def Let_def codex_decode_in_place_def
      split: if_splits sum.splits prod.splits option.splits)

text \<open>
  However \<open>read_key\<close> ends (an error, a panic, a value), the buffer is zero and the borrow is
  over.
\<close>

lemma read_key_scratch:
  assumes "fragmenter_ok (v_fragmenter v)" "aux_inv s" "read_key E v st f s = (r, s')"
  shows "\<not> scratch_borrowed s' \<and> set (scratch s') \<subseteq> {0}"
proof -
  let ?n = "storage_total_len st"
  let ?buf = "ensure_len ?n (scratch s)"
  have buf: "set ?buf \<subseteq> {0}" "?n \<le> length ?buf"
    using assms(2) by (auto simp: aux_inv_def ensure_len_def)
  obtain x out s2 where re: "reassemble E v st (take ?n ?buf) (s\<lparr>scratch := ?buf, scratch_borrowed := True\<rparr>) = (x, out, s2)"
    by (metis prod_cases3)
  have "length out = ?n"
    using reassemble_length(1) [OF assms(1) re] buf(2) by simp
  then have z: "set (drop ?n (out @ drop ?n ?buf)) \<subseteq> {0}"
    using buf(1) by (auto dest: in_set_dropD)
  show ?thesis
    using assms(2,3) re end_read_zero [OF z]
    by (auto simp: read_key_def Let_def aux_inv_def split: sum.splits prod.splits option.splits if_splits)
qed

lemma read_key_locks:
  assumes "fragmenter_ok (v_fragmenter v)" "read_key E v st (pure_cb g) s = (r, s')"
  shows "key_locks s' = key_locks s \<and> key_locks_active s' = key_locks_active s \<and> locked_out s' = locked_out s \<and>
    audit_log s' = audit_log s"
proof -
  let ?n = "storage_total_len st"
  let ?buf = "ensure_len ?n (scratch s)"
  obtain x out s2 where re: "reassemble E v st (take ?n ?buf) (s\<lparr>scratch := ?buf, scratch_borrowed := True\<rparr>) = (x, out, s2)"
    by (metis prod_cases3)
  show ?thesis
    using assms(2) re reassemble_length [OF assms(1) re]
    by (auto simp: read_key_def Let_def pure_cb_def split: if_splits sum.splits option.splits)
qed

lemma aux_inv_with_key:
  assumes "fragmenter_ok (v_fragmenter v)" "aux_inv s" "with_key E v h (pure_cb g) s = (r, s')"
  shows "aux_inv s'"
proof (cases "locked_out s \<or> kv_get (handle_id h) (keys s) = None \<or>
         (\<exists>e. kv_get (handle_id h) (keys s) = Some e \<and> fst (key_locked E (ke_name e) s))")
  case True
  from with_key_refused [OF assms(3) this] assms(2) show ?thesis
    by (auto intro: aux_inv_key_locked)
next
  case False
  then obtain e where e: "kv_get (handle_id h) (keys s) = Some e" "\<not> fst (key_locked E (ke_name e) s)" "\<not> locked_out s"
    by auto
  obtain s1 where kl: "key_locked E (ke_name e) s = (False, s1)"
    using e(2) by (cases "key_locked E (ke_name e) s") auto
  have a1: "aux_inv s1"
    using aux_inv_key_locked [OF assms(2), of E "ke_name e"] kl by simp
  obtain r2 s2 where rk: "read_key E v (ke_fragments e) (pure_cb g) s1 = (r2, s2)"
    by fastforce
  have "aux_inv s2"
    using read_key_scratch [OF assms(1) a1 rk] read_key_locks [OF assms(1) rk] a1
    by (simp add: aux_inv_def locks_inv_def)
  then show ?thesis
    using assms(3) rk unfolding with_key_entry [OF e(1,3) kl]
    by (auto simp: rbind_def intro: aux_inv_store_only [OF store_only_emit] split: sum.splits if_splits)
qed

lemma aux_inv_rotate:
  assumes "aux_inv s" shows "aux_inv (snd (rotate E v h key s))"
proof -
  have "aux_inv t \<Longrightarrow> aux_inv (snd (rbind (fragment_for_registry E v key) (\<lambda>st s2.
      let (t, s3) = clock_unix_time E s2
      in rotate_install E v h st (key_metadata_new t (length key) None) s3) t))" for t
    by (rule aux_inv_store_only [OF store_only_rbind [OF store_only_for_registry store_only_rotate_rest]])
  then show ?thesis
    using assms aux_inv_key_locked [OF assms, of E]
    by (auto simp: rotate_def split: option.split prod.split bool.split) (metis snd_conv)+
qed

section \<open>Failures and unlocking leave the store alone\<close>

lemma record_failure_store [simp]:
  "keys (snd (record_failure E v n p s)) = keys s"
  "regions_tab (snd (record_failure E v n p s)) = regions_tab s"
  "region_next (snd (record_failure E v n p s)) = region_next s"
  "scratch (snd (record_failure E v n p s)) = scratch s"
  "scratch_borrowed (snd (record_failure E v n p s)) = scratch_borrowed s"
  "audit_log (snd (record_failure E v n p s)) = audit_log s"
  by (simp_all add: record_failure_def clock_now_def Let_def split_beta)

lemma vault_threshold_store [simp]:
  "keys (vault_threshold v n c s) = keys s"
  "regions_tab (vault_threshold v n c s) = regions_tab s"
  "region_next (vault_threshold v n c s) = region_next s"
  "scratch (vault_threshold v n c s) = scratch s"
  "scratch_borrowed (vault_threshold v n c s) = scratch_borrowed s"
  "audit_log (vault_threshold v n c s) = audit_log s"
  by (simp_all add: vault_threshold_def Let_def)

lemma key_threshold_block_store [simp]:
  "keys (key_threshold_block E v n kt c s) = keys s"
  "regions_tab (key_threshold_block E v n kt c s) = regions_tab s"
  "region_next (key_threshold_block E v n kt c s) = region_next s"
  "scratch (key_threshold_block E v n kt c s) = scratch s"
  "scratch_borrowed (key_threshold_block E v n kt c s) = scratch_borrowed s"
  "audit_log (key_threshold_block E v n kt c s) = audit_log s"
  by (simp_all add: key_threshold_block_def clock_now_def Let_def split_beta split: option.split)

lemma handle_failure_store [simp]:
  "keys (handle_failure E v n nt p s) = keys s"
  "regions_tab (handle_failure E v n nt p s) = regions_tab s"
  "region_next (handle_failure E v n nt p s) = region_next s"
  "scratch (handle_failure E v n nt p s) = scratch s"
  "scratch_borrowed (handle_failure E v n nt p s) = scratch_borrowed s"
  "audit_log (handle_failure E v n nt p s) = audit_log s"
  by (simp_all add: handle_failure_def Let_def split_beta)

lemma handle_failure_inv:
  "store_inv v k A s \<Longrightarrow> store_inv v k A (handle_failure E v n nt p s)"
  "aux_inv s \<Longrightarrow> aux_inv (handle_failure E v n nt p s)"
  by (simp_all add: store_inv_def aux_inv_def handle_failure_locks_inv)

lemma clear_lockout_inv:
  "store_inv v k A s \<Longrightarrow> store_inv v k A (clear_lockout s)" "aux_inv s \<Longrightarrow> aux_inv (clear_lockout s)"
  by (simp_all add: store_inv_def aux_inv_def clear_lockout_locks_inv) (simp_all add: clear_lockout_def)

lemma clear_key_lockout_inv:
  "store_inv v k A s \<Longrightarrow> store_inv v k A (snd (clear_key_lockout n s))"
  "aux_inv s \<Longrightarrow> aux_inv (snd (clear_key_lockout n s))"
  by (simp_all add: store_inv_def aux_inv_def clear_key_lockout_locks_inv) (simp_all add: clear_key_lockout_def Let_def)

lemma is_key_locked_out_inv:
  "store_inv v k A s \<Longrightarrow> store_inv v k A (snd (is_key_locked_out E h s))"
  "aux_inv s \<Longrightarrow> aux_inv (snd (is_key_locked_out E h s))"
  by (auto simp: is_key_locked_out_def aux_inv_key_locked split: option.split) (simp add: store_inv_def)

lemma unlock_with_master_inv:
  assumes "store_inv v k A s" "aux_inv s" "unlock_with_master E v attempt s = (r, s')"
  shows "store_inv v k A s' \<and> aux_inv s'"
proof -
  obtain now s1 where t: "clock_now E s = (now, s1)" by fastforce
  have s1: "store_inv v k A s1" "aux_inv s1"
    using assms(1,2) t by (auto simp: clock_now_def store_inv_def aux_inv_def locks_inv_def split: prod.splits)
  show ?thesis
  proof (cases "\<exists>st. v_master v = Some (MasterReady st) \<and> \<not> now < next_allowed (master_backoff s1)")
    case False
    then show ?thesis
      using assms t s1
      by (auto simp: unlock_with_master_def split: option.splits if_splits master_verifier.splits)
  next
    case True
    then obtain st where st: "v_master v = Some (MasterReady st)" "\<not> now < next_allowed (master_backoff s1)"
      by blast
    obtain x s2 where rd: "secret_read E st (master_matches (env_blake3 E) attempt) s1 = (x, s2)"
      by fastforce
    have "secret_holds (regions_tab s1) st (master_stored k)"
      using s1(1) st(1) by (simp add: store_inv_def secrets_ok_def)
    from secret_read_frame [OF rd this] obtain w rs where
      s2: "s2 = s1\<lparr>world := w, regions_tab := rs\<rparr>" "same_bytes (regions_tab s1) rs"
      by blast
    have i2: "store_inv v k A s2" "aux_inv s2"
      using s2 s1(2) store_inv_same_bytes [OF s1(1), of s2]
      by (simp_all add: aux_inv_def locks_inv_def)
    have b: "store_inv v k A (emit_audit E v n kd nt (s2\<lparr>master_backoff := bo\<rparr>))"
      "aux_inv (emit_audit E v n kd nt (s2\<lparr>master_backoff := bo\<rparr>))" for n kd nt bo
      using i2 by (simp_all add: store_inv_def aux_inv_def locks_inv_def)
    show ?thesis
      using assms(3) t st rd i2
      by (auto simp: unlock_with_master_def rbind_def Let_def split: sum.splits if_splits
          intro: handle_failure_inv clear_lockout_inv b)
  qed
qed

lemma vault_fragment_inv:
  assumes "store_inv v k A s" "vault_fragment E v key s = (r, s')"
  shows "store_inv v k A s'"
proof -
  obtain r1 s1 where p: "fragment_pipeline E v key s = (r1, s1)" by fastforce
  have "store_inv v k A s1"
    using fragment_pipeline_frame [OF assms(1) p] store_inv_same_bytes [OF assms(1), of s1] by auto
  then show ?thesis
    using assms p by (auto simp: vault_fragment_def split: if_splits sum.splits)
qed

section \<open>Reachable states\<close>

inductive reach :: "'w env \<Rightarrow> 'w vault \<Rightarrow> secrets \<Rightarrow> 'w vstate \<Rightarrow> spec \<Rightarrow> bool" for E v k where
  built: "keys s = [] \<Longrightarrow> secret_ids v \<subseteq> {..<region_next s} \<Longrightarrow> secrets_ok v k (regions_tab s) \<Longrightarrow>
    key_locks s = Map.empty \<Longrightarrow> key_locks_active s = 0 \<Longrightarrow> scratch s = [] \<Longrightarrow> \<not> scratch_borrowed s \<Longrightarrow>
    \<not> locked_out s \<Longrightarrow> failure_tracker s = Map.empty \<Longrightarrow> master_backoff s = backoff_default \<Longrightarrow>
    audit_log s = [] \<Longrightarrow> monitor_log s = [] \<Longrightarrow> reach E v k s Map.empty"
| tick: "reach E v k s A \<Longrightarrow> reach E v k (s\<lparr>world := w\<rparr>) A"
| register_ok: "reach E v k s A \<Longrightarrow> register E v name key s = (Inr h, s') \<Longrightarrow> metadata h s' = Some md \<Longrightarrow>
    reach E v k s' (A(handle_id h \<mapsto> (name, norm_value E v k key, md)))"
| register_err: "reach E v k s A \<Longrightarrow> register E v name key s = (Inl e, s') \<Longrightarrow> reach E v k s' A"
| rotate_ok: "reach E v k s A \<Longrightarrow> A (handle_id h) = Some (n, old) \<Longrightarrow> rotate E v h key s = (Inr (), s') \<Longrightarrow>
    metadata h s' = Some md \<Longrightarrow> reach E v k s' (A(handle_id h \<mapsto> (n, norm_value E v k key, md)))"
| rotate_err: "reach E v k s A \<Longrightarrow> rotate E v h key s = (Inl e, s') \<Longrightarrow> reach E v k s' A"
| unregister_ok: "reach E v k s A \<Longrightarrow> unregister E v h s = (Inr (), s') \<Longrightarrow> reach E v k s' (A(handle_id h := None))"
| unregister_err: "reach E v k s A \<Longrightarrow> unregister E v h s = (Inl e, s') \<Longrightarrow> reach E v k s' A"
| with_key: "reach E v k s A \<Longrightarrow> with_key E v h (pure_cb (g :: bytes \<Rightarrow> unit option)) s = (r, s') \<Longrightarrow> reach E v k s' A"
| fragment: "reach E v k s A \<Longrightarrow> vault_fragment E v key s = (r, s') \<Longrightarrow> reach E v k s' A"
| defragment: "reach E v k s A \<Longrightarrow> vault_defragment E v fr s = (r', s') \<Longrightarrow> reach E v k s' A"
| failure: "reach E v k s A \<Longrightarrow> reach E v k (report_failure E v n nt s) A"
| anomalous: "reach E v k s A \<Longrightarrow> reach E v k (report_anomalous_access n nt s) A"
| key_locked_out: "reach E v k s A \<Longrightarrow> is_key_locked_out E h s = (b, s') \<Longrightarrow> reach E v k s' A"
| clear_key: "reach E v k s A \<Longrightarrow> clear_key_lockout n s = (b, s') \<Longrightarrow> reach E v k s' A"
| clear_all: "reach E v k s A \<Longrightarrow> reach E v k (clear_lockout s) A"
| unlock: "reach E v k s A \<Longrightarrow> unlock_with_master E v attempt s = (u, s') \<Longrightarrow> reach E v k s' A"

lemma metadata_inv:
  assumes "store_inv v k A s" shows "metadata h s = map_option (\<lambda>(n, bs, md). md) (A (handle_id h))"
proof (cases "A (handle_id h)")
  case None
  then show ?thesis
    using store_inv_None [OF assms] by (simp add: metadata_def)
next
  case (Some a)
  then show ?thesis
    using store_inv_get [OF assms, of "handle_id h" "fst a" "fst (snd a)" "snd (snd a)"]
    by (cases a) (auto simp: metadata_def)
qed

lemma reach_inv:
  assumes "vault_ok v" "reach E v k s A"
  shows "store_inv v k A s \<and> aux_inv s"
  using assms(2)
proof (induction rule: reach.induct)
  case (built s)
  then show ?case
    by (simp add: store_inv_def aux_inv_def locks_inv_def names_inv_def spec_rel_def kv_get_def apart_def)
next
  case (tick s A w)
  then show ?case by (simp add: store_inv_def aux_inv_def locks_inv_def)
next
  case (register_ok s A name key h s' md)
  then obtain t where i: "store_inv v k (A(handle_id h \<mapsto>
      (name, norm_value E v k key, key_metadata_new t (length key) None))) s'"
    using register_refines [OF assms(1) _ register_ok.hyps(2)] by auto
  have "md = key_metadata_new t (length key) None"
    using metadata_inv [OF i, of h] register_ok.hyps(3) by simp
  moreover have "aux_inv s'"
    using register_ok store_only_register [of s E v name key] by (auto intro: aux_inv_store_only)
  ultimately show ?case
    using i by blast
next
  case (register_err s A name key e s')
  then show ?case
    using register_refines [OF assms(1) _ register_err.hyps(2)] store_only_register [of s E v name key]
    by (auto intro: aux_inv_store_only)
next
  case (rotate_ok s A h n old key s' md)
  then obtain t where i: "store_inv v k (A(handle_id h \<mapsto>
      (n, norm_value E v k key, key_metadata_new t (length key) None))) s'"
    using rotate_refines [OF assms(1) conjunct1 [OF rotate_ok.IH] rotate_ok.hyps(3)] rotate_ok.hyps(2) by auto
  have "md = key_metadata_new t (length key) None"
    using metadata_inv [OF i, of h] rotate_ok.hyps(4) by simp
  moreover have "aux_inv s'"
    using rotate_ok aux_inv_rotate [of s E v h key] by auto
  ultimately show ?case
    using i by blast
next
  case (rotate_err s A h key e s')
  then show ?case
    using rotate_refines [OF assms(1) _ rotate_err.hyps(2)] aux_inv_rotate [of s E v h key] by auto
next
  case (unregister_ok s A h s')
  then have "aux_inv s'"
    using store_only_unregister [of s E v h] by (auto intro: aux_inv_store_only)
  then show ?case
    using unregister_refines [OF conjunct1 [OF unregister_ok.IH] unregister_ok.hyps(2)] by blast
next
  case (unregister_err s A h e s')
  then show ?case
    using unregister_refines [OF _ unregister_err.hyps(2)] by auto
next
  case (with_key s A h g r s')
  then show ?case
    using assms(1) by (auto simp: vault_ok_def intro: with_key_inv aux_inv_with_key)
next
  case (fragment s A key r s')
  then show ?case
    using vault_fragment_inv [OF _ fragment.hyps(2)] store_only_fragment [of s E v key]
    by (auto intro: aux_inv_store_only)
next
  case (defragment s A fr r' s')
  then have "store_inv v k A s'"
    by (auto simp: vault_defragment_def Let_def split: if_splits sum.splits)
  then show ?case
    using defragment store_only_defragment [of s E v fr] by (auto intro: aux_inv_store_only)
next
  case (unlock s A attempt u s')
  then show ?case
    using unlock_with_master_inv by blast
next
  case (failure s A n nt)
  then show ?case
    by (simp add: report_failure_def handle_failure_inv)
next
  case (anomalous s A n nt)
  then show ?case
    by (simp add: report_anomalous_access_def Let_def store_inv_def aux_inv_def locks_inv_def)
next
  case (key_locked_out s A h b s')
  then show ?case
    using is_key_locked_out_inv [where E = E and h = h and s = s] by (metis snd_conv)
next
  case (clear_key s A n b s')
  then show ?case
    using clear_key_lockout_inv [where n = n and s = s] by (metis snd_conv)
next
  case (clear_all s A)
  then show ?case
    by (simp add: clear_lockout_inv)
qed

end
