(* ===== verification/Builder.thy ===== *)
theory Builder
  imports Reachable
begin

text \<open>
  \<^verbatim>\<open>KeyVaultBuilder\<close> of \<^verbatim>\<open>src/src/vault/mod.rs\<close>: the fluent configuration, the feature table
  of \<^verbatim>\<open>from_features\<close>, and \<^verbatim>\<open>finish\<close>, which makes the vault's secrets and its initial state.
  The Cargo features are a record of flags. A vault that \<^verbatim>\<open>finish\<close> returns starts in a state
  from which the theory \<open>Reachable\<close> speaks.
\<close>

section \<open>State\<close>

datatype 'w builder_fragmenter = BStandard "'w standard_fragmenter" | BCustom "'w strategy"

datatype normalization_key_choice = NKNone | NKRandom | NKDerived bytes

text \<open>\<^verbatim>\<open>Result<Arc<LockedBytes>, &'static str>\<close>: the stored verifier, or why there is none.\<close>

type_synonym master_seed = "string + bytes"

record ('w, 'm, 'a) builder =
  b_config :: vault_config
  b_fragmenter :: "'w builder_fragmenter"
  decoy_without_standard :: bool
  b_codex :: "codex option"
  b_monitor :: "'m monitor option"
  b_audit :: "'a audit_sink option"
  b_master :: "master_seed option"
  b_normalization_key :: normalization_key_choice
  decoy_set :: bool

definition builder_new :: "('w, 'm, 'a) builder" where
  "builder_new =
     \<lparr>b_config = vault_config_new, b_fragmenter = BStandard standard_new,
      decoy_without_standard = False, b_codex = None, b_monitor = None, b_audit = None,
      b_master = None, b_normalization_key = NKNone, decoy_set = False\<rparr>"

section \<open>Options\<close>

definition decoy_ignored :: "('w, 'm, 'a) builder \<Rightarrow> bool" where
  "decoy_ignored b \<longleftrightarrow>
     (decoy_set b \<and> (case b_fragmenter b of BCustom c \<Rightarrow> True | BStandard s \<Rightarrow> False)) \<or>
     decoy_without_standard b"

definition normalize_with_blake3 :: "bool \<Rightarrow> ('w, 'm, 'a) builder \<Rightarrow> ('w, 'm, 'a) builder" where
  "normalize_with_blake3 enabled b = b\<lparr>b_config := (b_config b)\<lparr>key_normalization := enabled\<rparr>\<rparr>"

definition with_keyed_normalization :: "('w, 'm, 'a) builder \<Rightarrow> ('w, 'm, 'a) builder" where
  "with_keyed_normalization b =
     b\<lparr>b_config := (b_config b)\<lparr>key_normalization := True, keyed_normalization := True\<rparr>,
       b_normalization_key := NKRandom\<rparr>"

definition with_normalization_key :: "blake3 \<Rightarrow> bytes \<Rightarrow> ('w, 'm, 'a) builder \<Rightarrow> ('w, 'm, 'a) builder" where
  "with_normalization_key b3 key b =
     (let derived = blake3_derive_into b3 NORMALIZATION_KEY_CONTEXT key 32 in
      b\<lparr>b_config := (b_config b)\<lparr>key_normalization := True, keyed_normalization := True\<rparr>,
        b_normalization_key := NKDerived derived\<rparr>)"

definition with_fragmenter :: "'w strategy \<Rightarrow> ('w, 'm, 'a) builder \<Rightarrow> ('w, 'm, 'a) builder" where
  "with_fragmenter f b = b\<lparr>b_fragmenter := BCustom f\<rparr>"

definition with_chunk_range :: "nat \<Rightarrow> nat \<Rightarrow> ('w, 'm, 'a) builder \<Rightarrow> ('w, 'm, 'a) builder" where
  "with_chunk_range mn mx b =
     b\<lparr>b_fragmenter := BStandard (standard_with_chunk_range mn mx), decoy_set := False,
       decoy_without_standard := False\<rparr>"

definition with_codex :: "codex \<Rightarrow> ('w, 'm, 'a) builder \<Rightarrow> ('w, 'm, 'a) builder" where
  "with_codex c b = b\<lparr>b_codex := Some c\<rparr>"

definition with_decoy :: "'w decoy \<Rightarrow> ('w, 'm, 'a) builder \<Rightarrow> ('w, 'm, 'a) builder" where
  "with_decoy d b =
     (let b1 = (case b_fragmenter b of
                  BStandard standard \<Rightarrow> b\<lparr>b_fragmenter := BStandard (standard_with_decoy standard d)\<rparr>
                | BCustom custom \<Rightarrow> b\<lparr>b_fragmenter := BCustom custom, decoy_without_standard := True\<rparr>)
      in b1\<lparr>decoy_set := True\<rparr>)"

definition with_monitor :: "'m monitor \<Rightarrow> ('w, 'm, 'a) builder \<Rightarrow> ('w, 'm, 'a) builder" where
  "with_monitor m b = b\<lparr>b_monitor := Some m\<rparr>"

definition with_failure_threshold :: "nat \<Rightarrow> duration \<Rightarrow> ('w, 'm, 'a) builder \<Rightarrow> ('w, 'm, 'a) builder" where
  "with_failure_threshold mx window b =
     b\<lparr>b_config := (b_config b)\<lparr>max_failures_before_lockout := mx, failure_window := window\<rparr>\<rparr>"

definition with_key_lockout ::
  "nat \<Rightarrow> duration \<Rightarrow> duration option \<Rightarrow> ('w, 'm, 'a) builder \<Rightarrow> ('w, 'm, 'a) builder" where
  "with_key_lockout mx window lock_for b =
     b\<lparr>b_config := (b_config b)\<lparr>key_lockout_threshold := mx, key_lockout_window := window,
                                key_lockout_duration := lock_for\<rparr>\<rparr>"

definition with_master_unlock_backoff ::
  "duration \<Rightarrow> duration \<Rightarrow> ('w, 'm, 'a) builder \<Rightarrow> ('w, 'm, 'a) builder" where
  "with_master_unlock_backoff base_delay mx b =
     b\<lparr>b_config := (b_config b)\<lparr>master_backoff_base := base_delay,
                                master_backoff_max := max mx base_delay\<rparr>\<rparr>"

definition with_page_protection :: "bool \<Rightarrow> ('w, 'm, 'a) builder \<Rightarrow> ('w, 'm, 'a) builder" where
  "with_page_protection enabled b = b\<lparr>b_config := (b_config b)\<lparr>page_protection := enabled\<rparr>\<rparr>"

definition with_audit_sink :: "'a audit_sink \<Rightarrow> ('w, 'm, 'a) builder \<Rightarrow> ('w, 'm, 'a) builder" where
  "with_audit_sink sink b = b\<lparr>b_audit := Some sink\<rparr>"

definition with_master_key ::
  "'w env \<Rightarrow> bytes \<Rightarrow> ('w, 'm, 'a) builder \<Rightarrow> 'w \<Rightarrow> ('w, 'm, 'a) builder \<times> 'w" where
  "with_master_key E master b w =
     (case fill (env_rng E) 32 w of
        (Inr hash_key, w1) \<Rightarrow>
          (b\<lparr>b_master := Some (Inr (hash_key @ blake3_keyed_into (env_blake3 E) hash_key master 32))\<rparr>, w1)
      | (Inl e, w1) \<Rightarrow>
          (b\<lparr>b_master := Some (Inl ''RNG failed while setting up the master key verifier'')\<rparr>, w1))"

section \<open>Cargo features\<close>

record features =
  fragment_layered :: bool
  fragment_random :: bool
  fragment_interleaved :: bool
  decoy_self_ref :: bool
  decoy_key_derived :: bool
  decoy_random :: bool
  feat_codex :: bool
  monitor_tracing :: bool
  feat_audit :: bool

definition feature_standard :: "features \<Rightarrow> 'w env \<Rightarrow> 'w standard_fragmenter" where
  "feature_standard fe E =
     (if decoy_self_ref fe then standard_with_decoy standard_new (self_reference_decoy (env_rng E))
      else if decoy_key_derived fe
           then standard_with_decoy standard_new (key_derived_decoy (env_rng E) (env_blake3 E))
      else if decoy_random fe then standard_with_decoy standard_new (random_decoy (env_rng E))
      else standard_new)"

definition feature_fragmenter :: "features \<Rightarrow> 'w env \<Rightarrow> 'w builder_fragmenter result" where
  "feature_fragmenter fe E =
     (let gr = env_rng E; standard = feature_standard fe E in
      if fragment_layered fe
      then ebind (layered_new [standard_strategy gr standard, interleaved_strategy gr interleaved_new,
                               random_strategy gr random_new])
                 (\<lambda>l. Inr (BCustom (layered_strategy gr l)))
      else if fragment_random fe then Inr (BCustom (random_strategy gr random_new))
      else if fragment_interleaved fe then Inr (BCustom (interleaved_strategy gr interleaved_new))
      else Inr (BStandard standard))"

definition from_features ::
  "features \<Rightarrow> 'w env \<Rightarrow> ('w, ('w, log_record list, log_record list) builder) rand" where
  "from_features fe E =
     rbind (rlift (feature_fragmenter fe E)) (\<lambda>f.
     rbind (if feat_codex fe
            then rbind (dynamic_new (env_rng E)) (\<lambda>d. rret (Some (dynamic_as_codex d)))
            else rret None) (\<lambda>c.
     rret (builder_new\<lparr>b_fragmenter := f, b_codex := c,
             b_monitor := (if monitor_tracing fe then Some log_monitor else None),
             b_audit := (if monitor_tracing fe \<and> feat_audit fe then Some log_audit else None)\<rparr>)))"

section \<open>Building\<close>

text \<open>
  The region table while the secrets are made: the regions so far, the next identity, and
  the world.
\<close>

definition secret_or_unavailable ::
  "'w env \<Rightarrow> bytes \<Rightarrow> bool \<Rightarrow> regions \<times> nat \<times> 'w \<Rightarrow> normalizer \<times> regions \<times> nat \<times> 'w" where
  "secret_or_unavailable E key protect t =
     (case t of (rs, rn, w) \<Rightarrow>
        (case secret_new (env_os E) rn rs key protect w of
           (Inr (secret, rs'), w') \<Rightarrow> (NormKeyed secret, rs', Suc rn, w')
         | (Inl e, w') \<Rightarrow>
             (NormUnavailable ''could not create the protected mapping for the normalization key'', rs, rn, w')))"

definition make_normalizer ::
  "'w env \<Rightarrow> ('w, 'm, 'a) builder \<Rightarrow> regions \<times> nat \<times> 'w \<Rightarrow> normalizer \<times> regions \<times> nat \<times> 'w" where
  "make_normalizer E b t =
     (if key_normalization (b_config b)
      then (case b_normalization_key b of
              NKNone \<Rightarrow> (NormPlain, t)
            | NKRandom \<Rightarrow>
                (case t of (rs, rn, w) \<Rightarrow>
                   (case fill (env_rng E) 32 w of
                      (Inr k, w1) \<Rightarrow> secret_or_unavailable E k (page_protection (b_config b)) (rs, rn, w1)
                    | (Inl e, w1) \<Rightarrow>
                        (NormUnavailable ''RNG failed while creating the normalization key'', rs, rn, w1)))
            | NKDerived k \<Rightarrow> secret_or_unavailable E k (page_protection (b_config b)) t)
      else (NormOff, t))"

definition make_master ::
  "'w env \<Rightarrow> ('w, 'm, 'a) builder \<Rightarrow> regions \<times> nat \<times> 'w \<Rightarrow> master_verifier option \<times> regions \<times> nat \<times> 'w" where
  "make_master E b t =
     (case b_master b of
        None \<Rightarrow> (None, t)
      | Some (Inl reason) \<Rightarrow> (Some (MasterUnavailable reason), t)
      | Some (Inr stored) \<Rightarrow>
          (case t of (rs, rn, w) \<Rightarrow>
             (case secret_new (env_os E) rn rs stored (page_protection (b_config b)) w of
                (Inr (secret, rs'), w') \<Rightarrow> (Some (MasterReady secret), rs', Suc rn, w')
              | (Inl e, w') \<Rightarrow>
                  (Some (MasterUnavailable
                     ''could not create the protected mapping for the master key verifier''), rs, rn, w'))))"

definition finish_monitor :: "('w, 'm, 'a) builder \<Rightarrow> 'm monitor" where
  "finish_monitor b = (case b_monitor b of Some m \<Rightarrow> m | None \<Rightarrow> no_monitor)"

definition finish_audit :: "('w, 'm, 'a) builder \<Rightarrow> 'a audit_sink" where
  "finish_audit b = (case b_audit b of Some a \<Rightarrow> a | None \<Rightarrow> no_audit)"

text \<open>
  \<^verbatim>\<open>finish\<close>, in a process whose id counter and world are given, on a thread that has not
  used its scratch buffer yet.
\<close>

definition finish ::
  "'w env \<Rightarrow> ('w, 'm, 'a) builder \<Rightarrow> u64 \<Rightarrow> 'w \<Rightarrow> 'w vault \<times> 'w vstate" where
  "finish E b ic w =
     (let (norm, t1) = make_normalizer E b (Map.empty, 0, w);
          (mast, rs, rn, w2) = make_master E b t1
      in (\<lparr>v_config = b_config b,
           v_fragmenter = (case b_fragmenter b of BStandard s \<Rightarrow> StandardF s | BCustom c \<Rightarrow> CustomF c),
           v_decoy_ignored = decoy_ignored b, v_normalizer = norm, v_codex = b_codex b,
           v_master = mast, v_audit_no_op = is_no_op (finish_audit b)\<rparr>,
          \<lparr>world = w2, id_counter = ic, regions_tab = rs, region_next = rn, keys = [],
           failure_tracker = Map.empty, locked_out = False, key_locks = Map.empty,
           key_locks_active = 0, master_backoff = backoff_default, scratch = [],
           scratch_borrowed = False, audit_log = [], monitor_log = []\<rparr>))"

section \<open>A built vault starts in a reachable state\<close>

definition fragmenter_choice_ok :: "'w builder_fragmenter \<Rightarrow> bool" where
  "fragmenter_choice_ok f = (case f of BStandard s \<Rightarrow> True | BCustom c \<Rightarrow> strategy_ok c)"

lemma secret_new_holds:
  assumes "secret_new os i rs bs protect w = (Inr (st, rs'), w')"
  shows "secret_holds rs' st bs" "region_ids st \<subseteq> {i}" "\<forall>j. j \<noteq> i \<longrightarrow> rs' j = rs j"
proof -
  let ?fr = "from_parts [bs] [] (length bs)"
  have "secret_holds rs' st bs \<and> region_ids st \<subseteq> {i} \<and> (\<forall>j. j \<noteq> i \<longrightarrow> rs' j = rs j)"
  proof (cases protect)
    case False
    then show ?thesis
      using assms by (auto simp: secret_new_def secret_holds_def idle_def contents_def chunk_def)
  next
    case True
    then have ip: "into_protected os i rs ?fr w = (Inr (st, rs'), w')"
      using assms by (simp add: secret_new_def)
    note c = into_protected_contents [OF ip from_parts_start]
    show ?thesis
      using c by (auto simp: secret_holds_def same_view_def chunk_def)
  qed
  then show "secret_holds rs' st bs" "region_ids st \<subseteq> {i}" "\<forall>j. j \<noteq> i \<longrightarrow> rs' j = rs j"
    by blast+
qed

lemma make_normalizer_secret:
  assumes "make_normalizer E b (Map.empty, 0, w) = (norm, rs, rn, w')"
  shows "(\<forall>st. norm \<noteq> NormKeyed st) \<or>
    (\<exists>st key. norm = NormKeyed st \<and> secret_holds rs st key \<and> region_ids st \<subseteq> {..<rn} \<and>
       (\<forall>d. b_normalization_key b = NKDerived d \<longrightarrow> key = d))"
proof -
  have s: "secret_or_unavailable E key protect (Map.empty, 0, w1) = (norm, rs, rn, w') \<Longrightarrow>
      (\<forall>st. norm \<noteq> NormKeyed st) \<or>
      (\<exists>st. norm = NormKeyed st \<and> secret_holds rs st key \<and> region_ids st \<subseteq> {..<rn})" for key protect w1
    using secret_new_holds [of "env_os E" 0 Map.empty key protect w1]
    by (fastforce simp: secret_or_unavailable_def split: prod.splits sum.splits)
  show ?thesis
    using assms s
    by (fastforce simp: make_normalizer_def split: if_splits normalization_key_choice.splits prod.splits sum.splits)
qed

lemma make_master_secret:
  assumes "make_master E b (rs, rn, w) = (mast, rs', rn', w')"
  shows "rn \<le> rn' \<and> (\<forall>j < rn. rs' j = rs j) \<and>
    ((\<forall>st. mast \<noteq> Some (MasterReady st)) \<or>
     (\<exists>st stored. mast = Some (MasterReady st) \<and> b_master b = Some (Inr stored) \<and> secret_holds rs' st stored \<and>
        region_ids st \<subseteq> {..<rn'}))"
proof (cases "\<exists>stored. b_master b = Some (Inr stored)")
  case False
  then show ?thesis
    using assms by (auto simp: make_master_def split: option.splits sum.splits)
next
  case True
  then obtain stored where st: "b_master b = Some (Inr stored)" by blast
  obtain x w1 where sn: "secret_new (env_os E) rn rs stored (page_protection (b_config b)) w = (x, w1)"
    by fastforce
  show ?thesis
  proof (cases x)
    case (Inl e)
    then show ?thesis
      using assms st sn by (auto simp: make_master_def)
  next
    case (Inr a)
    then have sn': "secret_new (env_os E) rn rs stored (page_protection (b_config b)) w =
        (Inr (fst a, snd a), w1)"
      using sn by simp
    have r: "mast = Some (MasterReady (fst a))" "rs' = snd a" "rn' = Suc rn"
      using assms st sn Inr by (auto simp: make_master_def split: prod.splits)
    note h = secret_new_holds [OF sn']
    have "region_ids (fst a) \<subseteq> {..<Suc rn}" "\<forall>j < rn. snd a j = rs j"
      using h(2,3) by auto
    then show ?thesis
      using r st h(1) by simp
  qed
qed

lemma finish_reach:
  assumes "finish E b ic w = (v, s)"
  shows "\<exists>k. reach E v k s Map.empty \<and>
    (\<forall>d st. b_normalization_key b = NKDerived d \<longrightarrow> v_normalizer v = NormKeyed st \<longrightarrow> normalization_key k = d) \<and>
    (\<forall>stored st. b_master b = Some (Inr stored) \<longrightarrow> v_master v = Some (MasterReady st) \<longrightarrow> master_stored k = stored)"
proof -
  obtain norm rs1 rn1 w1 where n: "make_normalizer E b (Map.empty, 0, w) = (norm, rs1, rn1, w1)"
    by (metis prod_cases4)
  obtain mast rs rn w2 where m: "make_master E b (rs1, rn1, w1) = (mast, rs, rn, w2)"
    by (metis prod_cases4)
  note nk = make_normalizer_secret [OF n] and ms = make_master_secret [OF m]
  have vs: "v_normalizer v = norm" "v_master v = mast" "regions_tab s = rs" "region_next s = rn"
    "keys s = []" "key_locks s = Map.empty" "key_locks_active s = 0" "scratch s = []" "\<not> scratch_borrowed s"
    "\<not> locked_out s" "failure_tracker s = Map.empty" "master_backoff s = backoff_default" "audit_log s = []" "monitor_log s = []"
    using assms n m by (auto simp: finish_def)
  obtain kn where kn: "\<And>st. norm = NormKeyed st \<Longrightarrow> secret_holds rs st kn \<and> region_ids st \<subseteq> {..<rn}"
    "\<And>d st. norm = NormKeyed st \<Longrightarrow> b_normalization_key b = NKDerived d \<Longrightarrow> kn = d"
  proof (cases "\<exists>st. norm = NormKeyed st")
    case True
    then obtain st key where st: "norm = NormKeyed st" "secret_holds rs1 st key" "region_ids st \<subseteq> {..<rn1}"
      "\<forall>d. b_normalization_key b = NKDerived d \<longrightarrow> key = d"
      using nk by blast
    have "secret_holds rs st key"
      using ms st(2,3) by (intro secret_holds_agree [of st rs rs1]) auto
    with st ms show thesis
      by (intro that [of key]) auto
  qed (use that in blast)
  obtain km where km: "\<And>st. mast = Some (MasterReady st) \<Longrightarrow> secret_holds rs st km \<and> region_ids st \<subseteq> {..<rn}"
    "\<And>stored st. mast = Some (MasterReady st) \<Longrightarrow> b_master b = Some (Inr stored) \<Longrightarrow> km = stored"
  proof (cases "\<exists>st. mast = Some (MasterReady st)")
    case True
    then obtain st stored where st: "mast = Some (MasterReady st)" "b_master b = Some (Inr stored)"
      "secret_holds rs st stored" "region_ids st \<subseteq> {..<rn}"
      using ms by blast
    show thesis
      using st by (intro that [of stored]) auto
  qed (use that in blast)
  let ?k = "\<lparr>normalization_key = kn, master_stored = km\<rparr>"
  have "reach E v ?k s Map.empty"
  proof (rule reach.built)
    show "secret_ids v \<subseteq> {..<region_next s}"
      using kn(1) km(1) vs
      by (auto simp: secret_ids_def split: normalizer.splits option.splits master_verifier.splits)
    show "secrets_ok v ?k (regions_tab s)"
      using kn(1) km(1) vs by (auto simp: secrets_ok_def)
  qed (use vs in simp_all)
  then show ?thesis
    using kn(2) km(2) vs by (intro exI [of _ ?k]) auto
qed

lemma finish_vault_ok:
  assumes "finish E b ic w = (v, s)" "fragmenter_choice_ok (b_fragmenter b)"
    and "\<And>c. b_codex b = Some c \<Longrightarrow> codex_law (encode c) (decode c)"
  shows "vault_ok v"
  using assms
  by (auto simp: finish_def vault_ok_def fragmenter_ok_def fragmenter_choice_ok_def
      split: prod.splits builder_fragmenter.splits option.splits)

lemma feature_fragmenter_ok: "feature_fragmenter fe E = Inr f \<Longrightarrow> fragmenter_choice_ok f"
  by (auto simp: feature_fragmenter_def fragmenter_choice_ok_def Let_def result_simps layered_new_def
      random_strategy_ok interleaved_strategy_ok standard_strategy_ok intro!: layered_strategy_ok
      split: if_splits)

end
