(* ===== verification/Service.thy ===== *)
theory Service
  imports Builder
begin

text \<open>
  Facts about the whole vault that the properties share: the lookups against the
  specification, the success of \<^verbatim>\<open>register\<close> and \<^verbatim>\<open>rotate\<close> when nothing outside the vault
  fails, and an example vault over a counting random source and a permissive operating
  system.
\<close>

section \<open>Lookups\<close>

lemma find_SomeD: "List.find P xs = Some x \<Longrightarrow> x \<in> set xs \<and> P x"
  by (induction xs) (auto split: if_splits)

lemma find_name:
  assumes "names_inv m"
  shows "List.find (\<lambda>(i, e). ke_name e = n) m = Some (i, e) \<longleftrightarrow> kv_get i m = Some e \<and> ke_name e = n"
proof
  assume "List.find (\<lambda>(i, e). ke_name e = n) m = Some (i, e)"
  then have "(i, e) \<in> set m" "ke_name e = n"
    by (auto dest: find_SomeD)
  then show "kv_get i m = Some e \<and> ke_name e = n"
    using assms by (simp add: kv_get_in)
next
  assume r: "kv_get i m = Some e \<and> ke_name e = n"
  then have "(i, e) \<in> set m"
    using assms by (simp add: kv_get_in)
  then obtain x where x: "List.find (\<lambda>(i, e). ke_name e = n) m = Some x"
    using r by (cases "List.find (\<lambda>(i, e). ke_name e = n) m") (auto simp: find_None_iff)
  then have "kv_get (fst x) m = Some (snd x)" "ke_name (snd x) = n"
    using assms by (auto simp: kv_get_in [symmetric] dest!: find_SomeD)
  then have "x = (i, e)"
    using r names_inv_unique [OF assms, of "fst x" "snd x" i e] by (cases x; cases "fst x = i") auto
  with x show "List.find (\<lambda>(i, e). ke_name e = n) m = Some (i, e)"
    by simp
qed

lemma spec_entry:
  assumes "store_inv v k A s"
  shows "(\<exists>e. kv_get i (keys s) = Some e \<and> ke_name e = n) \<longleftrightarrow> (\<exists>bs md. A i = Some (n, bs, md))"
proof (cases "A i")
  case None
  then show ?thesis
    using store_inv_None [OF assms, of i] by simp
next
  case (Some a)
  obtain m bs md where a: "a = (m, bs, md)" by (cases a)
  with Some obtain e where "kv_get i (keys s) = Some e" "ke_name e = m"
    using store_inv_get [OF assms, of i m bs md] by metis
  with Some a show ?thesis by simp
qed

lemma contains_spec: "store_inv v k A s \<Longrightarrow> contains h s \<longleftrightarrow> A (handle_id h) \<noteq> None"
  using store_inv_None [of v k A s "handle_id h"] by (simp add: contains_def del: not_None_eq)

lemma handle_for_name_spec:
  assumes "store_inv v k A s"
  shows "handle_for_name n s = Some h \<longleftrightarrow> (\<exists>bs md. A (handle_id h) = Some (n, bs, md))"
proof -
  have n: "names_inv (keys s)"
    using assms by (simp add: store_inv_def)
  have "handle_for_name n s = Some h \<longleftrightarrow> (\<exists>e. kv_get (handle_id h) (keys s) = Some e \<and> ke_name e = n)"
    using find_name [OF n] by (auto simp: handle_for_name_def handle_from_id_def intro!: exI [of _ "handle_id h"])
  then show ?thesis
    using spec_entry [OF assms] by simp
qed

lemma key_count_spec:
  assumes "store_inv v k A s"
  shows "key_count s = card (dom A)"
proof -
  have n: "distinct (map fst (keys s))"
    using assms by (simp add: store_inv_def names_inv_def)
  have "dom A = set (map fst (keys s))"
    unfolding set_eq_iff domIff store_inv_None [OF assms, symmetric] kv_get_def
    by (simp add: map_of_eq_None_iff del: not_None_eq)
  then show ?thesis
    using distinct_card [OF n] by (simp add: key_count_def)
qed

lemma finite_spec:
  assumes "store_inv v k A s" shows "finite (dom A)"
proof -
  have "dom A \<subseteq> fst ` set (keys s)"
    unfolding subset_iff domIff store_inv_None [OF assms, symmetric] kv_get_def
    by (simp add: map_of_eq_None_iff)
  then show ?thesis
    by (rule finite_subset) simp
qed

section \<open>Nothing outside the vault fails\<close>

text \<open>
  The random source and the protection calls succeed, new mappings are granted for the sizes
  at hand, and the normalizer is usable.
\<close>

definition usable_normalizer :: "'w vault \<Rightarrow> secrets \<Rightarrow> bool" where
  "usable_normalizer v k \<longleftrightarrow>
     (case v_normalizer v of
        NormUnavailable r \<Rightarrow> False
      | NormKeyed st \<Rightarrow> length (normalization_key k) = 32
      | _ \<Rightarrow> True)"

lemma normalize_usable:
  assumes "store_inv v k A s" "usable_normalizer v k" "protect_total (env_os E)"
  shows "\<exists>s'. normalize E v key s = (Inr (norm_value E v k key), s')"
proof (cases "v_normalizer v")
  case (NormKeyed st)
  obtain r s1 where rd: "secret_read E st (keyed_closure (env_blake3 E) key) s = (r, s1)"
    by fastforce
  have "secret_holds (regions_tab s) st (normalization_key k)"
    using assms(1) NormKeyed by (simp add: store_inv_def secrets_ok_def)
  from secret_read_frame [OF rd this] have "r = Inr (keyed_closure (env_blake3 E) key (normalization_key k))"
    using assms(3) by blast
  then show ?thesis
    using rd NormKeyed assms(2)
    by (simp add: normalize_def norm_value_def rbind_def keyed_closure_def usable_normalizer_def)
qed (use assms(2) in \<open>simp_all add: normalize_def norm_value_def usable_normalizer_def\<close>)

text \<open>The strategy succeeds on every non-empty key of \<open>n\<close> bytes, whatever the state of the random source.\<close>

definition fragmenter_total :: "'w env \<Rightarrow> 'w fragmenter \<Rightarrow> nat \<Rightarrow> bool" where
  "fragmenter_total E f n \<longleftrightarrow>
     (\<forall>bs. bs \<noteq> [] \<longrightarrow> length bs = n \<longrightarrow> returns_ok (fragmenter_fragment E f bs))"

lemma fragment_pipeline_total:
  assumes "store_inv v k A s" "usable_normalizer v k" "protect_total (env_os E)"
    and "fragmenter_total E (v_fragmenter v) (length (norm_value E v k key))" "norm_value E v k key \<noteq> []"
  shows "\<exists>fr s'. fragment_pipeline E v key s = (Inr fr, s')"
proof -
  obtain s1 where n: "normalize E v key s = (Inr (norm_value E v k key), s1)"
    using normalize_usable [OF assms(1-3)] by blast
  have "enc_bytes v (norm_value E v k key) \<noteq> []"
    using assms(5) length_enc [of v "norm_value E v k key"] by (metis length_0_conv)
  then have "returns_ok (fragmenter_fragment E (v_fragmenter v) (enc_bytes v (norm_value E v k key)))"
    using assms(4) by (simp add: fragmenter_total_def)
  then obtain fr w1 where "fragmenter_fragment E (v_fragmenter v) (enc_bytes v (norm_value E v k key)) (world s1) =
      (Inr fr, w1)"
    by (rule returns_okE)
  with n show ?thesis
    by (auto simp: fragment_pipeline_def rbind_def on_world_def enc_bytes_def)
qed

text \<open>
  What a vault with page protection asks of the operating system beside the protection calls:
  mappings are granted, and what the strategy makes of a key of \<open>n\<close> bytes fits, with one page to
  spare, in the address space. A vault without page protection asks for nothing.
\<close>

definition storage_size :: "fragments \<Rightarrow> nat" where
  "storage_size fr = length (layout_bytes fr) + sum_list (map length (chunks fr))"

definition room_for :: "'w env \<Rightarrow> 'w vault \<Rightarrow> nat \<Rightarrow> bool" where
  "room_for E v n \<longleftrightarrow> (page_protection (v_config v) \<longrightarrow>
     (\<forall>w len. fst (os_map_region (env_os E) w len) \<noteq> None) \<and>
     (\<forall>bs g fr g'. length bs = n \<longrightarrow> fragmenter_fragment E (v_fragmenter v) bs g = (Inr fr, g') \<longrightarrow>
        storage_size fr + page_size (env_os E) \<le> usize_max))"

lemma checked_sum_fits: "acc + sum_list ns \<le> usize_max \<Longrightarrow> checked_sum acc ns = Some (acc + sum_list ns)"
  by (induction acc ns rule: checked_sum.induct) (auto simp: add.assoc)

lemma guarded_new_total:
  assumes "\<And>w len. fst (os_map_region os w len) \<noteq> None" "n + page_size os \<le> usize_max"
  shows "\<exists>r w'. guarded_new os n w = (Inr r, w')"
proof -
  have p: "0 < page_size os" by simp
  have "checked_next_multiple_of (max n 1) (page_size os) \<noteq> None"
    using p mod_less_divisor [OF p, of "max n 1"] assms(2)
    by (auto simp: checked_next_multiple_of_def Let_def max_def)
  then obtain ml where "checked_next_multiple_of (max n 1) (page_size os) = Some ml" by blast
  moreover obtain raw w1 where "os_map_region os w ml = (Some raw, w1)"
    using assms(1) [of w ml] by (cases "os_map_region os w ml") auto
  ultimately show ?thesis
    by (simp add: guarded_new_def Let_def split_beta)
qed

lemma into_protected_total:
  assumes "protect_total os" "\<And>w len. fst (os_map_region os w len) \<noteq> None"
    "storage_size fr + page_size os \<le> usize_max"
  shows "\<exists>st rs' w'. into_protected os i rs fr w = (Inr (st, rs'), w')"
proof -
  have size: "checked_sum (length (layout_bytes fr)) (map length (chunks fr)) = Some (storage_size fr)"
    using checked_sum_fits [of "length (layout_bytes fr)" "map length (chunks fr)"] assms(3)
    by (simp add: storage_size_def)
  obtain r w1 where new: "guarded_new os (storage_size fr) w = (Inr r, w1)"
    using guarded_new_total [OF assms(2,3)] by blast
  obtain dst at where copy: "copy_chunks (mem r) 0 (chunks fr) = (dst, at)"
    by fastforce
  let ?r = "r\<lparr>mem := write_at dst at (layout_bytes fr)\<rparr>"
  have "fst (os_protect os w1 (base ?r) (map_len ?r) NoAccess)"
    using assms(1) by (simp add: protect_total_def)
  then obtain w2 where "guarded_seal os ?r w1 = (Inr (?r\<lparr>prot := NoAccess\<rparr>), w2)"
    by (cases "os_protect os w1 (base ?r) (map_len ?r) NoAccess") (simp add: guarded_seal_def)
  then show ?thesis
    using size new copy by (simp add: into_protected_def Let_def rbind_def)
qed

lemma fragment_for_registry_total:
  assumes "vault_ok v" "store_inv v k A s" "usable_normalizer v k" "protect_total (env_os E)"
    and "fragmenter_total E (v_fragmenter v) (length (norm_value E v k key))" "norm_value E v k key \<noteq> []"
    and "room_for E v (length (norm_value E v k key))"
  shows "\<exists>st s'. fragment_for_registry E v key s = (Inr st, s')"
proof -
  obtain fr s1 where p: "fragment_pipeline E v key s = (Inr fr, s1)"
    using fragment_pipeline_total [OF assms(2-6)] by blast
  then obtain key1 s2 w1 where n: "normalize E v key s = (Inr key1, s2)"
    and f: "fragmenter_fragment E (v_fragmenter v) (enc_bytes v key1) (world s2) = (Inr fr, w1)"
    by (auto simp: fragment_pipeline_def result_simps Let_def enc_bytes_def)
  have key1: "key1 = norm_value E v k key"
    using normalize_frame(2) [OF assms(2) n] by simp
  show ?thesis
  proof (cases "page_protection (v_config v)")
    case False
    then show ?thesis
      using p by (auto simp: fragment_for_registry_def rbind_def)
  next
    case True
    then have map: "\<And>w len. fst (os_map_region (env_os E) w len) \<noteq> None"
      and "length (enc_bytes v key1) = length (norm_value E v k key) \<Longrightarrow> storage_size fr + page_size (env_os E) \<le> usize_max"
      using assms(7) f unfolding room_for_def by blast+
    then have size: "storage_size fr + page_size (env_os E) \<le> usize_max"
      using key1 by simp
    obtain st rs w2 where "into_protected (env_os E) (region_next s1) (regions_tab s1) fr (world s1) = (Inr (st, rs), w2)"
      using into_protected_total [OF assms(4) map size] by metis
    then show ?thesis
      using p True by (auto simp: fragment_for_registry_def rbind_def protect_fragments_def)
  qed
qed

lemma register_total:
  assumes "vault_ok v" "store_inv v k A s" "usable_normalizer v k" "protect_total (env_os E)"
    and "fragmenter_total E (v_fragmenter v) (length (norm_value E v k key))" "norm_value E v k key \<noteq> []"
    and "room_for E v (length (norm_value E v k key))"
    and "\<not> locked_out s" "\<forall>i bs md. A i \<noteq> Some (name, bs, md)"
  shows "\<exists>h s'. register E v name key s = (Inr h, s')"
proof -
  obtain st s1 where f: "fragment_for_registry E v key s = (Inr st, s1)"
    using fragment_for_registry_total [OF assms(1-7)] by blast
  have "names_inv (keys s)"
    using assms(2) by (simp add: store_inv_def)
  then have n: "\<not> kv_has_name name (keys s)"
    using spec_entry [OF assms(2)] assms(9) by (simp add: kv_has_name_iff)
  have "keys s1 = keys s"
    using fragment_for_registry_frame(3) [OF assms(1,2) f] by auto
  then have "\<not> kv_has_name name (keys (snd (clock_unix_time E (snd (allocate_handle s1)))))"
    using n by simp
  then show ?thesis
    using f n assms(8)
    by (simp add: register_def is_locked_out_def rbind_def Let_def split_beta register_install_def)
qed

lemma rotate_total:
  assumes "vault_ok v" "store_inv v k A s" "usable_normalizer v k" "protect_total (env_os E)"
    and "fragmenter_total E (v_fragmenter v) (length (norm_value E v k key))" "norm_value E v k key \<noteq> []"
    and "room_for E v (length (norm_value E v k key))"
    and "\<not> locked_out s" "A (handle_id h) = Some (n, bs, md)" "key_locks s n = None"
  shows "\<exists>s'. rotate E v h key s = (Inr (), s')"
proof -
  obtain st s1 where f: "fragment_for_registry E v key s = (Inr st, s1)"
    using fragment_for_registry_total [OF assms(1-7)] by blast
  obtain e where e: "kv_get (handle_id h) (keys s) = Some e" "ke_name e = n"
    using store_inv_get [OF assms(2,9)] by metis
  have "keys s1 = keys s"
    using fragment_for_registry_frame(3) [OF assms(1,2) f] by auto
  moreover have "key_locked E (ke_name e) s = (False, s)"
    using e(2) assms(10) by (simp add: key_locked_def key_locked_slow_def)
  ultimately show ?thesis
    using f e assms(8)
    by (simp add: rotate_def is_locked_out_def rbind_def Let_def split_beta rotate_install_def)
qed

lemma standard_total:
  assumes "rng_total (env_rng E)" "n < u32_max" "sf_decoy f = None" "1 \<le> sf_min_chunk f"
    "sf_min_chunk f \<le> sf_max_chunk f" "sf_max_chunk f \<le> usize_max"
  shows "fragmenter_total E (StandardF f) n"
  unfolding fragmenter_total_def
  using assms by (auto intro!: standard_fragment_ok)

lemma random_total:
  "rng_total (env_rng E) \<Longrightarrow> n \<le> u32_max \<Longrightarrow>
     fragmenter_total E (CustomF (random_strategy (env_rng E) random_new)) n"
  by (auto simp: fragmenter_total_def random_strategy_def random_new_def RANDOM_DEFAULT_MIN_CHUNK_def
      RANDOM_DEFAULT_MAX_CHUNK_def usize_max_def intro!: random_fragment_ok)

lemma interleaved_total:
  "rng_total (env_rng E) \<Longrightarrow> 1 \<le> pool_factor f \<Longrightarrow> n * pool_factor f \<le> u32_max \<Longrightarrow>
     fragmenter_total E (CustomF (interleaved_strategy (env_rng E) f)) n"
  by (auto simp: fragmenter_total_def interleaved_strategy_def intro!: interleaved_fragment_ok)

lemma page_size_bound: "page_size os \<le> 2 ^ 63"
proof -
  obtain k where "k < 64" "page_size os = 2 ^ k"
    using page_size_power by blast
  then show ?thesis
    using power_increasing [of k 63 "2 :: nat"] by simp
qed

lemma unprotected_room: "\<not> page_protection (v_config v) \<Longrightarrow> room_for E v n"
  by (simp add: room_for_def)

lemma interleaved_room:
  assumes "v_fragmenter v = CustomF (interleaved_strategy (env_rng E) f)" "n \<le> u32_max"
    and "\<And>w len. fst (os_map_region (env_os E) w len) \<noteq> None"
  shows "room_for E v n"
proof -
  have "storage_size fr + page_size (env_os E) \<le> usize_max"
    if "length bs = n" "interleaved_fragment (env_rng E) f bs g = (Inr fr, g')" for bs g fr g'
  proof (rule interleaved_fragment_Inr [OF that(2)])
    fix pool ps
    assume "fr = from_parts [pool] (u32_to_le_bytes (as_u32 (length pool)) @ concat (map u32_to_le_bytes ps)) (length bs)"
      "length pool \<le> u32_max" "length ps = length bs"
    then have "storage_size fr \<le> 4 + 4 * u32_max + u32_max"
      using that(1) assms(2) by (simp add: storage_size_def length_concat comp_def sum_list_triv)
    then show ?thesis
      using page_size_bound [of "env_os E"] by (simp add: u32_max_def usize_max_def)
  qed
  then show ?thesis
    using assms(1,3) by (simp add: room_for_def interleaved_strategy_def)
qed

section \<open>Reading\<close>

text \<open>What \<open>with_key\<close> returns for a live, unlocked key.\<close>

lemma with_key_result:
  assumes "vault_ok v" "os_ok E v" "reach E v k s A" "A (handle_id h) = Some (n, bs, md)"
    and "\<not> locked_out s" "\<not> fst (key_locked E n s)"
  shows "fst (with_key E v h (pure_cb g) s) = (case g bs of Some a \<Rightarrow> Inr a | None \<Rightarrow> Inl Panic)"
proof -
  note i = reach_inv [OF assms(1,3)]
  obtain s1 where kl: "key_locked E n s = (False, s1)"
    using assms(6) by (cases "key_locked E n s") auto
  obtain w rs tail where "with_key E v h (pure_cb g) s =
      (case pure_cb g bs (s1\<lparr>world := w, regions_tab := rs, scratch := bs @ tail, scratch_borrowed := True\<rparr>) of
         (None, s') \<Rightarrow> (Inl Panic, end_read (length bs) (bs @ tail) s')
       | (Some a, s') \<Rightarrow> (Inr a, let s2 = end_read (length bs) (bs @ tail) s' in
                             if v_audit_no_op v then s2 else emit_audit E v n Read [] s2))"
    using with_key_calls [OF assms(1,2) conjunct1 [OF i] assms(4) _ kl, of "pure_cb g"] i assms(5)
    by (auto simp: aux_inv_def)
  then show ?thesis
    by (cases "g bs") (simp_all add: pure_cb_def)
qed

text \<open>A callback that reads another key of the vault; a panic of the inner call unwinds through it.\<close>

definition reading_again ::
  "'w env \<Rightarrow> 'w vault \<Rightarrow> key_handle \<Rightarrow> (bytes \<Rightarrow> 'w vstate \<Rightarrow> 'a option \<times> 'w vstate) \<Rightarrow>
   bytes \<Rightarrow> 'w vstate \<Rightarrow> 'a result option \<times> 'w vstate" where
  "reading_again E v h f b s =
     (case with_key E v h f s of (r, s') \<Rightarrow> (if r = Inl Panic then None else Some r, s'))"

text \<open>A rotation sets no per-key lock; it may find that one has expired.\<close>

lemma store_only_rotate_body:
  "store_only t (snd (rbind (fragment_for_registry E v key) (\<lambda>st s2.
      let (t, s3) = clock_unix_time E s2
      in rotate_install E v h st (key_metadata_new t (length key) None) s3) t))"
  by (rule store_only_rbind [OF store_only_for_registry store_only_rotate_rest])

lemma rotate_locks:
  "locked_out (snd (rotate E v h key s)) = locked_out s"
  "key_locks s n = None \<Longrightarrow> key_locks (snd (rotate E v h key s)) n = None"
proof -
  have kl: "key_locks s n = None \<Longrightarrow> key_locks (snd (key_locked E m s)) n = None" for m
    by (simp add: key_locked_def key_locked_slow_def clock_now_def split: option.split prod.split)
  have "locked_out (snd (rotate E v h key s)) = locked_out s \<and>
    (key_locks s n = None \<longrightarrow> key_locks (snd (rotate E v h key s)) n = None)"
  proof (cases "kv_get (handle_id h) (keys s)")
    case None
    then show ?thesis by (simp add: rotate_def)
  next
    case (Some e)
    obtain b s1 where k: "key_locked E (ke_name e) s = (b, s1)" by fastforce
    show ?thesis
      using Some k kl [of "ke_name e"] key_locked_fields(4) [of E "ke_name e" s] store_only_rotate_body [of s1 E v key h]
      by (cases b) (simp_all add: rotate_def store_only_def)
  qed
  then show "locked_out (snd (rotate E v h key s)) = locked_out s"
    "key_locks s n = None \<Longrightarrow> key_locks (snd (rotate E v h key s)) n = None"
    by blast+
qed

text \<open>
  A successful rotation found its key unlocked (perhaps by removing an expired lock), and the
  key is unlocked afterwards; the locks of the other names are as before.
\<close>

lemma rotate_unlocked:
  assumes "rotate E v h key s = (Inr (), s')" "kv_get (handle_id h) (keys s) = Some e"
  shows "\<not> fst (key_locked E (ke_name e) s')" "m \<noteq> ke_name e \<Longrightarrow> key_locks s' m = key_locks s m"
proof -
  obtain s1 where k: "key_locked E (ke_name e) s = (False, s1)"
    and r: "rbind (fragment_for_registry E v key) (\<lambda>st s2.
      let (t, s3) = clock_unix_time E s2
      in rotate_install E v h st (key_metadata_new t (length key) None) s3) s1 = (Inr (), s')"
    using assms by (auto simp: rotate_def split: if_splits prod.splits bool.splits)
  have so: "store_only s1 s'"
    using store_only_rotate_body [of s1 E v key h] r by simp
  have "key_locks_active s1 = 0 \<or> key_locks s1 (ke_name e) = None"
    using k by (auto simp: key_locked_def key_locked_slow_def split: if_splits option.splits prod.splits)
  then show "\<not> fst (key_locked E (ke_name e) s')"
    using so by (auto simp: store_only_def key_locked_def key_locked_slow_def)
  show "key_locks s' m = key_locks s m" if "m \<noteq> ke_name e"
    using so k that
    by (auto simp: store_only_def key_locked_def key_locked_slow_def clock_now_def split: if_splits option.splits prod.splits)
qed

section \<open>Unlocking\<close>

lemma handle_failure_backoff [simp]: "master_backoff (handle_failure E v n nt p s) = master_backoff s"
proof -
  have "master_backoff (key_threshold_block E v n kt c t) = master_backoff t" for kt c t
    by (simp add: key_threshold_block_def Let_def split_beta clock_now_def split: option.split)
  moreover have "master_backoff (vault_threshold v n c t) = master_backoff t" for c t
    by (simp add: vault_threshold_def Let_def)
  moreover have "master_backoff (snd (record_failure E v n q t)) = master_backoff t" for q t
    by (simp add: record_failure_def Let_def split_beta clock_now_def)
  ultimately show ?thesis
    by (simp add: handle_failure_def Let_def split_beta)
qed

lemma handle_failure_stays_locked: "locked_out s \<Longrightarrow> locked_out (handle_failure E v n nt p s)"
  by (simp add: handle_failure_def vault_threshold_def record_failure_def Let_def split_beta clock_now_def)

text \<open>A failure that does not count per key touches no per-key lock, and no other name's failures.\<close>

lemma handle_failure_vault_wide:
  "key_locks (handle_failure E v n nt False s) = key_locks s"
  "key_locks_active (handle_failure E v n nt False s) = key_locks_active s"
  "m \<noteq> n \<Longrightarrow> failure_tracker (handle_failure E v n nt False s) m = failure_tracker s m"
  "\<exists>es. failure_tracker (handle_failure E v n nt False s) n = Some es \<and> es \<noteq> []"
  "keys (handle_failure E v n nt False s) = keys s"
  by (simp_all add: handle_failure_def key_threshold_block_def record_failure_def Let_def split_beta)

text \<open>An attempt that is not rate-limited compares against the stored verifier.\<close>

lemma unlock_compares:
  assumes "store_inv v k A s" "v_master v = Some (MasterReady st)" "protect_total (env_os E)"
    and "env_now E (world s) = (now, w)" "next_allowed (master_backoff s) \<le> now"
  shows "\<exists>w' rs. unlock_with_master E v attempt s =
    (let matched = master_matches (env_blake3 E) attempt (master_stored k);
         s3 = s\<lparr>world := w', regions_tab := rs, master_backoff := backoff_after v now matched (master_backoff s)\<rparr>;
         s4 = emit_audit E v MASTER_NAME (MasterUnlockAttempt matched) [] s3
     in if matched then (Inr (), clear_lockout s4)
        else (Inl (Err (Acquisition ''master'' ''master credential did not match'')),
              handle_failure E v MASTER_NAME (Some ''invalid master credential'') False s4))"
proof -
  let ?s = "s\<lparr>world := w\<rparr>"
  obtain x s2 where rd: "secret_read E st (master_matches (env_blake3 E) attempt) ?s = (x, s2)"
    by fastforce
  have "secret_holds (regions_tab ?s) st (master_stored k)"
    using assms(1,2) by (simp add: store_inv_def secrets_ok_def)
  from secret_read_frame [OF rd this] obtain w' rs where
    "s2 = ?s\<lparr>world := w', regions_tab := rs\<rparr>" "x = Inr (master_matches (env_blake3 E) attempt (master_stored k))"
    using assms(3) by blast
  then show ?thesis
    using rd assms(2,4,5)
    by (intro exI [of _ w'] exI [of _ rs]) (simp add: unlock_with_master_def clock_now_def rbind_def Let_def)
qed

section \<open>One-shot operations\<close>

text \<open>Defragmenting what \<open>vault_fragment\<close> returned gives the normalized key, encoded a second time.\<close>

lemma one_shot_twice:
  assumes "vault_ok v" "store_inv v k A s" "vault_fragment E v key s = (Inr fr, s1)" "\<not> locked_out s2"
  shows "fst (vault_defragment E v fr s2) = Inr (enc_bytes v (enc_bytes v (norm_value E v k key)))"
proof -
  obtain s' where p: "fragment_pipeline E v key s = (Inr fr, s')"
    using assms(3) by (auto simp: vault_fragment_def split: if_splits sum.splits prod.splits)
  have "fragmenter_defragment (v_fragmenter v) fr = Inr (enc_bytes v (norm_value E v k key))"
    using fragment_pipeline_Inr(2,3) [OF assms(1,2) p]
      fragment_pipeline_Inr(4) [OF assms(1,2) p, of "replicate (total_len fr) 0"] assms(1)
    by (simp add: fragmenter_defragment_via defragment_via_def zero_vec_ok vault_ok_def)
  then show ?thesis
    using assms(4) by (simp add: vault_defragment_def is_locked_out_def Let_def enc_bytes_def)
qed

section \<open>Identifiers\<close>

lemma register_handle:
  assumes "vault_ok v" "store_inv v k A s" "register E v name key s = (Inr h, s')"
  shows "h = fst (handle_allocate (id_counter s))" "id_counter s' = id_counter s + 1"
    "\<exists>md. metadata h s' = Some md"
proof -
  obtain st s1 where f: "fragment_for_registry E v key s = (Inr st, s1)"
    using assms(3) by (auto simp: register_def rbind_def split: if_splits prod.splits sum.splits)
  have c: "id_counter s1 = id_counter s"
    using fragment_for_registry_frame(3) [OF assms(1,2) f] by auto
  have rel: "id_counter (release_entry E m i t) = id_counter t" for m i t
    by (simp add: release_entry_def free_storage_def split: option.split prod.split)
  have "\<not> is_locked_out s \<and> \<not> kv_has_name name (keys s)"
    using assms(3) by (auto simp: register_def split: if_splits)
  then have r: "register_install E v name st (fst (allocate_handle s1))
      (key_metadata_new (fst (clock_unix_time E (snd (allocate_handle s1)))) (length key) None)
      (snd (clock_unix_time E (snd (allocate_handle s1)))) = (Inr h, s')"
    using assms(3) f by (simp add: register_def rbind_def Let_def split_beta)
  then show "h = fst (handle_allocate (id_counter s))" "id_counter s' = id_counter s + 1"
    using c rel handle_allocate_simps(2) [of "id_counter s"]
    by (auto simp: register_install_def Let_def allocate_handle_def clock_unix_time_def
        split: if_splits prod.splits)
  show "\<exists>md. metadata h s' = Some md"
    using r by (auto simp: register_install_def Let_def metadata_def split: if_splits)
qed

section \<open>An example vault\<close>

text \<open>A world that counts, with the toy operating system and hash, and a clock that shows it.\<close>

definition demo_env :: "nat env" where
  "demo_env = \<lparr>env_rng = counter_rng, env_os = toy_os, env_now = (\<lambda>w. (w, w)), env_unix_time = (\<lambda>w. (w, w)),
     env_thread = 7, env_blake3 = toy_blake3\<rparr>"

definition demo_codex :: codex where
  "demo_codex = \<lparr>encode = (\<lambda>b. b + 1), decode = (\<lambda>b. b - 1)\<rparr>"

definition demo_sink :: "nat audit_sink" where
  "demo_sink = \<lparr>on_event = (\<lambda>ev n. Suc n), is_no_op = False\<rparr>"

text \<open>Raw keys, a codex that is no involution, a lockout after two failures per key name.\<close>

definition demo_builder :: "(nat, unit, nat) builder" where
  "demo_builder = with_failure_threshold 2 100 (with_key_lockout 2 100 None (with_codex demo_codex
     (with_audit_sink demo_sink (normalize_with_blake3 False builder_new))))"

definition demo_vault :: "nat vault" where
  "demo_vault = fst (finish demo_env demo_builder 1 0)"

definition demo_state :: "nat vstate" where
  "demo_state = snd (finish demo_env demo_builder 1 0)"

lemma demo_vault_simps [simp]:
  "v_normalizer demo_vault = NormOff" "v_master demo_vault = None" "v_audit_no_op demo_vault = False"
  "v_codex demo_vault = Some demo_codex" "v_fragmenter demo_vault = StandardF standard_new"
  "page_protection (v_config demo_vault) = False" "max_failures_before_lockout (v_config demo_vault) = 2"
  "failure_window (v_config demo_vault) = 100" "key_lockout_threshold (v_config demo_vault) = 2"
  "key_lockout_window (v_config demo_vault) = 100" "key_lockout_duration (v_config demo_vault) = None"
  by (simp_all add: demo_vault_def finish_def demo_builder_def with_failure_threshold_def with_codex_def
      with_key_lockout_def with_audit_sink_def normalize_with_blake3_def builder_new_def vault_config_new_def
      make_normalizer_def make_master_def finish_audit_def demo_sink_def Let_def)

lemma demo_state_simps [simp]:
  "locked_out demo_state = False" "key_locks demo_state = Map.empty" "keys demo_state = []"
  "failure_tracker demo_state = Map.empty" "id_counter demo_state = 1" "world demo_state = 0"
  "key_locks_active demo_state = 0" "audit_log demo_state = []" "scratch_borrowed demo_state = False"
  by (simp_all add: demo_state_def finish_def demo_builder_def with_failure_threshold_def with_codex_def
      with_key_lockout_def with_audit_sink_def normalize_with_blake3_def builder_new_def vault_config_new_def
      make_normalizer_def make_master_def Let_def)

lemma demo_env_simps [simp]:
  "rng_total (env_rng demo_env)" "protect_total (env_os demo_env)" "clock_monotone demo_env"
  "os_ok demo_env demo_vault" "norm_value demo_env demo_vault k key = key"
  by (simp_all add: demo_env_def counter_rng_total protect_total_def toy_os_def clock_monotone_def os_ok_def
      norm_value_def)

lemma demo_vault_ok: "vault_ok demo_vault"
  by (simp add: vault_ok_def fragmenter_ok_def demo_codex_def codex_law_def)

lemma demo_built: "\<exists>k. reach demo_env demo_vault k demo_state Map.empty"
  using finish_reach [of demo_env demo_builder 1 0 demo_vault demo_state]
  by (auto simp: demo_vault_def demo_state_def)

lemma demo_total: "0 < n \<Longrightarrow> n < u32_max \<Longrightarrow> fragmenter_total demo_env (v_fragmenter demo_vault) n"
  by (auto intro!: standard_total simp: standard_new_def DEFAULT_MIN_CHUNK_def DEFAULT_MAX_CHUNK_def usize_max_def)

text \<open>Time stands still while failures are reported in the example.\<close>

lemma demo_report_world:
  "fst (env_now demo_env w) = w" "world (report_failure demo_env v n nt s) = world s"
  using report_failure_world [of demo_env v n nt s] by (simp_all add: demo_env_def)

text \<open>Two failures of one name lock the name and the vault, in a vault with the thresholds of the example.\<close>

lemma demo_two_failures:
  assumes "key_lockout_threshold (v_config v) = 2" "key_lockout_duration (v_config v) = None"
    "max_failures_before_lockout (v_config v) = 2" "failure_tracker s = Map.empty" "key_locks s = Map.empty"
  shows "key_locks (report_failure demo_env v n None (report_failure demo_env v n None s)) = [n \<mapsto> None]"
    "locked_out (report_failure demo_env v n None (report_failure demo_env v n None s))"
proof -
  let ?s = "report_failure demo_env v n None s"
  have one: "tracked ?s n = [world s]" "key_locks ?s = Map.empty" "world ?s = world s"
    using assms by (simp_all add: tracked_def report_failure_tracker report_failure_key_locks demo_report_world
        count_within_def Let_def u32_max_def)
  show "key_locks (report_failure demo_env v n None ?s) = [n \<mapsto> None]"
    "locked_out (report_failure demo_env v n None ?s)"
    using assms
    by (simp_all add: report_failure_key_locks report_failure_locked one demo_report_world count_within_def Let_def u32_max_def)
qed

text \<open>The example vault after one registration.\<close>

lemma demo_session:
  obtains k s md where
    "register demo_env demo_vault ''api'' [1, 2, 3] demo_state = (Inr \<lparr>handle_id = 1\<rparr>, s)"
    and "reach demo_env demo_vault k s [1 \<mapsto> (''api'', [1, 2, 3], md)]"
    and "\<not> locked_out s" "key_locks s = Map.empty" "key_locks_active s = 0" "failure_tracker s = Map.empty"
proof -
  obtain k where r: "reach demo_env demo_vault k demo_state Map.empty"
    using demo_built by blast
  have i: "store_inv demo_vault k Map.empty demo_state"
    using reach_inv [OF demo_vault_ok r] by blast
  obtain h s where reg: "register demo_env demo_vault ''api'' [1, 2, 3] demo_state = (Inr h, s)"
    using register_total [OF demo_vault_ok i, of demo_env "[1, 2, 3]" "''api''"] demo_total unprotected_room [of demo_vault]
    by (auto simp: usable_normalizer_def u32_max_def)
  note f = register_handle [OF demo_vault_ok i reg]
  have h: "h = \<lparr>handle_id = 1\<rparr>"
    using f(1) by (simp add: handle_allocate_def key_id_next_def next_raw_def)
  obtain md where md: "metadata h s = Some md"
    using f(3) by blast
  have "reach demo_env demo_vault k s [1 \<mapsto> (''api'', [1, 2, 3], md)]"
    using reach.register_ok [OF r reg md] h by simp
  moreover have "store_only demo_state s"
    using store_only_register [of demo_state demo_env demo_vault "''api''" "[1, 2, 3]"] reg by simp
  ultimately show thesis
    using reg h by (intro that [of s k md]) (simp_all add: store_only_def)
qed

text \<open>The example vault with a second key.\<close>

lemma demo_second:
  obtains k s md md2 s2 where
    "register demo_env demo_vault ''api'' [1, 2, 3] demo_state = (Inr \<lparr>handle_id = 1\<rparr>, s)"
    and "register demo_env demo_vault ''tls'' [9, 9] s = (Inr \<lparr>handle_id = 2\<rparr>, s2)"
    and "reach demo_env demo_vault k s2 [1 \<mapsto> (''api'', [1, 2, 3], md), 2 \<mapsto> (''tls'', [9, 9], md2)]"
    and "\<not> locked_out s2" "key_locks s2 = Map.empty"
proof -
  obtain k s md where d: "register demo_env demo_vault ''api'' [1, 2, 3] demo_state = (Inr \<lparr>handle_id = 1\<rparr>, s)"
    "reach demo_env demo_vault k s [1 \<mapsto> (''api'', [1, 2, 3], md)]" "\<not> locked_out s" "key_locks s = Map.empty"
    by (rule demo_session)
  have i0: "store_inv demo_vault k0 Map.empty demo_state" if "reach demo_env demo_vault k0 demo_state Map.empty" for k0
    using reach_inv [OF demo_vault_ok that] by blast
  have ic: "id_counter s = 2"
    using demo_built register_handle(2) [OF demo_vault_ok i0 d(1)] by auto
  have i: "store_inv demo_vault k [1 \<mapsto> (''api'', [1, 2, 3], md)] s"
    using reach_inv [OF demo_vault_ok d(2)] by blast
  have fresh: "\<forall>i bs md'. [1 \<mapsto> (''api'', [1, 2, 3], md)] i \<noteq> Some (''tls'', bs, md')"
    by simp
  obtain h s2 where reg: "register demo_env demo_vault ''tls'' [9, 9] s = (Inr h, s2)"
    using register_total [OF demo_vault_ok i _ _ _ _ _ d(3) fresh, of demo_env "[9, 9]"] demo_total [of "Suc (Suc 0)"] unprotected_room [of demo_vault]
    by (auto simp: usable_normalizer_def u32_max_def)
  note f = register_handle [OF demo_vault_ok i reg]
  have h: "h = \<lparr>handle_id = 2\<rparr>"
    using f(1) ic by (simp add: handle_allocate_def key_id_next_def next_raw_def)
  obtain md2 where md2: "metadata h s2 = Some md2"
    using f(3) by blast
  have "reach demo_env demo_vault k s2 [1 \<mapsto> (''api'', [1, 2, 3], md), 2 \<mapsto> (''tls'', [9, 9], md2)]"
    using reach.register_ok [OF d(2) reg md2] h by simp
  moreover have "store_only s s2"
    using store_only_register [of s demo_env demo_vault "''tls''" "[9, 9]"] reg by simp
  ultimately show thesis
    using d reg h by (intro that [of s s2 k md md2]) (simp_all add: store_only_def)
qed

section \<open>An example vault with page protection\<close>

definition guarded_builder :: "(nat, unit, nat) builder" where
  "guarded_builder = with_page_protection True
     (with_fragmenter (interleaved_strategy counter_rng interleaved_new) demo_builder)"

definition guarded_vault :: "nat vault" where
  "guarded_vault = fst (finish demo_env guarded_builder 1 0)"

definition guarded_state :: "nat vstate" where
  "guarded_state = snd (finish demo_env guarded_builder 1 0)"

lemma guarded_vault_simps [simp]:
  "v_normalizer guarded_vault = NormOff" "page_protection (v_config guarded_vault)"
  "v_fragmenter guarded_vault = CustomF (interleaved_strategy counter_rng interleaved_new)"
  "locked_out guarded_state = False" "keys guarded_state = []" "norm_value demo_env guarded_vault k key = key"
  by (simp_all add: guarded_vault_def guarded_state_def finish_def guarded_builder_def with_page_protection_def
      with_fragmenter_def demo_builder_def with_failure_threshold_def with_codex_def
      with_key_lockout_def with_audit_sink_def normalize_with_blake3_def builder_new_def vault_config_new_def
      make_normalizer_def make_master_def Let_def norm_value_def)

lemma guarded_vault_reach: "vault_ok guarded_vault" "\<exists>k. reach demo_env guarded_vault k guarded_state Map.empty"
proof -
  have f: "finish demo_env guarded_builder 1 0 = (guarded_vault, guarded_state)"
    by (simp add: guarded_vault_def guarded_state_def)
  show "vault_ok guarded_vault"
    by (rule finish_vault_ok [OF f])
       (auto simp: guarded_builder_def with_page_protection_def with_fragmenter_def fragmenter_choice_ok_def
          interleaved_strategy_ok demo_builder_def with_failure_threshold_def with_codex_def
          with_key_lockout_def with_audit_sink_def normalize_with_blake3_def builder_new_def demo_codex_def codex_law_def)
  show "\<exists>k. reach demo_env guarded_vault k guarded_state Map.empty"
    using finish_reach [OF f] by blast
qed

lemma guarded_room: "n \<le> 1000 \<Longrightarrow> room_for demo_env guarded_vault n"
  "n \<le> 1000 \<Longrightarrow> fragmenter_total demo_env (v_fragmenter guarded_vault) n"
proof -
  assume n: "n \<le> 1000"
  show "room_for demo_env guarded_vault n"
    by (rule interleaved_room [of _ _ interleaved_new])
       (use n in \<open>simp_all add: demo_env_def toy_os_def u32_max_def\<close>)
  show "fragmenter_total demo_env (v_fragmenter guarded_vault) n"
    using interleaved_total [of demo_env interleaved_new n] n
    by (simp add: demo_env_def counter_rng_total interleaved_new_def DEFAULT_POOL_FACTOR_def u32_max_def)
qed

section \<open>An example vault with a master credential\<close>

definition master_builder :: "(nat, unit, nat) builder" where
  "master_builder = with_master_unlock_backoff 10 40 (fst (with_master_key demo_env [5] demo_builder 0))"

definition master_vault :: "nat vault" where
  "master_vault = fst (finish demo_env master_builder 1 32)"

definition master_state :: "nat vstate" where
  "master_state = snd (finish demo_env master_builder 1 32)"

definition master_verifier_bytes :: bytes where
  "master_verifier_bytes = map word_of_nat [0..<32] @ blake3_keyed_into toy_blake3 (map word_of_nat [0..<32]) [5] 32"

lemma master_builder_simps:
  "b_master master_builder = Some (Inr master_verifier_bytes)" "b_codex master_builder = Some demo_codex"
  "page_protection (b_config master_builder) = False" "b_fragmenter master_builder = BStandard standard_new"
  "master_backoff_base (b_config master_builder) = 10" "master_backoff_max (b_config master_builder) = 40"
  "key_lockout_threshold (b_config master_builder) = 2" "key_lockout_duration (b_config master_builder) = None"
  "max_failures_before_lockout (b_config master_builder) = 2"
  by (simp_all add: master_builder_def with_master_unlock_backoff_def with_master_key_def demo_builder_def
      with_failure_threshold_def with_key_lockout_def with_codex_def with_audit_sink_def normalize_with_blake3_def
      builder_new_def vault_config_new_def fill_def demo_env_def counter_rng_def master_verifier_bytes_def)

lemma master_vault_simps [simp]:
  "v_master master_vault = Some (MasterReady (Heap (from_parts [master_verifier_bytes] [] 64)))"
  "master_backoff master_state = backoff_default" "world master_state = 32"
  "master_backoff_base (v_config master_vault) = 10" "master_backoff_max (v_config master_vault) = 40"
  "locked_out master_state = False" "failure_tracker master_state = Map.empty" "key_locks master_state = Map.empty"
  "key_lockout_threshold (v_config master_vault) = 2" "key_lockout_duration (v_config master_vault) = None"
  "max_failures_before_lockout (v_config master_vault) = 2"
proof -
  have "length master_verifier_bytes = 64"
    by (simp add: master_verifier_bytes_def)
  moreover have "make_normalizer demo_env master_builder (Map.empty, 0, 32) = (NormOff, Map.empty, 0, 32)"
    by (simp add: make_normalizer_def master_builder_def with_master_unlock_backoff_def with_master_key_def
        demo_builder_def with_failure_threshold_def with_key_lockout_def with_codex_def with_audit_sink_def
        normalize_with_blake3_def builder_new_def vault_config_new_def fill_def demo_env_def counter_rng_def)
  ultimately show "v_master master_vault = Some (MasterReady (Heap (from_parts [master_verifier_bytes] [] 64)))"
    "master_backoff master_state = backoff_default" "world master_state = 32" "locked_out master_state = False"
    "master_backoff_base (v_config master_vault) = 10" "master_backoff_max (v_config master_vault) = 40"
    "failure_tracker master_state = Map.empty" "key_locks master_state = Map.empty"
    "key_lockout_threshold (v_config master_vault) = 2" "key_lockout_duration (v_config master_vault) = None"
    "max_failures_before_lockout (v_config master_vault) = 2"
    by (simp_all add: master_vault_def master_state_def finish_def make_master_def master_builder_simps
        secret_new_def)
qed

lemma master_vault_reach:
  "vault_ok master_vault" "\<exists>k. reach demo_env master_vault k master_state Map.empty \<and>
     master_stored k = master_verifier_bytes"
proof -
  have f: "finish demo_env master_builder 1 32 = (master_vault, master_state)"
    by (simp add: master_vault_def master_state_def)
  show "vault_ok master_vault"
    by (rule finish_vault_ok [OF f])
       (auto simp: master_builder_simps fragmenter_choice_ok_def demo_codex_def codex_law_def)
  show "\<exists>k. reach demo_env master_vault k master_state Map.empty \<and> master_stored k = master_verifier_bytes"
    using finish_reach [OF f] master_builder_simps(1) by auto
qed

end
