(* ===== verification/Trail.thy ===== *)
theory Trail
  imports Service
begin

text \<open>
  What the audit sink is told. Every operation that touches key material and succeeds hands
  the sink exactly one event, with the name of the key and the kind of access; an operation
  that fails hands it nothing, except that a master credential that was compared and did not
  match is recorded as such.
\<close>

definition audited ::
  "'w env \<Rightarrow> 'w vault \<Rightarrow> string \<Rightarrow> access_kind \<Rightarrow> 'w vstate \<Rightarrow> 'w vstate \<Rightarrow> bool" where
  "audited E v name kd s s' \<longleftrightarrow> (\<exists>t. audit_log s' = audit_log s @
     (if v_audit_no_op v then []
      else [\<lparr>timestamp = t, ev_key_name = name, kind = kd, thread_id = env_thread E, ev_note = []\<rparr>]))"

lemma audited_emit: "audit_log t = audit_log s \<Longrightarrow> audited E v n kd s (emit_audit E v n kd [] t)"
  by (auto simp: audited_def emit_audit_def clock_unix_time_def split: prod.splits)

lemma audited_no_op: "v_audit_no_op v \<Longrightarrow> audit_log t = audit_log s \<Longrightarrow> audited E v n kd s t"
  by (simp add: audited_def)

section \<open>The parts of the operations that record nothing\<close>

text \<open>A field that two computations keep is kept by their sequence.\<close>

lemma rbind_frame:
  assumes "g (snd (m s)) = g s" "\<And>a s1. g (snd (f a s1)) = g s1"
  shows "g (snd (rbind m f s)) = g s"
  using assms by (auto simp: rbind_def split: prod.splits sum.splits)

lemma secret_read_frame2 [simp]:
  "audit_log (snd (secret_read E st f s)) = audit_log s" "keys (snd (secret_read E st f s)) = keys s"
  by (simp_all add: secret_read_def split: prod.split sum.split)

lemma normalize_frame2 [simp]:
  "audit_log (snd (normalize E v key s)) = audit_log s" "keys (snd (normalize E v key s)) = keys s"
  by (auto simp: normalize_def split: normalizer.split intro!: rbind_frame)

lemma pipeline_frame2 [simp]:
  "audit_log (snd (fragment_pipeline E v key s)) = audit_log s" "keys (snd (fragment_pipeline E v key s)) = keys s"
  by (auto simp: fragment_pipeline_def on_world_def Let_def split: prod.split intro!: rbind_frame)

lemma for_registry_frame2 [simp]:
  "audit_log (snd (fragment_for_registry E v key s)) = audit_log s"
  "keys (snd (fragment_for_registry E v key s)) = keys s"
  by (auto simp: fragment_for_registry_def protect_fragments_def split: prod.split sum.split intro!: rbind_frame)

lemma log_reassemble [simp]: "audit_log (snd (snd (reassemble E v st out s))) = audit_log s"
  by (simp add: reassemble_def Let_def split: prod.split sum.split)

lemma log_read_key [simp]: "audit_log (snd (read_key E v st (pure_cb g) s)) = audit_log s"
proof -
  let ?buf = "ensure_len (storage_total_len st) (scratch s)"
  let ?s = "s\<lparr>scratch := ?buf, scratch_borrowed := True\<rparr>"
  obtain x out s2 where re: "reassemble E v st (take (storage_total_len st) ?buf) ?s = (x, out, s2)"
    by (metis prod_cases3)
  have "audit_log s2 = audit_log s"
    using log_reassemble [of E v st "take (storage_total_len st) ?buf" ?s] re by simp
  then show ?thesis
    using re by (simp add: read_key_def Let_def pure_cb_def split: sum.split option.split)
qed

lemma log_clock [simp]:
  "audit_log (snd (clock_unix_time E s)) = audit_log s" "audit_log (snd (allocate_handle s)) = audit_log s"
  "audit_log (snd (clock_now E s)) = audit_log s"
  by (simp_all add: clock_unix_time_def allocate_handle_def clock_now_def split: prod.split)

section \<open>One event per operation\<close>

lemma register_audit:
  "case register E v name key s of
     (Inr h, s') \<Rightarrow> audited E v name Register s s'
   | (Inl e, s') \<Rightarrow> audit_log s' = audit_log s"
proof -
  obtain x s1 where f: "fragment_for_registry E v key s = (x, s1)" by fastforce
  have l: "audit_log s1 = audit_log s"
    using for_registry_frame2(1) [of E v key s] f by simp
  show ?thesis
    using f l
    by (cases x) (auto simp: register_def rbind_def Let_def split_beta register_install_def intro!: audited_emit)
qed

lemma rotate_audit:
  "case rotate E v h key s of
     (Inr u, s') \<Rightarrow> \<exists>e. kv_get (handle_id h) (keys s) = Some e \<and> audited E v (ke_name e) Rotate s s'
   | (Inl e, s') \<Rightarrow> audit_log s' = audit_log s"
proof (cases "is_locked_out s \<or> kv_get (handle_id h) (keys s) = None")
  case True
  then show ?thesis by (auto simp: rotate_def split: option.splits)
next
  case False
  then obtain e where e: "kv_get (handle_id h) (keys s) = Some e" "\<not> is_locked_out s" by auto
  obtain b s1 where k: "key_locked E (ke_name e) s = (b, s1)" by fastforce
  obtain x s2 where f: "fragment_for_registry E v key s1 = (x, s2)" by fastforce
  have l: "audit_log s2 = audit_log s" "keys s2 = keys s" "audit_log s1 = audit_log s"
    using for_registry_frame2 [of E v key s1] f key_locked_fields [of E "ke_name e" s] k by simp_all
  show ?thesis
    using e k f l
    by (cases b; cases x)
       (auto simp: rotate_def rbind_def Let_def split_beta rotate_install_def intro!: audited_emit)
qed

lemma unregister_audit:
  "case unregister E v h s of
     (Inr u, s') \<Rightarrow> \<exists>e. kv_get (handle_id h) (keys s) = Some e \<and> audited E v (ke_name e) Unregister s s'
   | (Inl e, s') \<Rightarrow> s' = s"
  by (auto simp: unregister_def Let_def split: option.split intro!: audited_emit)

lemma with_key_audit:
  "case with_key E v h (pure_cb g) s of
     (Inr a, s') \<Rightarrow> \<exists>e. kv_get (handle_id h) (keys s) = Some e \<and> audited E v (ke_name e) Read s s'
   | (Inl e, s') \<Rightarrow> audit_log s' = audit_log s"
proof (cases "is_locked_out s \<or> kv_get (handle_id h) (keys s) = None")
  case True
  then show ?thesis by (auto simp: with_key_def split: option.splits)
next
  case False
  then obtain e where e: "kv_get (handle_id h) (keys s) = Some e" "\<not> is_locked_out s" by auto
  obtain b s1 where k: "key_locked E (ke_name e) s = (b, s1)" by fastforce
  obtain x s2 where f: "read_key E v (ke_fragments e) (pure_cb g) s1 = (x, s2)" by fastforce
  have l: "audit_log s2 = audit_log s" "audit_log s1 = audit_log s"
    using log_read_key [of E v "ke_fragments e" g s1] f key_locked_fields [of E "ke_name e" s] k by simp_all
  show ?thesis
    using e k f l
    by (cases b; cases x) (auto simp: with_key_def rbind_def Let_def intro!: audited_emit audited_no_op)
qed

lemma fragment_audit:
  "case vault_fragment E v key s of
     (Inr fr, s') \<Rightarrow> audited E v [] OneShotFragment s s' | (Inl e, s') \<Rightarrow> audit_log s' = audit_log s"
proof -
  obtain x s1 where f: "fragment_pipeline E v key s = (x, s1)" by fastforce
  have "audit_log s1 = audit_log s"
    using pipeline_frame2(1) [of E v key s] f by simp
  then show ?thesis
    using f by (cases x) (auto simp: vault_fragment_def intro!: audited_emit)
qed

lemma defragment_audit:
  "case vault_defragment E v fr s of
     (Inr bs, s') \<Rightarrow> audited E v [] OneShotDefragment s s' | (Inl e, s') \<Rightarrow> s' = s"
  by (auto simp: vault_defragment_def Let_def split: sum.split intro!: audited_emit)

lemma unlock_audit:
  "case unlock_with_master E v attempt s of
     (Inr u, s') \<Rightarrow> audited E v MASTER_NAME (MasterUnlockAttempt True) s s'
   | (Inl e, s') \<Rightarrow> audit_log s' = audit_log s \<or> audited E v MASTER_NAME (MasterUnlockAttempt False) s s'"
proof -
  obtain now s1 where t: "clock_now E s = (now, s1)" by fastforce
  have l1: "audit_log s1 = audit_log s"
    using log_clock(3) [of E s] t by simp
  show ?thesis
  proof (cases "\<exists>st. v_master v = Some (MasterReady st) \<and> \<not> now < next_allowed (master_backoff s1)")
    case False
    then show ?thesis
      using t l1 by (auto simp: unlock_with_master_def split: option.splits if_splits master_verifier.splits)
  next
    case True
    then obtain st where st: "v_master v = Some (MasterReady st)" "\<not> now < next_allowed (master_backoff s1)"
      by blast
    obtain x s2 where rd: "secret_read E st (master_matches (env_blake3 E) attempt) s1 = (x, s2)"
      by fastforce
    have l2: "audit_log s2 = audit_log s"
      using secret_read_frame2(1) [of E st "master_matches (env_blake3 E) attempt" s1] rd l1 by simp
    have em: "audited E v MASTER_NAME kd s (emit_audit E v MASTER_NAME kd [] (s2\<lparr>master_backoff := b\<rparr>))" for kd b
      by (rule audited_emit) (simp add: l2)
    have cl: "audited E v n kd s (clear_lockout t) = audited E v n kd s t"
      "audited E v n kd s (handle_failure E v m nt p t) = audited E v n kd s t" for n kd t m nt p
      by (simp_all add: audited_def clear_lockout_def)
    show ?thesis
      using t st rd l2 em by (cases x) (auto simp: unlock_with_master_def rbind_def Let_def cl)
  qed
qed

end
