(* ===== verification/Paging.thy ===== *)
theory Paging
  imports Guarded
begin

text \<open>
  The page table of \<^verbatim>\<open>src/src/memory/mod.rs\<close>: which pages hold live key buffers, how many
  buffers each, and whether the operating system granted the lock and the exclusion from
  dumps. \<^verbatim>\<open>acquire_region\<close> and \<^verbatim>\<open>release_region\<close> run with the table's mutex held, so each is
  one step. Addresses are natural numbers below \<open>2 ^ 64\<close>; the masks of \<^verbatim>\<open>page_span\<close> are taken
  on 64-bit words.
\<close>

unbundle bit_operations_syntax

record page_state =
  refs :: nat
  ps_locked :: bool
  ps_no_dump :: bool

type_synonym page_table = "nat \<rightharpoonup> page_state"

section \<open>Operations\<close>

text \<open>\<^verbatim>\<open>addr & !(page - 1)\<close> on \<^verbatim>\<open>usize\<close>.\<close>

definition align_down :: "nat \<Rightarrow> nat \<Rightarrow> nat" where
  "align_down addr page = unat ((word_of_nat addr :: u64) AND NOT (word_of_nat page - 1))"

definition page_span :: "nat \<Rightarrow> nat \<Rightarrow> nat \<Rightarrow> nat \<times> nat" where
  "page_span addr len page =
     (align_down addr page, align_down (usize_saturating_add addr (len - 1)) page)"

text \<open>The body of the loop of \<^verbatim>\<open>acquire_region\<close>: one page.\<close>

definition acquire_page ::
  "'w os \<Rightarrow> nat \<Rightarrow> nat \<Rightarrow> page_table \<times> 'w \<Rightarrow> bool \<times> page_table \<times> 'w" where
  "acquire_page os page addr t =
     (case t of (tbl, w) \<Rightarrow>
        let st = (case tbl addr of Some st \<Rightarrow> st
                  | None \<Rightarrow> \<lparr>refs = 0, ps_locked = False, ps_no_dump = False\<rparr>);
            (lk, w1) = (if ps_locked st then (True, w) else os_lock_pages os w addr page);
            (nd, w2) = (if ps_no_dump st then (True, w1) else os_exclude_from_dumps os w1 addr page)
        in (lk, tbl(addr \<mapsto> \<lparr>refs = refs st + 1, ps_locked = lk, ps_no_dump = nd\<rparr>), w2))"

primrec acquire_loop ::
  "nat \<Rightarrow> 'w os \<Rightarrow> nat \<Rightarrow> nat \<Rightarrow> nat \<Rightarrow> bool \<Rightarrow> page_table \<times> 'w \<Rightarrow> bool result \<times> page_table \<times> 'w" where
  "acquire_loop 0 os page addr final all_locked t = (Inl Diverge, t)"
| "acquire_loop (Suc fuel) os page addr final all_locked t =
     (let (lk, t') = acquire_page os page addr t; all_locked' = (all_locked \<and> lk)
      in if addr = final then (Inr all_locked', t')
         else acquire_loop fuel os page (addr + page) final all_locked' t')"

definition acquire_region :: "'w os \<Rightarrow> nat \<Rightarrow> nat \<Rightarrow> page_table \<times> 'w \<Rightarrow> bool result \<times> page_table \<times> 'w" where
  "acquire_region os addr len t =
     (let page = page_size os; (first, final) = page_span addr len page
      in acquire_loop (Suc ((final - first) div page)) os page first final True t)"

text \<open>\<^verbatim>\<open>state.refs -= 1\<close> panics below zero.\<close>

definition release_page :: "'w os \<Rightarrow> nat \<Rightarrow> nat \<Rightarrow> page_table \<times> 'w \<Rightarrow> unit result \<times> page_table \<times> 'w" where
  "release_page os page addr t =
     (case t of (tbl, w) \<Rightarrow>
        (case tbl addr of
           None \<Rightarrow> (Inr (), tbl, w)
         | Some st \<Rightarrow>
             if refs st = 0 then (Inl Panic, tbl, w)
             else let st' = st\<lparr>refs := refs st - 1\<rparr>
                  in if refs st' = 0
                     then let w1 = (if ps_locked st' then os_unlock_pages os w addr page else w);
                              w2 = (if ps_no_dump st' then os_include_in_dumps os w1 addr page else w1)
                          in (Inr (), tbl(addr := None), w2)
                     else (Inr (), tbl(addr \<mapsto> st'), w)))"

primrec release_loop ::
  "nat \<Rightarrow> 'w os \<Rightarrow> nat \<Rightarrow> nat \<Rightarrow> nat \<Rightarrow> page_table \<times> 'w \<Rightarrow> unit result \<times> page_table \<times> 'w" where
  "release_loop 0 os page addr final t = (Inl Diverge, t)"
| "release_loop (Suc fuel) os page addr final t =
     (case release_page os page addr t of
        (Inl e, t') \<Rightarrow> (Inl e, t')
      | (Inr u, t') \<Rightarrow>
          if addr = final then (Inr (), t') else release_loop fuel os page (addr + page) final t')"

definition release_region :: "'w os \<Rightarrow> nat \<Rightarrow> nat \<Rightarrow> page_table \<times> 'w \<Rightarrow> unit result \<times> page_table \<times> 'w" where
  "release_region os addr len t =
     (let page = page_size os; (first, final) = page_span addr len page
      in release_loop (Suc ((final - first) div page)) os page first final t)"

section \<open>The pages of a buffer\<close>

lemma align_down_eq:
  assumes "addr < 2 ^ 64" "k < 64"
  shows "align_down addr (2 ^ k) = addr div 2 ^ k * 2 ^ k"
proof -
  have m: "(word_of_nat (2 ^ k) - 1 :: u64) = mask k"
    by (simp add: mask_eq_exp_minus_1)
  have "(word_of_nat addr :: u64) AND NOT (mask k) = push_bit k (drop_bit k (word_of_nat addr))"
    by (rule bit_word_eqI) (auto simp: bit_simps)
  then have "align_down addr (2 ^ k) = unat (push_bit k (drop_bit k (word_of_nat addr :: u64)))"
    by (simp only: align_down_def m)
  also have "\<dots> = take_bit 64 (push_bit k (drop_bit k addr))"
    using assms(1) by (simp add: unsigned_push_bit_eq unsigned_drop_bit_eq unsigned_of_nat take_bit_nat_eq_self)
  also have "\<dots> = take_bit 64 (addr div 2 ^ k * 2 ^ k)"
    by (simp add: push_bit_eq_mult drop_bit_eq_div)
  also have "\<dots> = addr div 2 ^ k * 2 ^ k"
  proof (rule take_bit_nat_eq_self)
    have "addr div 2 ^ k * 2 ^ k \<le> addr" by simp
    then show "addr div 2 ^ k * 2 ^ k < 2 ^ 64" using assms(1) by linarith
  qed
  finally show ?thesis .
qed

text \<open>A page, by its start address, that a buffer touches.\<close>

definition touches :: "nat \<Rightarrow> nat \<Rightarrow> nat \<Rightarrow> nat \<Rightarrow> bool" where
  "touches page addr len p \<longleftrightarrow> page dvd p \<and> p < addr + len \<and> addr < p + page"

text \<open>A buffer that lies in the address space.\<close>

definition valid_buffer :: "nat \<Rightarrow> nat \<Rightarrow> bool" where
  "valid_buffer addr len \<longleftrightarrow> 0 < len \<and> addr + len \<le> 2 ^ 64"

lemma page_span_eq:
  fixes os :: "'w os"
  assumes "valid_buffer addr len"
  defines "page \<equiv> page_size os"
  shows "page_span addr len page = (addr div page * page, (addr + len - 1) div page * page)"
proof -
  obtain k where k: "k < 64" "page = 2 ^ k"
    using page_size_power [of os] page_def by blast
  have "usize_saturating_add addr (len - 1) = addr + len - 1"
    using assms(1) by (auto simp: usize_saturating_add_def usize_max_def valid_buffer_def min_def)
  moreover have "addr < 2 ^ 64" "addr + len - 1 < 2 ^ 64"
    using assms(1) by (auto simp: valid_buffer_def)
  ultimately show ?thesis
    using k align_down_eq [of _ k] by (simp add: page_span_def del: One_nat_def)
qed

text \<open>The pages the loops visit, in order: from the first to the last, one page apart.\<close>

definition visited :: "nat \<Rightarrow> nat \<Rightarrow> nat \<Rightarrow> nat list" where
  "visited page first n = map (\<lambda>i. first + i * page) [0..<Suc n]"

lemma touches_iff:
  assumes "0 < page" "0 < len"
  shows "touches page addr len p \<longleftrightarrow>
    p \<in> set (visited page (addr div page * page) ((addr + len - 1) div page - addr div page))"
proof -
  let ?a = "addr div page" and ?b = "(addr + len - 1) div page"
  have ab: "?a \<le> ?b"
    using assms(2) by (intro div_le_mono) simp
  have "page dvd p \<and> p < addr + len \<and> addr < p + page \<longleftrightarrow> (\<exists>q. p = q * page \<and> ?a \<le> q \<and> q \<le> ?b)"
  proof
    assume r: "page dvd p \<and> p < addr + len \<and> addr < p + page"
    then obtain q where q: "p = q * page"
      by (metis dvd_div_mult_self)
    have "addr div page < Suc q"
      using r q assms(1) by (simp add: div_less_iff_less_mult add.commute)
    moreover have "q * page \<le> addr + len - 1"
      using r q by linarith
    then have "q \<le> ?b"
      using assms(1) by (simp add: less_eq_div_iff_mult_less_eq)
    ultimately show "\<exists>q. p = q * page \<and> ?a \<le> q \<and> q \<le> ?b"
      using q by auto
  next
    assume "\<exists>q. p = q * page \<and> ?a \<le> q \<and> q \<le> ?b"
    then obtain q where q: "p = q * page" "?a < Suc q" "q \<le> ?b"
      by (metis le_imp_less_Suc)
    have "addr < Suc q * page"
      using q(2) assms(1) by (simp add: div_less_iff_less_mult)
    moreover have "q * page \<le> addr + len - 1"
      using q(3) assms(1) by (simp add: less_eq_div_iff_mult_less_eq)
    ultimately show "page dvd p \<and> p < addr + len \<and> addr < p + page"
      using q(1) assms(2) by auto
  qed
  also have "\<dots> \<longleftrightarrow> (\<exists>i. i \<le> ?b - ?a \<and> p = (?a + i) * page)"
  proof
    assume "\<exists>q. p = q * page \<and> ?a \<le> q \<and> q \<le> ?b"
    then obtain q where "p = q * page" "?a \<le> q" "q \<le> ?b" by blast
    then show "\<exists>i. i \<le> ?b - ?a \<and> p = (?a + i) * page"
      by (intro exI [of _ "q - ?a"]) simp
  next
    assume "\<exists>i. i \<le> ?b - ?a \<and> p = (?a + i) * page"
    then obtain i where "i \<le> ?b - ?a" "p = (?a + i) * page" by blast
    then show "\<exists>q. p = q * page \<and> ?a \<le> q \<and> q \<le> ?b"
      using ab by (intro exI [of _ "?a + i"]) simp
  qed
  also have "\<dots> \<longleftrightarrow> p \<in> set (visited page (?a * page) (?b - ?a))"
    by (auto simp: visited_def add_mult_distrib less_Suc_eq_le image_iff simp del: upt_Suc)
  finally show ?thesis
    by (simp add: touches_def)
qed

section \<open>What the loops do\<close>

lemma visited_Suc: "visited page first (Suc n) = first # visited page (first + page) n"
  unfolding visited_def map_upt_Suc [of _ "Suc n"] by (simp add: algebra_simps)

primrec acquire_pages :: "'w os \<Rightarrow> nat \<Rightarrow> nat list \<Rightarrow> bool \<times> page_table \<times> 'w \<Rightarrow> bool \<times> page_table \<times> 'w" where
  "acquire_pages os page [] r = r"
| "acquire_pages os page (p # ps) r =
     (let (lk, t') = acquire_page os page p (snd r) in acquire_pages os page ps (fst r \<and> lk, t'))"

lemma acquire_loop_pages:
  assumes "0 < page"
  shows "final = addr + n * page \<Longrightarrow> acquire_loop (Suc n) os page addr final al t =
     (Inr (fst (acquire_pages os page (visited page addr n) (al, t))),
      snd (acquire_pages os page (visited page addr n) (al, t)))"
proof (induction n arbitrary: addr al t)
  case 0
  then show ?case
    by (simp add: visited_def Let_def split_beta)
next
  case (Suc n)
  have "final = (addr + page) + n * page" "addr \<noteq> final"
    using assms Suc.prems by simp_all
  from Suc.IH [OF this(1)] this(2) show ?case
    unfolding visited_Suc acquire_loop.simps(2) [of "Suc n"]
    by (simp add: Let_def split_beta del: acquire_loop.simps(2))
qed

primrec release_pages :: "'w os \<Rightarrow> nat \<Rightarrow> nat list \<Rightarrow> page_table \<times> 'w \<Rightarrow> unit result \<times> page_table \<times> 'w" where
  "release_pages os page [] t = (Inr (), t)"
| "release_pages os page (p # ps) t =
     (case release_page os page p t of (Inl e, t') \<Rightarrow> (Inl e, t') | (Inr u, t') \<Rightarrow> release_pages os page ps t')"

lemma release_loop_pages:
  assumes "0 < page"
  shows "final = addr + n * page \<Longrightarrow> release_loop (Suc n) os page addr final t =
     release_pages os page (visited page addr n) t"
proof (induction n arbitrary: addr t)
  case 0
  then show ?case
    by (simp add: visited_def split: prod.split sum.split)
next
  case (Suc n)
  have "final = (addr + page) + n * page" "addr \<noteq> final"
    using assms Suc.prems by simp_all
  from Suc.IH [OF this(1)] this(2) show ?case
    unfolding visited_Suc release_loop.simps(2) [of "Suc n"]
    by (simp del: release_loop.simps(2) split: prod.split sum.split)
qed

section \<open>Counting the buffers of a page\<close>

text \<open>
  What the calls on pages do, as the manuals of \<^verbatim>\<open>mlock\<close> and \<^verbatim>\<open>VirtualLock\<close> say it: a
  successful lock of a range of whole pages holds the pages of the range; an unlock, whose result
  the code ignores, either lets them go or fails and changes nothing; a lock that fails and the
  calls about dumps change nothing that is held. \<open>unlock_frees\<close> says that unlocking a page does not fail.
\<close>

definition lock_law :: "'w os \<Rightarrow> ('w \<Rightarrow> nat \<Rightarrow> bool) \<Rightarrow> bool" where
  "lock_law os held \<longleftrightarrow> (\<forall>w a n p. page_size os dvd a \<longrightarrow> page_size os dvd n \<longrightarrow> page_size os dvd p \<longrightarrow>
     held (snd (os_lock_pages os w a n)) p = (held w p \<or> fst (os_lock_pages os w a n) \<and> a \<le> p \<and> p < a + n) \<and>
     (held (os_unlock_pages os w a n) p \<longrightarrow> held w p) \<and>
     (held w p \<and> \<not> (a \<le> p \<and> p < a + n) \<longrightarrow> held (os_unlock_pages os w a n) p) \<and>
     held (snd (os_exclude_from_dumps os w a n)) p = held w p \<and>
     held (os_include_in_dumps os w a n) p = held w p)"

definition unlock_frees :: "'w os \<Rightarrow> ('w \<Rightarrow> nat \<Rightarrow> bool) \<Rightarrow> bool" where
  "unlock_frees os held \<longleftrightarrow> (\<forall>w a. page_size os dvd a \<longrightarrow> \<not> held (os_unlock_pages os w a (page_size os)) a)"

lemma lock_lawD:
  assumes "lock_law os held" "page_size os dvd a" "page_size os dvd n" "page_size os dvd p"
  shows "held (snd (os_lock_pages os w a n)) p = (held w p \<or> fst (os_lock_pages os w a n) \<and> a \<le> p \<and> p < a + n)"
    "held (os_unlock_pages os w a n) p \<Longrightarrow> held w p"
    "held w p \<Longrightarrow> \<not> (a \<le> p \<and> p < a + n) \<Longrightarrow> held (os_unlock_pages os w a n) p"
    "held (snd (os_exclude_from_dumps os w a n)) p = held w p"
    "held (os_include_in_dumps os w a n) p = held w p"
  using assms unfolding lock_law_def by blast+

text \<open>
  The form the loops use: the law for calls on the single pages of a set \<open>D\<close>, the only ones whose
  locks \<open>held\<close> counts. Pages that somebody else locks are left out of \<open>D\<close>.
\<close>

definition page_law :: "'w os \<Rightarrow> ('w \<Rightarrow> nat \<Rightarrow> bool) \<Rightarrow> nat set \<Rightarrow> bool" where
  "page_law os held D \<longleftrightarrow> (\<forall>w a p. a \<in> D \<longrightarrow>
     held (snd (os_lock_pages os w a (page_size os))) p = (held w p \<or> fst (os_lock_pages os w a (page_size os)) \<and> p = a) \<and>
     (held (os_unlock_pages os w a (page_size os)) p \<longrightarrow> held w p) \<and>
     (held w p \<and> p \<noteq> a \<longrightarrow> held (os_unlock_pages os w a (page_size os)) p) \<and>
     held (snd (os_exclude_from_dumps os w a (page_size os))) p = held w p \<and>
     held (os_include_in_dumps os w a (page_size os)) p = held w p)"

lemma page_lawD:
  assumes "page_law os held D" "a \<in> D"
  shows "held (snd (os_lock_pages os w a (page_size os))) p = (held w p \<or> fst (os_lock_pages os w a (page_size os)) \<and> p = a)"
    "held (os_unlock_pages os w a (page_size os)) p \<Longrightarrow> held w p"
    "held w p \<Longrightarrow> p \<noteq> a \<Longrightarrow> held (os_unlock_pages os w a (page_size os)) p"
    "held (snd (os_exclude_from_dumps os w a (page_size os))) p = held w p"
    "held (os_include_in_dumps os w a (page_size os)) p = held w p"
  using assms unfolding page_law_def by blast+

text \<open>The pages in \<open>D\<close> and what of them is held.\<close>

definition within :: "('w \<Rightarrow> nat \<Rightarrow> bool) \<Rightarrow> nat set \<Rightarrow> 'w \<Rightarrow> nat \<Rightarrow> bool" where
  "within held D w p \<longleftrightarrow> p \<in> D \<and> held w p"

lemma same_page:
  fixes a p page :: nat
  assumes "page dvd a" "page dvd p"
  shows "a \<le> p \<and> p < a + page \<longleftrightarrow> p = a \<and> 0 < page"
proof -
  obtain i j where ij: "a = page * i" "p = page * j"
    using assms by (auto simp: dvd_def)
  have "page * j < page * i + page \<longleftrightarrow> 0 < page \<and> j < Suc i"
    using nat_mult_less_cancel_disj [of page j "Suc i"] by (simp add: add.commute)
  then show ?thesis
    using ij by auto
qed

lemma page_law_within:
  assumes "lock_law os held" "\<forall>p\<in>D. page_size os dvd p"
  shows "page_law os (within held D) D"
  unfolding page_law_def
proof (intro allI impI)
  fix w a p assume a: "a \<in> D"
  show "within held D (snd (os_lock_pages os w a (page_size os))) p =
      (within held D w p \<or> fst (os_lock_pages os w a (page_size os)) \<and> p = a) \<and>
    (within held D (os_unlock_pages os w a (page_size os)) p \<longrightarrow> within held D w p) \<and>
    (within held D w p \<and> p \<noteq> a \<longrightarrow> within held D (os_unlock_pages os w a (page_size os)) p) \<and>
    within held D (snd (os_exclude_from_dumps os w a (page_size os))) p = within held D w p \<and>
    within held D (os_include_in_dumps os w a (page_size os)) p = within held D w p"
  proof (cases "p \<in> D")
    case True
    then have d: "page_size os dvd a" "page_size os dvd p"
      using assms(2) a by auto
    show ?thesis
      using lock_lawD [OF assms(1) d(1) dvd_refl d(2), of w] same_page [OF d] a True by (auto simp: within_def)
  qed (use a in \<open>auto simp: within_def\<close>)
qed

definition refs_of :: "page_table \<Rightarrow> nat \<Rightarrow> nat" where
  "refs_of tbl p = (case tbl p of None \<Rightarrow> 0 | Some st \<Rightarrow> refs st)"

lemma refs_of_update [simp]:
  "refs_of (tbl(a \<mapsto> st)) p = (if p = a then refs st else refs_of tbl p)"
  "refs_of (tbl(a := None)) p = (if p = a then 0 else refs_of tbl p)"
  by (simp_all add: refs_of_def)

text \<open>
  The table counts \<open>c\<close> buffers per page, has no empty entry, and what it says is locked is held. When
  it is \<open>exact\<close>, nothing else is: that takes an operating system whose unlocking does not fail.
\<close>

definition counts :: "('w \<Rightarrow> nat \<Rightarrow> bool) \<Rightarrow> (nat \<Rightarrow> nat) \<Rightarrow> page_table \<times> 'w \<Rightarrow> bool" where
  "counts held c t \<longleftrightarrow> (\<forall>p. refs_of (fst t) p = c p) \<and> (\<forall>p st. fst t p = Some st \<longrightarrow> 0 < refs st) \<and>
     (\<forall>p st. fst t p = Some st \<longrightarrow> ps_locked st \<longrightarrow> held (snd t) p)"

definition exact :: "('w \<Rightarrow> nat \<Rightarrow> bool) \<Rightarrow> page_table \<times> 'w \<Rightarrow> bool" where
  "exact held t \<longleftrightarrow> (\<forall>p. held (snd t) p \<longrightarrow> (\<exists>st. fst t p = Some st \<and> ps_locked st))"

lemma countsD:
  assumes "counts held c (tbl, w)"
  shows "refs_of tbl p = c p" "tbl p = Some st \<Longrightarrow> 0 < refs st" "tbl p = Some st \<Longrightarrow> ps_locked st \<Longrightarrow> held w p"
  using assms by (simp_all add: counts_def)

lemma countsI:
  assumes "\<And>p. refs_of tbl p = c p" "\<And>p st. tbl p = Some st \<Longrightarrow> 0 < refs st"
    "\<And>p st. tbl p = Some st \<Longrightarrow> ps_locked st \<Longrightarrow> held w p"
  shows "counts held c (tbl, w)"
  using assms by (simp add: counts_def)

lemma acquire_page_counts:
  assumes "page_law os held D" "a \<in> D" "counts held c t" "acquire_page os (page_size os) a t = (lk, t')"
  shows "counts held (c(a := c a + 1)) t'" "lk \<Longrightarrow> held (snd t') a" "held (snd t) p \<Longrightarrow> held (snd t') p"
    "exact held t \<Longrightarrow> exact held t'"
proof -
  obtain tbl w where t: "t = (tbl, w)" by fastforce
  define st where "st = (case tbl a of Some st \<Rightarrow> st | None \<Rightarrow> \<lparr>refs = 0, ps_locked = False, ps_no_dump = False\<rparr>)"
  obtain w1 nd w2 where
    l: "(if ps_locked st then (True, w) else os_lock_pages os w a (page_size os)) = (lk, w1)" and
    e: "(if ps_no_dump st then (True, w1) else os_exclude_from_dumps os w1 a (page_size os)) = (nd, w2)" and
    t': "t' = (tbl(a \<mapsto> \<lparr>refs = refs st + 1, ps_locked = lk, ps_no_dump = nd\<rparr>), w2)"
    using assms(4) unfolding acquire_page_def t Let_def
    by (auto simp: st_def [symmetric] split: prod.splits)
  have rs: "refs st = c a"
    using assms(3) t by (auto simp: counts_def refs_of_def st_def split: option.split dest!: spec [of _ a])
  have ps: "ps_locked st \<Longrightarrow> held w a"
    using assms(3) t by (auto simp: counts_def st_def split: option.splits)
  have h2: "held w2 p \<longleftrightarrow> held w1 p" for p
    using e page_lawD(4) [OF assms(1,2), of w1 p] by (auto split: if_splits)
  have h1: "held w1 p \<longleftrightarrow> held w p \<or> lk \<and> p = a" for p
    using l ps page_lawD(1) [OF assms(1,2), of w p] by (auto split: if_splits)
  show "lk \<Longrightarrow> held (snd t') a" "held (snd t) p \<Longrightarrow> held (snd t') p"
    using h1 h2 t t' by simp_all
  let ?tbl = "tbl(a \<mapsto> \<lparr>refs = refs st + 1, ps_locked = lk, ps_no_dump = nd\<rparr>)"
  show "counts held (c(a := c a + 1)) t'"
    unfolding t'
  proof (rule countsI)
    note c = countsD [OF assms(3) [unfolded t]]
    show "refs_of ?tbl p = (c(a := c a + 1)) p" for p
      using c(1) [of p] rs by simp
    show "?tbl p = Some x \<Longrightarrow> 0 < refs x" for p x
      using c(2) [of p x] by (auto split: if_splits)
    show "?tbl p = Some x \<Longrightarrow> ps_locked x \<Longrightarrow> held w2 p" for p x
      using c(3) [of p x] h1 [of p] h2 [of p] by (auto split: if_splits)
  qed
  assume x: "exact held t"
  have "held w a \<Longrightarrow> lk"
    using x l t by (auto simp: exact_def st_def split: if_splits option.splits)
  then show "exact held t'"
    using x h1 h2 t t' by (auto simp: exact_def)
qed

lemma acquire_pages_counts:
  assumes "page_law os held D" "set ps \<subseteq> D" "distinct ps" "counts held c (snd r)"
    "acquire_pages os (page_size os) ps r = (al, t')"
  shows "counts held (\<lambda>p. c p + (if p \<in> set ps then 1 else 0)) t'"
    "al \<Longrightarrow> q \<in> set ps \<Longrightarrow> held (snd t') q" "held (snd (snd r)) q \<Longrightarrow> held (snd t') q"
    "exact held (snd r) \<Longrightarrow> exact held t'"
proof -
  have "counts held (\<lambda>p. c p + (if p \<in> set ps then 1 else 0)) t' \<and>
    (al \<longrightarrow> fst r \<and> (\<forall>p\<in>set ps. held (snd t') p)) \<and> (\<forall>q. held (snd (snd r)) q \<longrightarrow> held (snd t') q) \<and>
    (exact held (snd r) \<longrightarrow> exact held t')"
    using assms(2-5)
  proof (induction ps arbitrary: r c)
    case Nil
    then show ?case by auto
  next
    case (Cons a ps)
    obtain lk t1 where a: "acquire_page os (page_size os) a (snd r) = (lk, t1)" by (rule prod.exhaust)
    have D: "a \<in> D" "set ps \<subseteq> D"
      using Cons.prems(1) by simp_all
    note s = acquire_page_counts [OF assms(1) D(1) Cons.prems(3) a]
    have rest: "acquire_pages os (page_size os) ps (fst r \<and> lk, t1) = (al, t')"
      using Cons.prems(4) a by simp
    have "counts held (\<lambda>p. (c(a := c a + 1)) p + (if p \<in> set ps then 1 else 0)) t' \<and>
      (al \<longrightarrow> (fst r \<and> lk) \<and> (\<forall>p\<in>set ps. held (snd t') p)) \<and> (\<forall>q. held (snd t1) q \<longrightarrow> held (snd t') q) \<and>
      (exact held t1 \<longrightarrow> exact held t')"
    proof -
      have "distinct ps" "counts held (c(a := c a + 1)) (snd (fst r \<and> lk, t1))"
        using Cons.prems(2) s(1) by simp_all
      from Cons.IH [OF D(2) this rest] show ?thesis by simp
    qed
    moreover have "(\<lambda>p. (c(a := c a + 1)) p + (if p \<in> set ps then 1 else 0)) =
        (\<lambda>p. c p + (if p \<in> set (a # ps) then 1 else 0))"
      using Cons.prems(2) by auto
    ultimately show ?case
      using s(2-4) by auto
  qed
  then show "counts held (\<lambda>p. c p + (if p \<in> set ps then 1 else 0)) t'"
    "al \<Longrightarrow> q \<in> set ps \<Longrightarrow> held (snd t') q" "held (snd (snd r)) q \<Longrightarrow> held (snd t') q"
    "exact held (snd r) \<Longrightarrow> exact held t'"
    by blast+
qed

lemma release_page_counts:
  assumes "page_law os held D" "a \<in> D" "counts held c t" "0 < c a"
  shows "\<exists>t'. release_page os (page_size os) a t = (Inr (), t') \<and> counts held (c(a := c a - 1)) t' \<and>
    (\<forall>p. held (snd t) p \<and> (p = a \<longrightarrow> 1 < c a) \<longrightarrow> held (snd t') p) \<and>
    ((\<forall>w. \<not> held (os_unlock_pages os w a (page_size os)) a) \<longrightarrow> exact held t \<longrightarrow> exact held t')"
proof -
  obtain tbl w where t: "t = (tbl, w)" by fastforce
  note c = countsD [OF assms(3) [unfolded t]]
  obtain st where st: "tbl a = Some st" "refs st = c a"
    using c(1) [of a] assms(4) by (cases "tbl a") (auto simp: refs_of_def)
  show ?thesis
  proof (cases "c a = 1")
    case True
    define w1 where "w1 = (if ps_locked st then os_unlock_pages os w a (page_size os) else w)"
    define w2 where "w2 = (if ps_no_dump st then os_include_in_dumps os w1 a (page_size os) else w1)"
    have r: "release_page os (page_size os) a t = (Inr (), tbl(a := None), w2)"
      using st True by (simp add: release_page_def t w1_def w2_def Let_def)
    have h2: "held w2 p \<longleftrightarrow> held w1 p" for p
      using page_lawD(5) [OF assms(1,2), of w1 p] by (simp add: w2_def)
    have h: "held w p \<Longrightarrow> p \<noteq> a \<Longrightarrow> held w2 p" "held w2 p \<Longrightarrow> held w p" for p
      using page_lawD(2,3) [OF assms(1,2), of w p] h2 [of p] by (auto simp: w1_def split: if_splits)
    have "counts held (c(a := c a - 1)) (tbl(a := None), w2)"
    proof (rule countsI)
      show "refs_of (tbl(a := None)) p = (c(a := c a - 1)) p" for p
        using c(1) [of p] True by simp
      show "(tbl(a := None)) p = Some x \<Longrightarrow> 0 < refs x" for p x
        using c(2) [of p x] by (auto split: if_splits)
      show "(tbl(a := None)) p = Some x \<Longrightarrow> ps_locked x \<Longrightarrow> held w2 p" for p x
        using c(3) [of p x] h(1) [of p] by (auto split: if_splits)
    qed
    moreover have "exact held (tbl(a := None), w2)"
      if f: "\<forall>w. \<not> held (os_unlock_pages os w a (page_size os)) a" and x: "exact held t"
    proof -
      have "\<not> held w2 a"
        using f x st(1) t unfolding h2 by (auto simp: w1_def exact_def)
      then show ?thesis
        using x h(2) t by (auto simp: exact_def)
    qed
    ultimately show ?thesis
      using r h(1) True t by (intro exI [of _ "(tbl(a := None), w2)"]) auto
  next
    case False
    let ?tbl = "tbl(a \<mapsto> st\<lparr>refs := refs st - 1\<rparr>)"
    have r: "release_page os (page_size os) a t = (Inr (), ?tbl, w)"
      using st False assms(4) by (simp add: release_page_def t Let_def)
    have "counts held (c(a := c a - 1)) (?tbl, w)"
    proof (rule countsI)
      show "refs_of ?tbl p = (c(a := c a - 1)) p" for p
        using c(1) [of p] st(2) by simp
      show "?tbl p = Some x \<Longrightarrow> 0 < refs x" for p x
        using c(2) [of p x] st(2) False assms(4) by (auto split: if_splits)
      show "?tbl p = Some x \<Longrightarrow> ps_locked x \<Longrightarrow> held w p" for p x
        using c(3) [of p x] c(3) [OF st(1)] by (auto split: if_splits)
    qed
    moreover have "exact held t \<Longrightarrow> exact held (?tbl, w)"
      using st(1) t by (auto simp: exact_def)
    ultimately show ?thesis
      using r False assms(4) t by (intro exI [of _ "(?tbl, w)"]) auto
  qed
qed

lemma release_pages_counts:
  assumes "page_law os held D" "set ps \<subseteq> D" "distinct ps" "counts held c t" "\<forall>p\<in>set ps. 0 < c p"
  shows "\<exists>t'. release_pages os (page_size os) ps t = (Inr (), t') \<and>
    counts held (\<lambda>p. c p - (if p \<in> set ps then 1 else 0)) t' \<and>
    (\<forall>p. held (snd t) p \<and> (p \<in> set ps \<longrightarrow> 1 < c p) \<longrightarrow> held (snd t') p) \<and>
    ((\<forall>w. \<forall>p\<in>set ps. \<not> held (os_unlock_pages os w p (page_size os)) p) \<longrightarrow> exact held t \<longrightarrow> exact held t')"
  using assms(2-5)
proof (induction ps arbitrary: t c)
  case Nil
  then show ?case by simp
next
  case (Cons a ps)
  have D: "a \<in> D" "set ps \<subseteq> D"
    using Cons.prems(1) by simp_all
  obtain t1 where t1: "release_page os (page_size os) a t = (Inr (), t1)" "counts held (c(a := c a - 1)) t1"
    "\<forall>p. held (snd t) p \<and> (p = a \<longrightarrow> 1 < c a) \<longrightarrow> held (snd t1) p"
    "(\<forall>w. \<not> held (os_unlock_pages os w a (page_size os)) a) \<longrightarrow> exact held t \<longrightarrow> exact held t1"
    using release_page_counts [OF assms(1) D(1) Cons.prems(3) bspec [OF Cons.prems(4) list.set_intros(1)]] by blast
  have distinct: "distinct ps"
    using Cons.prems(2) by simp
  have pos: "\<forall>p\<in>set ps. 0 < (c(a := c a - 1)) p"
    using Cons.prems(2,4) by auto
  obtain t' where t': "release_pages os (page_size os) ps t1 = (Inr (), t')"
    "counts held (\<lambda>p. (c(a := c a - 1)) p - (if p \<in> set ps then 1 else 0)) t'"
    "\<forall>p. held (snd t1) p \<and> (p \<in> set ps \<longrightarrow> 1 < (c(a := c a - 1)) p) \<longrightarrow> held (snd t') p"
    "(\<forall>w. \<forall>p\<in>set ps. \<not> held (os_unlock_pages os w p (page_size os)) p) \<longrightarrow> exact held t1 \<longrightarrow> exact held t'"
    using Cons.IH [OF D(2) distinct t1(2) pos] by blast
  have "(\<lambda>p. (c(a := c a - 1)) p - (if p \<in> set ps then 1 else 0)) =
      (\<lambda>p. c p - (if p \<in> set (a # ps) then 1 else 0))"
    using Cons.prems(2) by auto
  then show ?case
    using t1 t' Cons.prems(2) by (intro exI [of _ t']) auto
qed

section \<open>Acquiring and releasing a buffer\<close>

definition page_count :: "'w os \<Rightarrow> nat \<Rightarrow> nat \<Rightarrow> nat" where
  "page_count os addr len = (addr + len - 1) div page_size os - addr div page_size os"

abbreviation buffer_pages :: "'w os \<Rightarrow> nat \<Rightarrow> nat \<Rightarrow> nat list" where
  "buffer_pages os addr len \<equiv> visited (page_size os) (addr div page_size os * page_size os) (page_count os addr len)"

lemma distinct_visited: "0 < page \<Longrightarrow> distinct (visited page first n)"
  by (simp add: visited_def distinct_map inj_on_def del: upt_Suc)

lemma span_fuel:
  assumes "valid_buffer addr len"
  shows "page_span addr len (page_size os) =
      (addr div page_size os * page_size os, addr div page_size os * page_size os + page_count os addr len * page_size os)"
    "((addr div page_size os * page_size os + page_count os addr len * page_size os) - addr div page_size os * page_size os)
       div page_size os = page_count os addr len"
proof -
  have "addr div page_size os \<le> (addr + len - 1) div page_size os"
    using assms by (intro div_le_mono) (auto simp: valid_buffer_def)
  then have "addr div page_size os + page_count os addr len = (addr + len - 1) div page_size os"
    by (simp add: page_count_def)
  then show "page_span addr len (page_size os) =
      (addr div page_size os * page_size os, addr div page_size os * page_size os + page_count os addr len * page_size os)"
    unfolding page_span_eq [OF assms] by (metis add_mult_distrib)
  show "((addr div page_size os * page_size os + page_count os addr len * page_size os) - addr div page_size os * page_size os)
       div page_size os = page_count os addr len"
    using page_size_pos [of os] by simp
qed

lemma acquire_region_pages:
  assumes "valid_buffer addr len"
  shows "acquire_region os addr len t =
    (Inr (fst (acquire_pages os (page_size os) (buffer_pages os addr len) (True, t))),
     snd (acquire_pages os (page_size os) (buffer_pages os addr len) (True, t)))"
  unfolding acquire_region_def Let_def span_fuel(1) [OF assms] prod.case span_fuel(2) [OF assms]
  by (rule acquire_loop_pages) simp_all

lemma release_region_pages:
  assumes "valid_buffer addr len"
  shows "release_region os addr len t = release_pages os (page_size os) (buffer_pages os addr len) t"
  unfolding release_region_def Let_def span_fuel(1) [OF assms] prod.case span_fuel(2) [OF assms]
  by (rule release_loop_pages) simp_all

lemma set_buffer_pages:
  assumes "valid_buffer addr len"
  shows "p \<in> set (buffer_pages os addr len) \<longleftrightarrow> touches (page_size os) addr len p"
  using touches_iff [of "page_size os" len addr p] assms by (simp add: page_count_def valid_buffer_def)

text \<open>The loops change the world only by calls on the pages of the buffer.\<close>

lemma acquire_pages_frame:
  assumes "\<And>w p. p \<in> set ps \<Longrightarrow> \<phi> (snd (os_lock_pages os w p page)) = \<phi> w"
    "\<And>w p. p \<in> set ps \<Longrightarrow> \<phi> (snd (os_exclude_from_dumps os w p page)) = \<phi> w"
  shows "\<phi> (snd (snd (acquire_pages os page ps r))) = \<phi> (snd (snd r))"
  using assms
proof (induction ps arbitrary: r)
  case (Cons p ps)
  have "\<phi> (snd (snd (acquire_page os page p t))) = \<phi> (snd t)" for t
    using Cons.prems(1,2) [of p] by (auto simp: acquire_page_def Let_def split_beta)
  with Cons show ?case
    by (simp add: Let_def split_beta)
qed simp

lemma release_pages_frame:
  assumes "\<And>w p. p \<in> set ps \<Longrightarrow> \<phi> (os_unlock_pages os w p page) = \<phi> w"
    "\<And>w p. p \<in> set ps \<Longrightarrow> \<phi> (os_include_in_dumps os w p page) = \<phi> w"
  shows "\<phi> (snd (snd (release_pages os page ps t))) = \<phi> (snd t)"
  using assms
proof (induction ps arbitrary: t)
  case (Cons p ps)
  have "\<phi> (snd (snd (release_page os page p t))) = \<phi> (snd t)" for t
    using Cons.prems(1,2) [of p] by (cases t) (auto simp: release_page_def Let_def split: option.split)
  note step = this [of t]
  obtain x t1 where x: "release_page os page p t = (x, t1)" by (rule prod.exhaust)
  show ?case
  proof (cases x)
    case (Inr u)
    have "\<phi> (snd (snd (release_pages os page ps t1))) = \<phi> (snd t1)"
      using Cons.prems by (intro Cons.IH) simp_all
    with step x Inr show ?thesis by simp
  qed (use step x in simp)
qed simp

lemma acquire_region_frame:
  assumes "acquire_region os a l (tbl, w) = (r, tbl', w')" "valid_buffer a l"
    "\<And>w p. touches (page_size os) a l p \<Longrightarrow> \<phi> (snd (os_lock_pages os w p (page_size os))) = \<phi> w"
    "\<And>w p. touches (page_size os) a l p \<Longrightarrow> \<phi> (snd (os_exclude_from_dumps os w p (page_size os))) = \<phi> w"
  shows "\<phi> w' = \<phi> w"
  using acquire_pages_frame [of "buffer_pages os a l" \<phi> os "page_size os" "(True, tbl, w)"] assms(3,4)
    assms(1) [unfolded acquire_region_pages [OF assms(2)]]
  by (simp add: set_buffer_pages [OF assms(2)])

lemma release_region_frame:
  assumes "release_region os a l (tbl, w) = (r, tbl', w')" "valid_buffer a l"
    "\<And>w p. touches (page_size os) a l p \<Longrightarrow> \<phi> (os_unlock_pages os w p (page_size os)) = \<phi> w"
    "\<And>w p. touches (page_size os) a l p \<Longrightarrow> \<phi> (os_include_in_dumps os w p (page_size os)) = \<phi> w"
  shows "\<phi> w' = \<phi> w"
  using release_pages_frame [of "buffer_pages os a l" \<phi> os "page_size os" "(tbl, w)"] assms(3,4)
    assms(1) [unfolded release_region_pages [OF assms(2)]]
  by (simp add: set_buffer_pages [OF assms(2)])

section \<open>The table over time\<close>

text \<open>
  Any sequence of acquisitions and releases, each release matching a live buffer (what the
  safety comments demand of the callers). The live buffers are a ghost component: address,
  length and what the acquisition returned.
\<close>

inductive paging :: "'w os \<Rightarrow> 'w \<Rightarrow> page_table \<times> 'w \<Rightarrow> (nat \<times> nat \<times> bool) list \<Rightarrow> bool" for os w0 where
  start: "paging os w0 (Map.empty, w0) []"
| acquire: "paging os w0 t live \<Longrightarrow> valid_buffer a l \<Longrightarrow> acquire_region os a l t = (Inr lk, t') \<Longrightarrow>
    paging os w0 t' ((a, l, lk) # live)"
| release: "paging os w0 t live \<Longrightarrow> (a, l, lk) \<in> set live \<Longrightarrow> release_region os a l t = (Inr (), t') \<Longrightarrow>
    paging os w0 t' (remove1 (a, l, lk) live)"

definition users :: "'w os \<Rightarrow> (nat \<times> nat \<times> bool) list \<Rightarrow> nat \<Rightarrow> nat" where
  "users os live p = length (filter (\<lambda>(a, l, lk). touches (page_size os) a l p) live)"

definition paging_inv :: "'w os \<Rightarrow> ('w \<Rightarrow> nat \<Rightarrow> bool) \<Rightarrow> page_table \<times> 'w \<Rightarrow> (nat \<times> nat \<times> bool) list \<Rightarrow> bool" where
  "paging_inv os held t live \<longleftrightarrow> counts held (users os live) t \<and>
     (\<forall>(a, l, lk)\<in>set live. valid_buffer a l \<and> (lk \<longrightarrow> (\<forall>p. touches (page_size os) a l p \<longrightarrow> held (snd t) p)))"

lemma paging_invD:
  assumes "paging_inv os held t live" "(a, l, lk) \<in> set live"
  shows "valid_buffer a l" "lk \<Longrightarrow> touches (page_size os) a l p \<Longrightarrow> held (snd t) p"
  using assms by (auto simp: paging_inv_def)

lemma paging_invI:
  assumes "counts held (users os live) t"
    "\<And>a l lk. (a, l, lk) \<in> set live \<Longrightarrow> valid_buffer a l"
    "\<And>a l p. (a, l, True) \<in> set live \<Longrightarrow> touches (page_size os) a l p \<Longrightarrow> held (snd t) p"
  shows "paging_inv os held t live"
  unfolding paging_inv_def using assms by auto

lemma users_Cons:
  "users os ((a, l, lk) # live) p = users os live p + (if touches (page_size os) a l p then 1 else 0)"
  by (simp add: users_def)

lemma length_filter_remove1:
  "x \<in> set xs \<Longrightarrow> length (filter P (remove1 x xs)) = length (filter P xs) - (if P x then 1 else 0)"
proof (induction xs)
  case (Cons a xs)
  have "P x \<Longrightarrow> x \<in> set xs \<Longrightarrow> 0 < length (filter P xs)"
    by (auto simp: filter_empty_conv)
  with Cons show ?case by auto
qed simp

lemma users_remove1:
  "(a, l, lk) \<in> set live \<Longrightarrow>
     users os (remove1 (a, l, lk) live) p = users os live p - (if touches (page_size os) a l p then 1 else 0)"
  by (simp add: users_def length_filter_remove1)

lemma users_pos: "(a, l, lk) \<in> set live \<Longrightarrow> touches (page_size os) a l p \<Longrightarrow> 0 < users os live p"
  by (force simp: users_def filter_empty_conv)

lemma acquire_inv:
  assumes "page_law os held D" "paging_inv os held t live" "valid_buffer a l" "acquire_region os a l t = (Inr lk, t')"
    "{p. touches (page_size os) a l p} \<subseteq> D"
  shows "paging_inv os held t' ((a, l, lk) # live)" "exact held t \<Longrightarrow> exact held t'"
proof -
  have r: "acquire_pages os (page_size os) (buffer_pages os a l) (True, t) = (lk, t')"
    using assms(4) unfolding acquire_region_pages [OF assms(3)]
    by (cases "acquire_pages os (page_size os) (buffer_pages os a l) (True, t)") simp
  have c: "counts held (users os live) (snd (True, t))"
    using assms(2) by (simp add: paging_inv_def)
  have "set (buffer_pages os a l) \<subseteq> D"
    using assms(5) by (auto simp: set_buffer_pages [OF assms(3)])
  note ac = acquire_pages_counts [OF assms(1) this distinct_visited [OF page_size_pos] c r]
  have "(\<lambda>p. users os live p + (if p \<in> set (buffer_pages os a l) then 1 else 0)) = users os ((a, l, lk) # live)"
    by (simp add: fun_eq_iff users_Cons set_buffer_pages [OF assms(3)])
  then have "counts held (users os ((a, l, lk) # live)) t'"
    using ac(1) by simp
  moreover have "lk \<longrightarrow> (\<forall>p. touches (page_size os) a l p \<longrightarrow> held (snd t') p)"
    using ac(2) by (simp add: set_buffer_pages [OF assms(3)])
  moreover have "held (snd t) p \<Longrightarrow> held (snd t') p" for p
    using ac(3) [of p] by simp
  ultimately show "paging_inv os held t' ((a, l, lk) # live)"
    using assms(3) paging_invD [OF assms(2)] by (intro paging_invI) (auto simp del: split_paired_All)
  show "exact held t \<Longrightarrow> exact held t'"
    using ac(4) by simp
qed

lemma release_inv:
  assumes "page_law os held D" "paging_inv os held t live" "(a, l, lk) \<in> set live"
    "{p. touches (page_size os) a l p} \<subseteq> D"
  shows "\<exists>t'. release_region os a l t = (Inr (), t') \<and> paging_inv os held t' (remove1 (a, l, lk) live) \<and>
    ((\<forall>w p. p \<in> D \<longrightarrow> \<not> held (os_unlock_pages os w p (page_size os)) p) \<longrightarrow> exact held t \<longrightarrow> exact held t')"
proof -
  have v: "valid_buffer a l" and c: "counts held (users os live) t"
    using assms(2,3) by (auto simp: paging_inv_def)
  have pos: "\<forall>p\<in>set (buffer_pages os a l). 0 < users os live p"
    by (auto simp: set_buffer_pages [OF v] intro: users_pos [OF assms(3)])
  have D: "set (buffer_pages os a l) \<subseteq> D"
    using assms(4) by (auto simp: set_buffer_pages [OF v])
  then obtain t' where t': "release_region os a l t = (Inr (), t')"
    "counts held (\<lambda>p. users os live p - (if p \<in> set (buffer_pages os a l) then 1 else 0)) t'"
    "\<forall>p. held (snd t) p \<and> (p \<in> set (buffer_pages os a l) \<longrightarrow> 1 < users os live p) \<longrightarrow> held (snd t') p"
    "(\<forall>w. \<forall>p\<in>set (buffer_pages os a l). \<not> held (os_unlock_pages os w p (page_size os)) p) \<longrightarrow>
       exact held t \<longrightarrow> exact held t'"
    using release_pages_counts [OF assms(1) _ distinct_visited [OF page_size_pos] c pos]
    unfolding release_region_pages [OF v] by blast
  have u: "(\<lambda>p. users os live p - (if p \<in> set (buffer_pages os a l) then 1 else 0)) =
      users os (remove1 (a, l, lk) live)"
    by (simp add: fun_eq_iff users_remove1 [OF assms(3)] set_buffer_pages [OF v])
  have "held (snd t') p"
    if "(b, m, True) \<in> set (remove1 (a, l, lk) live)" "touches (page_size os) b m p" for b m p
  proof -
    have "held (snd t) p"
      using that(2) by (rule paging_invD(2) [OF assms(2) subsetD [OF set_remove1_subset that(1)] TrueI])
    moreover have "1 < users os live p" if "touches (page_size os) a l p"
      using users_pos [OF \<open>(b, m, True) \<in> _\<close> \<open>touches _ b m p\<close>] that by (simp add: users_remove1 [OF assms(3)])
    ultimately show ?thesis
      using t'(3) by (simp add: set_buffer_pages [OF v])
  qed
  then have "paging_inv os held t' (remove1 (a, l, lk) live)"
    using t'(2) u paging_invD(1) [OF assms(2) subsetD [OF set_remove1_subset]] by (intro paging_invI) simp_all
  with t'(1,4) D show ?thesis by blast
qed

text \<open>The pages of the address space.\<close>

definition all_pages :: "'w os \<Rightarrow> nat set" where
  "all_pages os = {p. page_size os dvd p}"

lemma touches_all_pages: "{p. touches (page_size os) a l p} \<subseteq> all_pages os"
  by (auto simp: touches_def all_pages_def)

lemma paging_reach_inv:
  assumes "lock_law os held" "\<forall>p. \<not> held w0 p"
  shows "paging os w0 t live \<Longrightarrow> paging_inv os (within held (all_pages os)) t live \<and>
    (unlock_frees os held \<longrightarrow> exact (within held (all_pages os)) t)"
proof (induction rule: paging.induct)
  case start
  then show ?case
    using assms(2) by (simp add: paging_inv_def counts_def exact_def refs_of_def users_def within_def)
next
  case (acquire t live a l lk t')
  have law: "page_law os (within held (all_pages os)) (all_pages os)"
    by (rule page_law_within [OF assms(1)]) (simp add: all_pages_def)
  show ?case
    using acquire_inv [OF law conjunct1 [OF acquire.IH] acquire.hyps(2,3) touches_all_pages] acquire.IH by blast
next
  case (release t live a l lk t')
  have law: "page_law os (within held (all_pages os)) (all_pages os)"
    by (rule page_law_within [OF assms(1)]) (simp add: all_pages_def)
  have "\<not> within held (all_pages os) (os_unlock_pages os w p (page_size os)) p"
    if "unlock_frees os held" "p \<in> all_pages os" for w p
    using that by (simp add: unlock_frees_def within_def all_pages_def)
  then show ?case
    using release_inv [OF law conjunct1 [OF release.IH] release.hyps(2) touches_all_pages] release.IH release.hyps(3)
    by auto
qed

section \<open>Properties\<close>

text \<open>(C15) The page table is exact over any sequence of acquisitions and matching releases, also of buffers that share
  pages: a page's count is the number of live buffers that touch it, a buffer whose acquisition reported success
  has all its pages held by the operating system until it is released, and neither operation panics or loops,
  whichever system calls fail. If unlocking a page does not fail, no page stays held without a live buffer.\<close>

theorem page_table_exact:
  assumes "lock_law os held" "\<forall>p. \<not> held w0 p" "paging os w0 (tbl, w) live"
  shows "(\<forall>p. refs_of tbl p = users os live p) \<and>
    (unlock_frees os held \<longrightarrow> (\<forall>p. held w p \<and> page_size os dvd p \<longrightarrow> 0 < users os live p)) \<and>
    (\<forall>(a, l, lk)\<in>set live. lk \<longrightarrow> (\<forall>p. touches (page_size os) a l p \<longrightarrow> held w p)) \<and>
    (\<forall>a l. valid_buffer a l \<longrightarrow> (\<exists>lk t'. acquire_region os a l (tbl, w) = (Inr lk, t'))) \<and>
    (\<forall>(a, l, lk)\<in>set live. \<exists>t'. release_region os a l (tbl, w) = (Inr (), t'))"
proof -
  let ?held = "within held (all_pages os)"
  have i: "paging_inv os ?held (tbl, w) live" and x: "unlock_frees os held \<longrightarrow> exact ?held (tbl, w)"
    using paging_reach_inv [OF assms] by blast+
  have law: "page_law os ?held (all_pages os)"
    by (rule page_law_within [OF assms(1)]) (simp add: all_pages_def)
  have c: "counts ?held (users os live) (tbl, w)"
    using i by (simp add: paging_inv_def)
  have "0 < users os live p" if u: "unlock_frees os held" and p: "held w p" "page_size os dvd p" for p
  proof -
    obtain st where "tbl p = Some st"
      using x u p by (auto simp: exact_def within_def all_pages_def)
    then show ?thesis
      using countsD(1,2) [OF c, of p] by (auto simp: refs_of_def)
  qed
  moreover have "\<exists>t'. release_region os a l (tbl, w) = (Inr (), t')" if "(a, l, lk) \<in> set live" for a l lk
    using release_inv [OF law i that touches_all_pages] by blast
  moreover have "\<exists>lk t'. acquire_region os a l (tbl, w) = (Inr lk, t')" if "valid_buffer a l" for a l
    using acquire_region_pages [OF that, of os "(tbl, w)"] by blast
  moreover have "held w p" if "(a, l, True) \<in> set live" "touches (page_size os) a l p" for a l p
    using paging_invD(2) [OF i that(1) TrueI that(2)] by (simp add: within_def)
  ultimately show ?thesis
    using countsD(1) [OF c] by auto
qed

text \<open>An operating system for examples that remembers the locked pages.\<close>

definition page_os :: "nat set os" where
  "page_os = \<lparr>os_lock_pages = (\<lambda>w a n. (True, w \<union> {a..<a + n})), os_unlock_pages = (\<lambda>w a n. w - {a..<a + n}),
     os_exclude_from_dumps = (\<lambda>w a n. (True, w)), os_include_in_dumps = (\<lambda>w a n. w),
     os_map_region = (\<lambda>w n. (None, w)), os_unmap_region = (\<lambda>w a n. w),
     os_protect = (\<lambda>w a n p. (True, w)), os_system_page_size = None,
     os_lock_survives_no_access = True\<rparr>"

theorem page_table_exact_witness:
  "\<exists>tbl w lk. acquire_region page_os 4090 10 (Map.empty, {}) = (Inr lk, tbl, w) \<and> refs_of tbl 0 = 1 \<and> refs_of tbl 4096 = 1"
proof -
  have ps: "page_size page_os = 4096"
    by (simp add: page_size_def page_os_def FALLBACK_PAGE_SIZE_def)
  have law: "lock_law page_os (\<lambda>w p. p \<in> w)"
    by (auto simp: lock_law_def page_os_def)
  have v: "valid_buffer 4090 10"
    by (simp add: valid_buffer_def)
  obtain lk tbl w where a: "acquire_region page_os 4090 10 (Map.empty, {}) = (Inr lk, tbl, w)"
    using acquire_region_pages [OF v, of page_os "(Map.empty, {})"] by (metis prod.collapse)
  have "paging page_os {} (tbl, w) [(4090, 10, lk)]"
    using paging.acquire [OF paging.start v a] by simp
  from page_table_exact [OF law _ this] have "refs_of tbl p = users page_os [(4090, 10, lk)] p" for p
    by simp
  with a show ?thesis
    by (auto simp: users_def touches_def ps)
qed

end
