(* ===== verification/Buffers.thy ===== *)
theory Buffers
  imports Paging "HOL-Library.Multiset"
begin

text \<open>
  The buffers that hold key material: the pool of \<^verbatim>\<open>src/src/memory/pool.rs\<close> and \<^verbatim>\<open>LockedBytes\<close>
  of \<^verbatim>\<open>src/src/memory/mod.rs\<close>, on a memory of bytes. The system calls and the allocator of the
  process are parameters; what they promise about fresh memory is \<open>space_law\<close>. The other
  theories treat a \<^verbatim>\<open>LockedBytes\<close> as the list of its bytes; the property at the end of this
  one is what justifies that.
\<close>

section \<open>Memory\<close>

definition read_bytes :: "nat \<Rightarrow> nat \<Rightarrow> (nat \<Rightarrow> u8) \<Rightarrow> bytes" where
  "read_bytes a n m = map (\<lambda>i. m (a + i)) [0..<n]"

definition write_bytes :: "nat \<Rightarrow> bytes \<Rightarrow> (nat \<Rightarrow> u8) \<Rightarrow> nat \<Rightarrow> u8" where
  "write_bytes a bs m = (\<lambda>x. if a \<le> x \<and> x < a + length bs then bs ! (x - a) else m x)"

definition zero_bytes :: "nat \<Rightarrow> nat \<Rightarrow> (nat \<Rightarrow> u8) \<Rightarrow> nat \<Rightarrow> u8" where
  "zero_bytes a n m = (\<lambda>x. if a \<le> x \<and> x < a + n then 0 else m x)"

text \<open>The global allocator, behind \<^verbatim>\<open>Box\<close> and \<^verbatim>\<open>Vec\<close>.\<close>

record 'w heap =
  hp_alloc :: "'w \<Rightarrow> nat \<Rightarrow> nat option \<times> 'w"
  hp_free :: "'w \<Rightarrow> nat \<Rightarrow> nat \<Rightarrow> 'w"

type_synonym free_block = "nat \<times> bool"

text \<open>The statics \<^verbatim>\<open>POOL\<close> (the free lists by size class) and \<^verbatim>\<open>PAGES\<close>, the bytes and the rest of
  the world.\<close>

record 'w memory =
  mem_pool :: "free_block list list"
  mem_pages :: page_table
  mem_bytes :: "nat \<Rightarrow> u8"
  mem_world :: 'w

section \<open>The pool\<close>

definition CLASSES :: "nat list" where
  "CLASSES = [16, 32, 64, 128, 256, 512, 1024, 2048]"

record block =
  blk_ptr :: nat
  blk_class :: u8
  blk_locked :: bool

text \<open>\<^verbatim>\<open>Iterator::position\<close>.\<close>

primrec position :: "('a \<Rightarrow> bool) \<Rightarrow> 'a list \<Rightarrow> nat option" where
  "position P [] = None"
| "position P (x # xs) = (if P x then Some 0 else map_option Suc (position P xs))"

text \<open>A fresh mapping is filled with zeros by the system. \<^verbatim>\<open>push\<close> adds at the end.\<close>

definition grow ::
  "'w os \<Rightarrow> free_block list \<Rightarrow> nat \<Rightarrow> (nat \<Rightarrow> u8) \<times> 'w \<Rightarrow> free_block list option \<times> (nat \<Rightarrow> u8) \<times> 'w" where
  "grow os fr sz m =
     (case m of (bytes, w) \<Rightarrow>
        let page = max (page_size os) sz
        in case os_map_region os w page of
             (None, w1) \<Rightarrow> (None, bytes, w1)
           | (Some start, w1) \<Rightarrow>
               let (lk, w2) = os_lock_pages os w1 start page;
                   (excluded, w3) = os_exclude_from_dumps os w2 start page;
                   blocks = page div sz
               in (Some (fr @ map (\<lambda>i. (start + i * sz, lk)) (rev [0..<blocks])), zero_bytes start page bytes, w3))"

text \<open>\<^verbatim>\<open>grow(&mut pool.free[class], CLASSES[class])?\<close>, if the free list is empty; the flag says
  whether the function goes on.\<close>

definition refill :: "'w os \<Rightarrow> nat \<Rightarrow> 'w memory \<Rightarrow> bool \<times> 'w memory" where
  "refill os class s =
     (if mem_pool s ! class = [] then
        (case grow os (mem_pool s ! class) (CLASSES ! class) (mem_bytes s, mem_world s) of
           (None, m, w) \<Rightarrow> (False, s\<lparr>mem_bytes := m, mem_world := w\<rparr>)
         | (Some fr, m, w) \<Rightarrow> (True, s\<lparr>mem_pool := (mem_pool s)[class := fr], mem_bytes := m, mem_world := w\<rparr>))
      else (True, s))"

definition pool_alloc :: "'w os \<Rightarrow> nat \<Rightarrow> 'w memory \<Rightarrow> block option \<times> 'w memory" where
  "pool_alloc os len s =
     (case position (\<lambda>sz. len \<le> sz) CLASSES of
        None \<Rightarrow> (None, s)
      | Some class \<Rightarrow>
          if len = 0 then (None, s)
          else (case refill os class s of
             (False, s1) \<Rightarrow> (None, s1)
           | (True, s1) \<Rightarrow>
               if mem_pool s1 ! class = [] then (None, s1)
               else let (addr, lk) = last (mem_pool s1 ! class);
                        s2 = s1\<lparr>mem_pool := (mem_pool s1)[class := butlast (mem_pool s1 ! class)]\<rparr>
                    in if class < 256
                       then (Some \<lparr>blk_ptr = addr, blk_class = word_of_nat class, blk_locked = lk\<rparr>, s2)
                       else (None, s2)))"

definition pool_free :: "block \<Rightarrow> 'w memory \<Rightarrow> 'w memory" where
  "pool_free b s =
     (let class = unat (blk_class b)
      in s\<lparr>mem_pool := (mem_pool s)[class := mem_pool s ! class @ [(blk_ptr b, blk_locked b)]]\<rparr>)"

section \<open>Locked buffers\<close>

datatype lb_storage = Heap | Pooled u8 | RegionView

record locked_bytes =
  lb_ptr :: nat
  lb_len :: nat
  lb_storage :: lb_storage
  lb_locked :: bool

text \<open>\<^verbatim>\<open>Box::from(bytes)\<close>: an empty box has a dangling pointer and no allocation; when the allocator
  has no memory the program stops.\<close>

definition box_from :: "'w heap \<Rightarrow> bytes \<Rightarrow> 'w memory \<Rightarrow> nat result \<times> 'w memory" where
  "box_from hp bs s =
     (if bs = [] then (Inr 1, s)
      else case hp_alloc hp (mem_world s) (length bs) of
             (None, w) \<Rightarrow> (Inl Panic, s\<lparr>mem_world := w\<rparr>)
           | (Some a, w) \<Rightarrow> (Inr a, s\<lparr>mem_bytes := write_bytes a bs (mem_bytes s), mem_world := w\<rparr>))"

text \<open>The calls of \<^verbatim>\<open>acquire_region\<close> and \<^verbatim>\<open>release_region\<close>, on the static table.\<close>

definition mem_acquire :: "'w os \<Rightarrow> nat \<Rightarrow> nat \<Rightarrow> 'w memory \<Rightarrow> bool result \<times> 'w memory" where
  "mem_acquire os a n s =
     (case acquire_region os a n (mem_pages s, mem_world s) of
        (r, tbl, w) \<Rightarrow> (r, s\<lparr>mem_pages := tbl, mem_world := w\<rparr>))"

definition mem_release :: "'w os \<Rightarrow> nat \<Rightarrow> nat \<Rightarrow> 'w memory \<Rightarrow> unit result \<times> 'w memory" where
  "mem_release os a n s =
     (case release_region os a n (mem_pages s, mem_world s) of
        (r, tbl, w) \<Rightarrow> (r, s\<lparr>mem_pages := tbl, mem_world := w\<rparr>))"

text \<open>A boxed slice with its page references; what the allocation is for differs between the callers.\<close>

definition boxed :: "'w os \<Rightarrow> 'w heap \<Rightarrow> bytes \<Rightarrow> 'w memory \<Rightarrow> locked_bytes result \<times> 'w memory" where
  "boxed os hp bs s =
     (case box_from hp bs s of
        (Inl e, s2) \<Rightarrow> (Inl e, s2)
      | (Inr ptr, s2) \<Rightarrow>
          let len = length bs
          in case (if len = 0 then (Inr False, s2) else mem_acquire os ptr len s2) of
               (Inl e, s3) \<Rightarrow> (Inl e, s3)
             | (Inr lk, s3) \<Rightarrow>
                 (Inr \<lparr>lb_ptr = ptr, lb_len = len, lb_storage = Heap, lb_locked = lk\<rparr>, s3))"

definition from_slice :: "'w os \<Rightarrow> 'w heap \<Rightarrow> bytes \<Rightarrow> 'w memory \<Rightarrow> locked_bytes result \<times> 'w memory" where
  "from_slice os hp bs s =
     (case pool_alloc os (length bs) s of
        (Some b, s1) \<Rightarrow>
          (Inr \<lparr>lb_ptr = blk_ptr b, lb_len = length bs, lb_storage = Pooled (blk_class b), lb_locked = blk_locked b\<rparr>,
           s1\<lparr>mem_bytes := write_bytes (blk_ptr b) bs (mem_bytes s1)\<rparr>)
      | (None, s1) \<Rightarrow> boxed os hp bs s1)"

definition region_view :: "nat \<Rightarrow> nat \<Rightarrow> bool \<Rightarrow> locked_bytes" where
  "region_view ptr len lk = \<lparr>lb_ptr = ptr, lb_len = len, lb_storage = RegionView, lb_locked = lk\<rparr>"

definition as_bytes :: "locked_bytes \<Rightarrow> 'w memory \<Rightarrow> bytes" where
  "as_bytes b s = read_bytes (lb_ptr b) (lb_len b) (mem_bytes s)"

definition locked_bytes_drop :: "'w os \<Rightarrow> 'w heap \<Rightarrow> locked_bytes \<Rightarrow> 'w memory \<Rightarrow> unit result \<times> 'w memory" where
  "locked_bytes_drop os hp b s =
     (case lb_storage b of
        RegionView \<Rightarrow> (Inr (), s)
      | Pooled class \<Rightarrow>
          let s1 = s\<lparr>mem_bytes := zero_bytes (lb_ptr b) (lb_len b) (mem_bytes s)\<rparr>
          in (Inr (), pool_free \<lparr>blk_ptr = lb_ptr b, blk_class = class, blk_locked = lb_locked b\<rparr> s1)
      | Heap \<Rightarrow>
          if 0 < lb_len b then
            (let s1 = s\<lparr>mem_bytes := zero_bytes (lb_ptr b) (lb_len b) (mem_bytes s)\<rparr>
             in case mem_release os (lb_ptr b) (lb_len b) s1 of
                  (Inl e, s2) \<Rightarrow> (Inl e, s2)
                | (Inr u, s2) \<Rightarrow> (Inr (), s2\<lparr>mem_world := hp_free hp (mem_world s2) (lb_ptr b) (lb_len b)\<rparr>))
          else (Inr (), s))"

section \<open>Scratch buffers\<close>

text \<open>
  \<^verbatim>\<open>ScratchBuf\<close>, for builds without thread-local storage: \<^verbatim>\<open>vec![0u8; len]\<close> with page references.
  The flag that \<^verbatim>\<open>acquire_region\<close> returns is thrown away by the code; here it stays in the record, and
  nothing reads it.
\<close>

definition scratch_buf_new :: "'w os \<Rightarrow> 'w heap \<Rightarrow> nat \<Rightarrow> 'w memory \<Rightarrow> locked_bytes result \<times> 'w memory" where
  "scratch_buf_new os hp len s = boxed os hp (replicate len 0) s"

definition as_mut_slice :: "locked_bytes \<Rightarrow> bytes \<Rightarrow> 'w memory \<Rightarrow> 'w memory" where
  "as_mut_slice b bs s = s\<lparr>mem_bytes := write_bytes (lb_ptr b) (take (lb_len b) bs) (mem_bytes s)\<rparr>"

definition scratch_buf_drop :: "'w os \<Rightarrow> 'w heap \<Rightarrow> locked_bytes \<Rightarrow> 'w memory \<Rightarrow> unit result \<times> 'w memory" where
  "scratch_buf_drop os hp b s =
     (let s1 = s\<lparr>mem_bytes := zero_bytes (lb_ptr b) (lb_len b) (mem_bytes s)\<rparr>
      in if lb_len b \<noteq> 0
         then (case mem_release os (lb_ptr b) (lb_len b) s1 of
                 (Inl e, s2) \<Rightarrow> (Inl e, s2)
               | (Inr u, s2) \<Rightarrow> (Inr (), s2\<lparr>mem_world := hp_free hp (mem_world s2) (lb_ptr b) (lb_len b)\<rparr>))
         else (Inr (), s1))"

section \<open>What the system and the allocator promise\<close>

text \<open>
  \<open>owned w\<close> are the addresses that are handed out, by \<^verbatim>\<open>mmap\<close> or by the allocator. New memory
  lies in the address space and is disjoint from what is handed out; mappings are aligned;
  freeing gives back the range. Only the calls on locks change which pages are held, except that
  freeing may lose the lock of a page on which nothing is handed out any more.
\<close>

definition map_law :: "'w os \<Rightarrow> ('w \<Rightarrow> nat set) \<Rightarrow> ('w \<Rightarrow> nat \<Rightarrow> bool) \<Rightarrow> bool" where
  "map_law os owned held \<longleftrightarrow>
     (\<forall>w n r w'. os_map_region os w n = (r, w') \<longrightarrow>
        (case r of None \<Rightarrow> owned w' = owned w
         | Some a \<Rightarrow> page_size os dvd a \<and> {a..<a + n} \<inter> owned w = {} \<and> owned w' = owned w \<union> {a..<a + n}) \<and>
        held w' = held w)"

definition heap_law :: "'w os \<Rightarrow> 'w heap \<Rightarrow> ('w \<Rightarrow> nat set) \<Rightarrow> ('w \<Rightarrow> nat \<Rightarrow> bool) \<Rightarrow> bool" where
  "heap_law os hp owned held \<longleftrightarrow>
     (\<forall>w n r w'. hp_alloc hp w n = (r, w') \<longrightarrow>
        (case r of None \<Rightarrow> owned w' = owned w
         | Some a \<Rightarrow> a + n \<le> 2 ^ 64 \<and> {a..<a + n} \<inter> owned w = {} \<and> owned w' = owned w \<union> {a..<a + n}) \<and>
        held w' = held w) \<and>
     (\<forall>w a n. owned (hp_free hp w a n) = owned w - {a..<a + n}) \<and>
     (\<forall>w a n p. (held (hp_free hp w a n) p \<longrightarrow> held w p) \<and>
        (held w p \<longrightarrow> {p..<p + page_size os} \<inter> (owned w - {a..<a + n}) \<noteq> {} \<longrightarrow> held (hp_free hp w a n) p))"

definition keeps_owned :: "'w os \<Rightarrow> ('w \<Rightarrow> nat set) \<Rightarrow> bool" where
  "keeps_owned os owned \<longleftrightarrow>
     (\<forall>w a n. owned (snd (os_lock_pages os w a n)) = owned w \<and> owned (os_unlock_pages os w a n) = owned w \<and>
        owned (snd (os_exclude_from_dumps os w a n)) = owned w \<and> owned (os_include_in_dumps os w a n) = owned w)"

definition space_law :: "'w os \<Rightarrow> 'w heap \<Rightarrow> ('w \<Rightarrow> nat set) \<Rightarrow> ('w \<Rightarrow> nat \<Rightarrow> bool) \<Rightarrow> bool" where
  "space_law os hp owned held \<longleftrightarrow>
     lock_law os held \<and> map_law os owned held \<and> heap_law os hp owned held \<and> keeps_owned os owned"

lemma map_lawD:
  assumes "map_law os owned held" "os_map_region os w n = (r, w')"
  shows "r = None \<Longrightarrow> owned w' = owned w" "r = Some a \<Longrightarrow> page_size os dvd a"
    "r = Some a \<Longrightarrow> {a..<a + n} \<inter> owned w = {}" "r = Some a \<Longrightarrow> owned w' = owned w \<union> {a..<a + n}"
    "held w' = held w"
  using assms(1) [unfolded map_law_def, rule_format, OF assms(2)] by (simp_all split: option.splits)

lemma heap_lawD:
  assumes "heap_law os hp owned held"
  shows "hp_alloc hp w n = (Some a, w') \<Longrightarrow> a + n \<le> 2 ^ 64 \<and> {a..<a + n} \<inter> owned w = {} \<and> owned w' = owned w \<union> {a..<a + n}"
    "hp_alloc hp w n = (None, w') \<Longrightarrow> owned w' = owned w"
    "hp_alloc hp w n = (r, w') \<Longrightarrow> held w' = held w"
    "owned (hp_free hp w a n) = owned w - {a..<a + n}"
    "held (hp_free hp w a n) p \<Longrightarrow> held w p"
    "held w p \<Longrightarrow> {p..<p + page_size os} \<inter> (owned w - {a..<a + n}) \<noteq> {} \<Longrightarrow> held (hp_free hp w a n) p"
proof -
  note l = assms [unfolded heap_law_def, THEN conjunct1, rule_format]
    and f = assms [unfolded heap_law_def, THEN conjunct2, THEN conjunct1, rule_format]
    and h = assms [unfolded heap_law_def, THEN conjunct2, THEN conjunct2, rule_format]
  show "hp_alloc hp w n = (Some a, w') \<Longrightarrow> a + n \<le> 2 ^ 64 \<and> {a..<a + n} \<inter> owned w = {} \<and> owned w' = owned w \<union> {a..<a + n}"
    "hp_alloc hp w n = (None, w') \<Longrightarrow> owned w' = owned w" "hp_alloc hp w n = (r, w') \<Longrightarrow> held w' = held w"
    by (drule l, simp)+
  show "owned (hp_free hp w a n) = owned w - {a..<a + n}" by (rule f)
  show "held (hp_free hp w a n) p \<Longrightarrow> held w p"
    "held w p \<Longrightarrow> {p..<p + page_size os} \<inter> (owned w - {a..<a + n}) \<noteq> {} \<Longrightarrow> held (hp_free hp w a n) p"
    using h [of w a n p] by blast+
qed

lemma keeps_ownedD:
  assumes "keeps_owned os owned"
  shows "owned (snd (os_lock_pages os w a n)) = owned w" "owned (os_unlock_pages os w a n) = owned w"
    "owned (snd (os_exclude_from_dumps os w a n)) = owned w" "owned (os_include_in_dumps os w a n) = owned w"
  using assms by (simp_all add: keeps_owned_def)

section \<open>Blocks\<close>

text \<open>A block: address, size, and whether its pages are locked. Blocks are apart when no address is
  in two of them.\<close>

definition covers :: "nat \<Rightarrow> nat \<times> nat \<times> bool \<Rightarrow> bool" where
  "covers x = (\<lambda>(a, n, lk). a \<le> x \<and> x < a + n)"

lemma covers_simp [simp]: "covers x (a, n, lk) \<longleftrightarrow> a \<le> x \<and> x < a + n"
  by (simp add: covers_def)

definition disjoint_blocks :: "(nat \<times> nat \<times> bool) multiset \<Rightarrow> bool" where
  "disjoint_blocks M \<longleftrightarrow> (\<forall>x. size (filter_mset (covers x) M) \<le> 1)"

lemma disjoint_blocks_union:
  "disjoint_blocks (M + N) \<longleftrightarrow> disjoint_blocks M \<and> disjoint_blocks N \<and> (\<forall>b\<in>#M. \<forall>c\<in>#N. \<forall>x. \<not> (covers x b \<and> covers x c))"
proof -
  have pos: "0 < size (filter_mset (covers x) K) \<longleftrightarrow> (\<exists>b\<in>#K. covers x b)" for x K
    by (simp add: nonempty_has_size [symmetric] del: split_paired_All split_paired_Ex covers_simp) blast
  have "disjoint_blocks (M + N) \<longleftrightarrow> (\<forall>x. size (filter_mset (covers x) M) + size (filter_mset (covers x) N) \<le> 1)"
    by (simp add: disjoint_blocks_def)
  also have "\<dots> \<longleftrightarrow> (\<forall>x. size (filter_mset (covers x) M) \<le> 1 \<and> size (filter_mset (covers x) N) \<le> 1 \<and>
      \<not> (0 < size (filter_mset (covers x) M) \<and> 0 < size (filter_mset (covers x) N)))"
    by (rule all_cong1) linarith
  finally show ?thesis
    unfolding pos disjoint_blocks_def [of M] disjoint_blocks_def [of N] by blast
qed

lemma disjoint_blocks_add:
  "disjoint_blocks (add_mset b M) \<longleftrightarrow> disjoint_blocks M \<and> (\<forall>c\<in>#M. \<forall>x. \<not> (covers x b \<and> covers x c))"
  using disjoint_blocks_union [of "{#b#}" M] by (auto simp: disjoint_blocks_def)

lemma disjoint_blocks_rest:
  assumes "disjoint_blocks M" "b \<in># M" "c \<in># M - {#b#}" "covers x b"
  shows "\<not> covers x c"
proof -
  have "disjoint_blocks (add_mset b (M - {#b#}))"
    using assms(1,2) by simp
  then show ?thesis
    using assms(3,4) unfolding disjoint_blocks_add by blast
qed

definition page_blocks :: "nat \<Rightarrow> nat \<Rightarrow> bool \<Rightarrow> nat \<Rightarrow> (nat \<times> nat \<times> bool) multiset" where
  "page_blocks start sz lk n = mset (map (\<lambda>i. (start + i * sz, sz, lk)) [0..<n])"

lemma page_blocks_apart: "disjoint_blocks (page_blocks start sz lk n)"
proof (induction n)
  case 0
  then show ?case by (simp add: page_blocks_def disjoint_blocks_def)
next
  case (Suc n)
  have e: "page_blocks start sz lk (Suc n) = add_mset (start + n * sz, sz, lk) (page_blocks start sz lk n)"
    by (simp add: page_blocks_def)
  have "\<not> (start + n * sz \<le> x \<and> x < start + i * sz + sz)" if "i < n" for x i
  proof -
    have "Suc i * sz \<le> n * sz"
      using that by (intro mult_le_mono1) simp
    then show ?thesis by auto
  qed
  then show ?case
    using Suc unfolding e disjoint_blocks_add by (auto simp: page_blocks_def)
qed

lemma page_blocks_cover:
  assumes "0 < sz" "sz dvd m"
  shows "(\<exists>b\<in>#page_blocks start sz lk (m div sz). covers x b) \<longleftrightarrow> start \<le> x \<and> x < start + m"
proof
  assume "\<exists>b\<in>#page_blocks start sz lk (m div sz). covers x b"
  then obtain i where i: "i < m div sz" "start + i * sz \<le> x" "x < start + i * sz + sz"
    by (auto simp: page_blocks_def)
  have "Suc i * sz \<le> m div sz * sz"
    using i(1) by (intro mult_le_mono1) simp
  then show "start \<le> x \<and> x < start + m"
    using i assms(2) by simp
next
  assume x: "start \<le> x \<and> x < start + m"
  let ?i = "(x - start) div sz"
  have lt: "?i < m div sz"
  proof -
    have "x - start < m div sz * sz"
      using x assms(2) by auto
    then show ?thesis
      using assms(1) by (simp add: div_less_iff_less_mult del: dvd_div_mult_self)
  qed
  have "?i * sz \<le> x - start" "x - start < ?i * sz + sz"
    using assms(1) div_mult_mod_eq [of "x - start" sz] mod_less_divisor [OF assms(1), of "x - start"] by linarith+
  then have "covers x (start + ?i * sz, sz, lk)"
    unfolding covers_simp using x by linarith
  moreover have "(start + ?i * sz, sz, lk) \<in># page_blocks start sz lk (m div sz)"
    unfolding page_blocks_def set_mset_mset set_map set_upt by (rule image_eqI [OF refl]) (use lt in simp)
  ultimately show "\<exists>b\<in>#page_blocks start sz lk (m div sz). covers x b" ..
qed

section \<open>The layout of memory\<close>

definition pooled :: "(nat \<times> nat \<times> bool) multiset \<Rightarrow> nat \<Rightarrow> bool" where
  "pooled pb x \<longleftrightarrow> (\<exists>b\<in>#pb. covers x b)"

lemma pooledE:
  assumes "pooled pb x"
  obtains b where "b \<in># pb" "covers x b"
  using assms unfolding pooled_def by blast

definition pool_pages :: "'w os \<Rightarrow> (nat \<times> nat \<times> bool) multiset \<Rightarrow> nat set" where
  "pool_pages os pb = {p. page_size os dvd p \<and> (\<exists>x. pooled pb x \<and> p \<le> x \<and> x < p + page_size os)}"

text \<open>
  \<open>pb\<close> are the blocks of the pool, free or in use, \<open>hl\<close> the live buffers on the heap. They are disjoint
  and handed out; the pages of the pool hold nothing else; a pool block marked as locked is
  locked; the page table is exact for the heap buffers, apart from the pages of the pool.
\<close>

definition layout :: "'w os \<Rightarrow> ('w \<Rightarrow> nat set) \<Rightarrow> ('w \<Rightarrow> nat \<Rightarrow> bool) \<Rightarrow> (nat \<times> nat \<times> bool) multiset \<Rightarrow>
    (nat \<times> nat \<times> bool) list \<Rightarrow> page_table \<times> 'w \<Rightarrow> bool" where
  "layout os owned held pb hl t \<longleftrightarrow> disjoint_blocks (pb + mset hl) \<and>
     (\<forall>b\<in>#pb + mset hl. {x. covers x b} \<subseteq> owned (snd t)) \<and>
     (\<forall>p\<in>pool_pages os pb. {p..<p + page_size os} \<subseteq> Collect (pooled pb)) \<and>
     (\<forall>(a, n, lk)\<in>#pb. lk \<longrightarrow> {p. touches (page_size os) a n p} \<subseteq> Collect (held (snd t))) \<and>
     paging_inv os (within held (all_pages os - pool_pages os pb)) t hl"

lemma touches_byte:
  assumes "touches page a n p" "0 < page" "0 < n"
  obtains x where "p \<le> x" "x < p + page" "a \<le> x" "x < a + n"
  using that [of "max a p"] assms by (auto simp: touches_def max_def split: if_splits)

lemma heap_pages:
  assumes "\<forall>p\<in>pool_pages os pb. {p..<p + page_size os} \<subseteq> Collect (pooled pb)" "0 < n"
    and "{a..<a + n} \<inter> Collect (pooled pb) = {}"
  shows "{p. touches (page_size os) a n p} \<subseteq> all_pages os - pool_pages os pb"
proof
  fix p assume "p \<in> {p. touches (page_size os) a n p}"
  then have t: "touches (page_size os) a n p" by simp
  obtain x where "p \<le> x" "x < p + page_size os" "a \<le> x" "x < a + n"
    using t page_size_pos assms(2) by (rule touches_byte)
  then have "p \<notin> pool_pages os pb"
    using assms(1,3) by fastforce
  then show "p \<in> all_pages os - pool_pages os pb"
    using t by (simp add: all_pages_def touches_def)
qed

lemma paging_inv_world:
  assumes "paging_inv os h (tbl, w) hl" "h' w' = h w"
  shows "paging_inv os h' (tbl, w') hl"
  using assms(1) unfolding paging_inv_def counts_def fst_conv snd_conv assms(2) .

text \<open>It is enough that the pages of live buffers stay held.\<close>

lemma paging_inv_keep:
  assumes "paging_inv os h (tbl, w) hl" "\<And>p. 0 < users os hl p \<Longrightarrow> h w p \<Longrightarrow> h' w' p"
  shows "paging_inv os h' (tbl, w') hl"
proof (rule paging_invI)
  have c: "counts h (users os hl) (tbl, w)"
    using assms(1) by (simp add: paging_inv_def)
  show "counts h' (users os hl) (tbl, w')"
  proof (rule countsI)
    fix p st assume st: "tbl p = Some st" "ps_locked st"
    then have "0 < users os hl p"
      using countsD(1,2) [OF c, of p] by (auto simp: refs_of_def)
    then show "h' w' p"
      by (rule assms(2) [OF _ countsD(3) [OF c st]])
  qed (rule countsD [OF c], assumption?)+
  show "valid_buffer a l" if "(a, l, lk) \<in> set hl" for a l lk
    by (rule paging_invD(1) [OF assms(1) that])
  show "h' (snd (tbl, w')) p" if b: "(a, l, True) \<in> set hl" "touches (page_size os) a l p" for a l p
    using assms(2) [OF users_pos [OF b]] paging_invD(2) [OF assms(1) b(1) TrueI b(2)] by simp
qed

lemma within_world: "held w' = held w \<Longrightarrow> within held D w' = within held D w"
  by (simp add: fun_eq_iff within_def)

lemma layoutD:
  assumes "layout os owned held pb hl t"
  shows "disjoint_blocks (pb + mset hl)" "b \<in># pb + mset hl \<Longrightarrow> covers x b \<Longrightarrow> x \<in> owned (snd t)"
    "\<forall>p\<in>pool_pages os pb. {p..<p + page_size os} \<subseteq> Collect (pooled pb)"
    "(a, n, True) \<in># pb \<Longrightarrow> touches (page_size os) a n p \<Longrightarrow> held (snd t) p"
    "paging_inv os (within held (all_pages os - pool_pages os pb)) t hl"
proof -
  show "disjoint_blocks (pb + mset hl)" "\<forall>p\<in>pool_pages os pb. {p..<p + page_size os} \<subseteq> Collect (pooled pb)"
    "paging_inv os (within held (all_pages os - pool_pages os pb)) t hl"
    using assms by (simp_all add: layout_def)
  show "b \<in># pb + mset hl \<Longrightarrow> covers x b \<Longrightarrow> x \<in> owned (snd t)"
    using assms unfolding layout_def by blast
  have "\<forall>(a, n, lk)\<in>#pb. lk \<longrightarrow> {p. touches (page_size os) a n p} \<subseteq> Collect (held (snd t))"
    using assms by (simp add: layout_def)
  then show "(a, n, True) \<in># pb \<Longrightarrow> touches (page_size os) a n p \<Longrightarrow> held (snd t) p"
    by (drule_tac bspec) auto
qed

lemma layoutI:
  assumes "disjoint_blocks (pb + mset hl)" "\<And>b x. b \<in># pb + mset hl \<Longrightarrow> covers x b \<Longrightarrow> x \<in> owned (snd t)"
    "\<And>p x. p \<in> pool_pages os pb \<Longrightarrow> p \<le> x \<Longrightarrow> x < p + page_size os \<Longrightarrow> pooled pb x"
    "\<And>a n p. (a, n, True) \<in># pb \<Longrightarrow> touches (page_size os) a n p \<Longrightarrow> held (snd t) p"
    "paging_inv os (within held (all_pages os - pool_pages os pb)) t hl"
  shows "layout os owned held pb hl t"
proof -
  have "\<forall>b\<in>#pb + mset hl. {x. covers x b} \<subseteq> owned (snd t)"
    using assms(2) by blast
  moreover have "\<forall>p\<in>pool_pages os pb. {p..<p + page_size os} \<subseteq> Collect (pooled pb)"
    using assms(3) by auto
  moreover have "\<forall>(a, n, lk)\<in>#pb. lk \<longrightarrow> {p. touches (page_size os) a n p} \<subseteq> Collect (held (snd t))"
    using assms(4) by auto
  ultimately show ?thesis
    using assms(1,5) unfolding layout_def by blast
qed

lemma layout_world:
  assumes "layout os owned held pb hl (tbl, w)" "\<And>b x. b \<in># pb + mset hl \<Longrightarrow> covers x b \<Longrightarrow> x \<in> owned w'" "held w' = held w"
  shows "layout os owned held pb hl (tbl, w')"
proof (rule layoutI)
  note l = layoutD [OF assms(1)]
  show "disjoint_blocks (pb + mset hl)" by (rule l(1))
  show "b \<in># pb + mset hl \<Longrightarrow> covers x b \<Longrightarrow> x \<in> owned (snd (tbl, w'))" for b x
    using assms(2) [of b x] by simp
  show "p \<in> pool_pages os pb \<Longrightarrow> p \<le> x \<Longrightarrow> x < p + page_size os \<Longrightarrow> pooled pb x" for p x
    using l(3) by fastforce
  show "(a, n, True) \<in># pb \<Longrightarrow> touches (page_size os) a n p \<Longrightarrow> held (snd (tbl, w')) p" for a n p
    using l(4) assms(3) by simp
  show "paging_inv os (within held (all_pages os - pool_pages os pb)) (tbl, w') hl"
    by (rule paging_inv_world [where h' = "within held (all_pages os - pool_pages os pb)" and w' = w', OF l(5)])
       (rule within_world [OF assms(3)])
qed

lemma layout_perm:
  assumes "layout os owned held pb hl t" "mset hl' = mset hl"
  shows "layout os owned held pb hl' t"
proof -
  have "users os hl' = users os hl"
    using arg_cong [OF assms(2), of "\<lambda>M. size (filter_mset P M)" for P] by (simp add: users_def fun_eq_iff flip: mset_filter)
  moreover have "set hl' = set hl"
    using assms(2) by (metis set_mset_mset)
  ultimately show ?thesis
    using assms by (simp add: layout_def paging_inv_def)
qed

lemma held_other_page:
  assumes "lock_law os held" "page_size os dvd p" "page_size os dvd q" "q \<noteq> p"
  shows "held (snd (os_lock_pages os w p (page_size os))) q = held w q"
    "held (os_unlock_pages os w p (page_size os)) q = held w q"
    "held (snd (os_exclude_from_dumps os w p (page_size os))) q = held w q"
    "held (os_include_in_dumps os w p (page_size os)) q = held w q"
proof -
  note l = lock_lawD [OF assms(1) assms(2) dvd_refl assms(3), of w]
  have n: "\<not> (p \<le> q \<and> q < p + page_size os)"
    using same_page [OF assms(2,3)] assms(4) by simp
  show "held (os_unlock_pages os w p (page_size os)) q = held w q"
    using l(2) l(3) [OF _ n] by (rule iffI)
qed (use lock_lawD(1,4,5) [OF assms(1) assms(2) dvd_refl assms(3), of w] same_page [OF assms(2,3)] assms(4) in simp_all)

lemma pool_touches:
  assumes "(a, n, lk) \<in># pb" "touches (page_size os) a n p" "0 < n"
  shows "p \<in> pool_pages os pb"
proof -
  obtain x where "p \<le> x" "x < p + page_size os" "a \<le> x" "x < a + n"
    using assms(2) page_size_pos assms(3) by (rule touches_byte)
  then have "covers x (a, n, lk)" by simp
  then have "pooled pb x"
    using assms(1) unfolding pooled_def by blast
  then show ?thesis
    using assms(2) \<open>p \<le> x\<close> \<open>x < p + page_size os\<close> by (auto simp: pool_pages_def touches_def)
qed

lemma disjoint_blocks_drop: "disjoint_blocks (M + N) \<Longrightarrow> disjoint_blocks M"
  by (simp add: disjoint_blocks_union)

lemma layout_acquire:
  assumes "space_law os hp owned held" "layout os owned held pb hl (tbl, w)" "\<forall>(b, m, lk)\<in>#pb. 0 < m"
    and "hp_alloc hp w n = (Some a, w1)" "0 < n" "acquire_region os a n (tbl, w1) = (Inr lk, tbl', w')"
  shows "layout os owned held pb ((a, n, lk) # hl) (tbl', w')"
proof -
  have laws: "lock_law os held" "heap_law os hp owned held" "keeps_owned os owned"
    using assms(1) by (simp_all add: space_law_def)
  note al = heap_lawD(1) [OF laws(2) assms(4)] and hd = heap_lawD(3) [OF laws(2) assms(4)]
  have l1: "layout os owned held pb hl (tbl, w1)"
    by (rule layout_world [OF assms(2)]) (use al hd layoutD(2) [OF assms(2)] in auto)
  note l = layoutD [OF l1] and l0 = layoutD [OF assms(2)]
  have v: "valid_buffer a n"
    using al assms(5) by (simp add: valid_buffer_def)
  have new: "\<not> covers x b" if "a \<le> x" "x < a + n" "b \<in># pb + mset hl" for x b
    using that al l0(2) [of b x] by auto
  have "\<not> pooled pb x" if "a \<le> x" "x < a + n" for x
    using new [OF that] by (auto elim!: pooledE)
  then have D: "{p. touches (page_size os) a n p} \<subseteq> all_pages os - pool_pages os pb"
    by (intro heap_pages [OF l(3) assms(5)]) auto
  have law: "page_law os (within held (all_pages os - pool_pages os pb)) (all_pages os - pool_pages os pb)"
    by (rule page_law_within [OF laws(1)]) (simp add: all_pages_def)
  have ow: "owned w' = owned w1"
    by (rule acquire_region_frame [OF assms(6) v, of owned]) (simp_all add: keeps_ownedD [OF laws(3)])
  have hq: "held w' q = held w1 q" if "q \<in> pool_pages os pb" for q
  proof (rule acquire_region_frame [OF assms(6) v, of "\<lambda>w. held w q"])
    fix u p assume "touches (page_size os) a n p"
    then have d: "page_size os dvd p" "page_size os dvd q" "q \<noteq> p"
      using D that by (auto simp: touches_def pool_pages_def)
    show "held (snd (os_lock_pages os u p (page_size os))) q = held u q"
      "held (snd (os_exclude_from_dumps os u p (page_size os))) q = held u q"
      by (rule held_other_page [OF laws(1) d])+
  qed
  show ?thesis
  proof (rule layoutI)
    show "disjoint_blocks (pb + mset ((a, n, lk) # hl))"
      using l(1) new by (simp add: disjoint_blocks_add)
    show "b \<in># pb + mset ((a, n, lk) # hl) \<Longrightarrow> covers x b \<Longrightarrow> x \<in> owned (snd (tbl', w'))" for b x
      using l(2) [of b x] al ow by (auto simp del: split_paired_All)
    show "p \<in> pool_pages os pb \<Longrightarrow> p \<le> x \<Longrightarrow> x < p + page_size os \<Longrightarrow> pooled pb x" for p x
      using l(3) by fastforce
    show "(b, m, True) \<in># pb \<Longrightarrow> touches (page_size os) b m p \<Longrightarrow> held (snd (tbl', w')) p" for b m p
      using l(4) [of b m p] hq [OF pool_touches, of b m True p] assms(3) by auto
    show "paging_inv os (within held (all_pages os - pool_pages os pb)) (tbl', w') ((a, n, lk) # hl)"
      by (rule acquire_inv(1) [OF law l(5) v assms(6) D])
  qed
qed

lemma layout_release:
  assumes "space_law os hp owned held" "layout os owned held pb hl (tbl, w)" "\<forall>(b, m, lk)\<in>#pb. 0 < m"
    and "(a, n, lk) \<in> set hl"
  shows "\<exists>tbl' w'. release_region os a n (tbl, w) = (Inr (), tbl', w') \<and> owned w' = owned w \<and>
    layout os owned held pb (remove1 (a, n, lk) hl) (tbl', w')"
proof -
  have laws: "lock_law os held" "keeps_owned os owned"
    using assms(1) by (simp_all add: space_law_def)
  note l = layoutD [OF assms(2)]
  have v: "valid_buffer a n"
    by (rule paging_invD(1) [OF l(5) assms(4)])
  have "\<not> pooled pb x" if "a \<le> x" "x < a + n" for x
  proof
    assume "pooled pb x"
    then obtain b where b: "b \<in># pb" "covers x b" by (rule pooledE)
    have "(a, n, lk) \<in># mset hl" "covers x (a, n, lk)"
      using assms(4) that by simp_all
    with l(1) b show False
      unfolding disjoint_blocks_union by blast
  qed
  then have D: "{p. touches (page_size os) a n p} \<subseteq> all_pages os - pool_pages os pb"
    using v by (intro heap_pages [OF l(3)]) (auto simp: valid_buffer_def)
  have law: "page_law os (within held (all_pages os - pool_pages os pb)) (all_pages os - pool_pages os pb)"
    by (rule page_law_within [OF laws(1)]) (simp add: all_pages_def)
  obtain tbl' w' where r: "release_region os a n (tbl, w) = (Inr (), tbl', w')"
    "paging_inv os (within held (all_pages os - pool_pages os pb)) (tbl', w') (remove1 (a, n, lk) hl)"
    using release_inv [OF law l(5) assms(4) D] by (metis prod.collapse)
  have ow: "owned w' = owned w"
    by (rule release_region_frame [OF r(1) v, of owned]) (simp_all add: keeps_ownedD [OF laws(2)])
  have hq: "held w' q = held w q" if "q \<in> pool_pages os pb" for q
  proof (rule release_region_frame [OF r(1) v, of "\<lambda>w. held w q"])
    fix u p assume "touches (page_size os) a n p"
    then have d: "page_size os dvd p" "page_size os dvd q" "q \<noteq> p"
      using D that by (auto simp: touches_def pool_pages_def)
    show "held (os_unlock_pages os u p (page_size os)) q = held u q"
      "held (os_include_in_dumps os u p (page_size os)) q = held u q"
      by (rule held_other_page [OF laws(1) d])+
  qed
  have sub: "b \<in># mset (remove1 (a, n, lk) hl) \<Longrightarrow> b \<in># mset hl" for b
    by (auto dest: in_diffD)
  have "layout os owned held pb (remove1 (a, n, lk) hl) (tbl', w')"
  proof (rule layoutI)
    have "pb + mset hl = pb + mset (remove1 (a, n, lk) hl) + {#(a, n, lk)#}"
      using assms(4) by simp
    then show "disjoint_blocks (pb + mset (remove1 (a, n, lk) hl))"
      using l(1) disjoint_blocks_drop by metis
    show "b \<in># pb + mset (remove1 (a, n, lk) hl) \<Longrightarrow> covers x b \<Longrightarrow> x \<in> owned (snd (tbl', w'))" for b x
      using l(2) [of b x] sub [of b] ow by auto
    show "p \<in> pool_pages os pb \<Longrightarrow> p \<le> x \<Longrightarrow> x < p + page_size os \<Longrightarrow> pooled pb x" for p x
      using l(3) by fastforce
    show "(b, m, True) \<in># pb \<Longrightarrow> touches (page_size os) b m p \<Longrightarrow> held (snd (tbl', w')) p" for b m p
      using l(4) [of b m p] hq [OF pool_touches, of b m True p] assms(3) by auto
  qed (rule r(2))
  then show ?thesis
    using r(1) ow by blast
qed

text \<open>Freeing a range that no block meets.\<close>

lemma layout_free:
  assumes "space_law os hp owned held" "layout os owned held pb hl (tbl, w)" "\<forall>(b, m, lk)\<in>#pb. 0 < m"
    and "\<And>b x. b \<in># pb + mset hl \<Longrightarrow> covers x b \<Longrightarrow> x \<notin> {a..<a + n}"
  shows "layout os owned held pb hl (tbl, hp_free hp w a n)"
proof -
  have laws: "heap_law os hp owned held"
    using assms(1) by (simp add: space_law_def)
  note l = layoutD [OF assms(2)] and fr = heap_lawD(4-6) [OF laws]
  have keep: "held (hp_free hp w a n) p"
    if "held w p" "(b, m, lk) \<in># pb + mset hl" "touches (page_size os) b m p" "0 < m" for b m lk p
  proof -
    note t = that
    obtain x where x: "p \<le> x" "x < p + page_size os" "b \<le> x" "x < b + m"
      using t(3) page_size_pos t(4) by (rule touches_byte)
    then have "x \<in> {p..<p + page_size os} \<inter> (owned w - {a..<a + n})"
      using l(2) [OF that(2), of x] assms(4) [OF that(2), of x] by simp
    then show ?thesis
      using fr(3) [OF that(1)] by blast
  qed
  let ?h = "within held (all_pages os - pool_pages os pb)"
  have pk: "paging_inv os ?h (tbl, hp_free hp w a n) hl"
  proof (rule paging_inv_keep [OF l(5)])
    fix p assume h: "0 < users os hl p" "?h w p"
    then obtain b m lk where b: "(b, m, lk) \<in> set hl" "touches (page_size os) b m p"
      by (auto simp: users_def filter_empty_conv)
    then show "?h (hp_free hp w a n) p"
      using h(2) keep [of p b m lk] paging_invD(1) [OF l(5) b(1)] by (auto simp: within_def valid_buffer_def)
  qed
  show ?thesis
  proof (rule layoutI)
    show "b \<in># pb + mset hl \<Longrightarrow> covers x b \<Longrightarrow> x \<in> owned (snd (tbl, hp_free hp w a n))" for b x
      using l(2) [of b x] assms(4) [of b x] fr(1) by simp
    show "p \<in> pool_pages os pb \<Longrightarrow> p \<le> x \<Longrightarrow> x < p + page_size os \<Longrightarrow> pooled pb x" for p x
      using l(3) by fastforce
    show "(b, m, True) \<in># pb \<Longrightarrow> touches (page_size os) b m p \<Longrightarrow> held (snd (tbl, hp_free hp w a n)) p" for b m p
      using l(4) [of b m p] keep [of p b m True] assms(3) by auto
  qed (rule l(1), rule pk)
qed

text \<open>Class sizes and page sizes are powers of two, so blocks fill the mapping.\<close>

lemma classes_power: "sz \<in> set CLASSES \<Longrightarrow> \<exists>k. sz = 2 ^ k"
  unfolding CLASSES_def
  by (auto intro: exI [of _ 4] exI [of _ 5] exI [of _ 6] exI [of _ 7] exI [of _ 8] exI [of _ 9] exI [of _ 10] exI [of _ 11])

lemma class_pos: "sz \<in> set CLASSES \<Longrightarrow> 0 < sz"
  using classes_power by fastforce

lemma class_dvd_page:
  assumes "sz \<in> set CLASSES"
  shows "sz dvd max (page_size os) sz" "page_size os dvd max (page_size os) sz"
proof -
  obtain k where k: "sz = 2 ^ k" using classes_power [OF assms] by blast
  obtain j where j: "page_size os = 2 ^ j" using page_size_power [of os] by blast
  show "sz dvd max (page_size os) sz" "page_size os dvd max (page_size os) sz"
    unfolding k j max_def by (simp_all add: le_imp_power_dvd)
qed

lemma page_step:
  fixes page :: nat
  assumes "page dvd p" "page dvd q" "p < q"
  shows "p + page \<le> q"
proof -
  obtain i j where ij: "p = page * i" "q = page * j"
    using assms(1,2) by (auto elim!: dvdE)
  then have "Suc i \<le> j"
    using assms(3) by simp
  then have "page * Suc i \<le> page * j"
    by (rule mult_le_mono2)
  then show ?thesis
    using ij by simp
qed

lemma pool_pages_union:
  "pool_pages os (pb + nb) = pool_pages os pb \<union> pool_pages os nb"
  unfolding pool_pages_def pooled_def by (auto simp del: split_paired_Ex split_paired_All)

lemma pooled_union: "pooled (pb + nb) x \<longleftrightarrow> pooled pb x \<or> pooled nb x"
  unfolding pooled_def by auto

lemma pool_pages_new:
  assumes "sz \<in> set CLASSES" "page_size os dvd start"
  shows "pool_pages os (page_blocks start sz lk (max (page_size os) sz div sz)) =
    {p. page_size os dvd p \<and> start \<le> p \<and> p < start + max (page_size os) sz}"
proof -
  let ?P = "page_size os" and ?M = "max (page_size os) sz"
  note d = class_dvd_page [OF assms(1), of os]
  have c: "pooled (page_blocks start sz lk (?M div sz)) x \<longleftrightarrow> start \<le> x \<and> x < start + ?M" for x
    unfolding pooled_def by (rule page_blocks_cover [OF class_pos [OF assms(1)] d(1)])
  have "(\<exists>x. (start \<le> x \<and> x < start + ?M) \<and> p \<le> x \<and> x < p + ?P) \<longleftrightarrow> start \<le> p \<and> p < start + ?M"
    if p: "?P dvd p" for p
  proof -
    obtain i j k where ijk: "start = ?P * i" "p = ?P * j" "?M = ?P * k"
      using assms(2) p d(2) by (auto elim!: dvdE)
    have "?P * i < ?P * j + ?P \<longleftrightarrow> ?P * i \<le> ?P * j"
    proof -
      have "?P * i < ?P * j + ?P \<longleftrightarrow> ?P * i < ?P * Suc j" by (simp add: add.commute)
      also have "\<dots> \<longleftrightarrow> i \<le> j" using page_size_pos [of os] by (simp add: nat_mult_less_cancel_disj less_Suc_eq_le del: mult_Suc_right)
      finally show ?thesis using page_size_pos [of os] by simp
    qed
    then have "start < p + ?P \<longleftrightarrow> start \<le> p" using ijk by simp
    moreover have "p < start + ?M \<Longrightarrow> 0 < ?P" by simp
    ultimately show ?thesis
      by (auto intro!: exI [of _ p])
  qed
  then show ?thesis
    unfolding pool_pages_def c by blast
qed

lemma page_inside:
  assumes "page_size os dvd p" "page_size os dvd start" "page_size os dvd n" "p < start + n"
  shows "p + page_size os \<le> start + n"
  using page_step [OF assms(1) dvd_add [OF assms(2,3)]] assms(4) by blast

lemma fresh_pages_unused:
  assumes "paging_inv os h t hl" "\<And>b x. b \<in> set hl \<Longrightarrow> start \<le> x \<Longrightarrow> x < start + n \<Longrightarrow> \<not> covers x b"
    and "page_size os dvd p" "page_size os dvd start" "page_size os dvd n" "start \<le> p" "p < start + n"
  shows "users os hl p = 0"
proof (rule ccontr)
  assume "users os hl p \<noteq> 0"
  then obtain b m k where b: "(b, m, k) \<in> set hl" "touches (page_size os) b m p"
    by (auto simp: users_def filter_empty_conv)
  have "0 < m"
    using paging_invD(1) [OF assms(1) b(1)] by (simp add: valid_buffer_def)
  then obtain x where x: "p \<le> x" "x < p + page_size os" "b \<le> x" "x < b + m"
    by (rule touches_byte [OF b(2) page_size_pos])
  then show False
    using assms(2) [OF b(1), of x] page_inside [OF assms(3-5,7)] assms(6) by simp
qed

text \<open>A page that joins the pool leaves the pages that the table counts as they are.\<close>

lemma paging_inv_grow:
  assumes "paging_inv os (within held (all_pages os - P)) (tbl, w) hl"
    and "\<And>p. page_size os dvd p \<Longrightarrow> p \<in> N \<Longrightarrow> users os hl p = 0"
    and "\<And>p. page_size os dvd p \<Longrightarrow> p \<notin> N \<Longrightarrow> held w' p = held w p"
  shows "paging_inv os (within held (all_pages os - (P \<union> {p. page_size os dvd p \<and> p \<in> N}))) (tbl, w') hl"
    (is "paging_inv os (within held ?D') _ hl")
proof (rule paging_inv_keep [OF assms(1)])
  fix p assume "0 < users os hl p" "within held (all_pages os - P) w p"
  then show "within held ?D' w' p"
    using assms(2,3) [of p] by (auto simp: within_def all_pages_def)
qed

lemma layout_grow:
  assumes "space_law os hp owned held" "layout os owned held pb hl (tbl, w)" "sz \<in> set CLASSES"
    and "os_map_region os w (max (page_size os) sz) = (Some start, w1)"
    and "os_lock_pages os w1 start (max (page_size os) sz) = (lk, w2)"
    and "os_exclude_from_dumps os w2 start (max (page_size os) sz) = (nd, w3)"
  shows "layout os owned held (pb + page_blocks start sz lk (max (page_size os) sz div sz)) hl (tbl, w3)"
proof -
  let ?M = "max (page_size os) sz" and ?nb = "page_blocks start sz lk (max (page_size os) sz div sz)"
  have laws: "lock_law os held" "map_law os owned held" "keeps_owned os owned"
    using assms(1) by (simp_all add: space_law_def)
  note l = layoutD [OF assms(2)] and m = map_lawD [OF laws(2) assms(4)] and d = class_dvd_page [OF assms(3), of os]
  have st: "page_size os dvd start" "{start..<start + ?M} \<inter> owned w = {}" "owned w1 = owned w \<union> {start..<start + ?M}"
    using m(2-4) by simp_all
  have ow: "owned w3 = owned w \<union> {start..<start + ?M}"
    using keeps_ownedD(1) [OF laws(3), of w1 start ?M] keeps_ownedD(3) [OF laws(3), of w2 start ?M] assms(5,6) st(3) by simp
  have cov: "pooled ?nb x \<longleftrightarrow> start \<le> x \<and> x < start + ?M" for x
    unfolding pooled_def by (rule page_blocks_cover [OF class_pos [OF assms(3)] d(1)])
  note pn = pool_pages_new [OF assms(3) st(1)]
  have h3: "held w3 p = (held w p \<or> lk \<and> start \<le> p \<and> p < start + ?M)" if "page_size os dvd p" for p
    using lock_lawD(1) [OF laws(1) st(1) d(2) that, of w1] lock_lawD(4) [OF laws(1) st(1) d(2) that, of w2] assms(5,6) m(5)
    by simp
  have new: "\<not> covers x b" if "b \<in># pb + mset hl" "start \<le> x" "x < start + ?M" for b x
    using l(2) [OF that(1), of x] st(2) that by auto
  have nbE: "start \<le> x \<and> x < start + ?M" if "b \<in># ?nb" "covers x b" for b x
    using cov that unfolding pooled_def by blast
  show ?thesis
  proof (rule layoutI)
    have "disjoint_blocks (pb + mset hl + ?nb)"
      unfolding disjoint_blocks_union [of "pb + mset hl"] using l(1) page_blocks_apart new nbE by blast
    then show "disjoint_blocks (pb + ?nb + mset hl)"
      by (simp add: ac_simps)
    show "x \<in> owned (snd (tbl, w3))" if "b \<in># pb + ?nb + mset hl" "covers x b" for b x
      using l(2) [of b x] nbE [of b x] that ow by auto
    show "pooled (pb + ?nb) x" if p: "p \<in> pool_pages os (pb + ?nb)" "p \<le> x" "x < p + page_size os" for p x
      using p l(3) cov [of x] page_inside [of os p start ?M] st(1) d(2)
      by (fastforce simp: pooled_union pool_pages_union pn)
    show "held (snd (tbl, w3)) p" if b: "(a, n, True) \<in># pb + ?nb" "touches (page_size os) a n p" for a n p
    proof (cases "(a, n, True) \<in># pb")
      case True
      then show ?thesis
        using l(4) [OF True b(2)] h3 [of p] b(2) by (simp add: touches_def)
    next
      case False
      then have nb: "(a, n, True) \<in># ?nb" using b(1) by simp
      then have "lk" "n = sz"
        by (auto simp: page_blocks_def)
      then show ?thesis
        using pool_touches [OF nb b(2)] class_pos [OF assms(3)] h3 [of p] by (simp add: pn)
    qed
    have none: "users os hl p = 0" if "page_size os dvd p" "p \<in> {start..<start + ?M}" for p
      by (rule fresh_pages_unused [OF l(5) _ that(1) st(1) d(2)]) (use new that in auto)
    have "paging_inv os (within held (all_pages os - (pool_pages os pb \<union> {p. page_size os dvd p \<and> p \<in> {start..<start + ?M}}))) (tbl, w3) hl"
      by (rule paging_inv_grow [OF l(5) none]) (use h3 in auto)
    then show "paging_inv os (within held (all_pages os - pool_pages os (pb + ?nb))) (tbl, w3) hl"
      by (simp add: pool_pages_union pn)
  qed
qed

section \<open>Contents\<close>

text \<open>The blocks on the free lists, and those of the live buffers.\<close>

definition free_blocks :: "free_block list list \<Rightarrow> (nat \<times> nat \<times> bool) multiset" where
  "free_blocks pool = (\<Sum>c<8. image_mset (\<lambda>(a, lk). (a, CLASSES ! c, lk)) (mset (pool ! c)))"

primrec pool_block :: "lb_storage \<Rightarrow> locked_bytes \<Rightarrow> (nat \<times> nat \<times> bool) list" where
  "pool_block Heap b = []"
| "pool_block (Pooled c) b = [(lb_ptr b, CLASSES ! unat c, lb_locked b)]"
| "pool_block RegionView b = []"

primrec heap_block :: "lb_storage \<Rightarrow> locked_bytes \<Rightarrow> (nat \<times> nat \<times> bool) list" where
  "heap_block Heap b = (if 0 < lb_len b then [(lb_ptr b, lb_len b, lb_locked b)] else [])"
| "heap_block (Pooled c) b = []"
| "heap_block RegionView b = []"

definition live_pooled :: "(locked_bytes \<times> bytes) list \<Rightarrow> (nat \<times> nat \<times> bool) list" where
  "live_pooled live = concat (map (\<lambda>(b, bs). pool_block (lb_storage b) b) live)"

definition live_heap :: "(locked_bytes \<times> bytes) list \<Rightarrow> (nat \<times> nat \<times> bool) list" where
  "live_heap live = concat (map (\<lambda>(b, bs). heap_block (lb_storage b) b) live)"

lemma live_Cons [simp]:
  "live_pooled ((b, bs) # live) = pool_block (lb_storage b) b @ live_pooled live"
  "live_heap ((b, bs) # live) = heap_block (lb_storage b) b @ live_heap live"
  "live_pooled [] = []" "live_heap [] = []"
  by (simp_all add: live_pooled_def live_heap_def)

abbreviation pool_of :: "free_block list list \<Rightarrow> (locked_bytes \<times> bytes) list \<Rightarrow> (nat \<times> nat \<times> bool) multiset" where
  "pool_of pool live \<equiv> free_blocks pool + mset (live_pooled live)"

definition good_buffer :: "(nat \<Rightarrow> u8) \<Rightarrow> locked_bytes \<Rightarrow> bytes \<Rightarrow> bool" where
  "good_buffer m b bs \<longleftrightarrow> length bs = lb_len b \<and> (\<forall>i < lb_len b. m (lb_ptr b + i) = bs ! i) \<and>
     (case lb_storage b of RegionView \<Rightarrow> False | Heap \<Rightarrow> True
      | Pooled c \<Rightarrow> unat c < 8 \<and> lb_len b \<le> CLASSES ! unat c \<and>
          (\<forall>x. lb_ptr b + lb_len b \<le> x \<and> x < lb_ptr b + CLASSES ! unat c \<longrightarrow> m x = 0))"

definition pool_contents :: "free_block list list \<Rightarrow> (locked_bytes \<times> bytes) list \<Rightarrow> (nat \<Rightarrow> u8) \<Rightarrow> bool" where
  "pool_contents pool live m \<longleftrightarrow> (\<forall>b\<in>#free_blocks pool. \<forall>x. covers x b \<longrightarrow> m x = 0) \<and>
     (\<forall>(b, bs)\<in>set live. good_buffer m b bs)"

definition buffers_inv ::
  "'w os \<Rightarrow> ('w \<Rightarrow> nat set) \<Rightarrow> ('w \<Rightarrow> nat \<Rightarrow> bool) \<Rightarrow> 'w memory \<Rightarrow> (locked_bytes \<times> bytes) list \<Rightarrow> bool" where
  "buffers_inv os owned held s live \<longleftrightarrow> length (mem_pool s) = 8 \<and>
     layout os owned held (pool_of (mem_pool s) live) (live_heap live) (mem_pages s, mem_world s) \<and>
     pool_contents (mem_pool s) live (mem_bytes s)"

lemma buffers_invD:
  assumes "buffers_inv os owned held s live"
  shows "length (mem_pool s) = 8"
    "layout os owned held (pool_of (mem_pool s) live) (live_heap live) (mem_pages s, mem_world s)"
    "b \<in># free_blocks (mem_pool s) \<Longrightarrow> covers x b \<Longrightarrow> mem_bytes s x = 0"
    "(l, bs) \<in> set live \<Longrightarrow> good_buffer (mem_bytes s) l bs"
    "pool_contents (mem_pool s) live (mem_bytes s)"
  using assms unfolding buffers_inv_def pool_contents_def by blast+

lemma free_blocks_update:
  assumes "length pool = 8" "c < 8"
  shows "free_blocks (pool[c := xs]) + image_mset (\<lambda>(a, lk). (a, CLASSES ! c, lk)) (mset (pool ! c)) =
    free_blocks pool + image_mset (\<lambda>(a, lk). (a, CLASSES ! c, lk)) (mset xs)"
proof -
  let ?f = "\<lambda>pool c. image_mset (\<lambda>(a, lk). (a, CLASSES ! c, lk)) (mset (pool ! c))"
  have "free_blocks (pool[c := xs]) = ?f (pool[c := xs]) c + (\<Sum>i\<in>{..<8} - {c}. ?f (pool[c := xs]) i)"
    unfolding free_blocks_def using assms(2) by (subst sum.remove [of _ c]) auto
  also have "(\<Sum>i\<in>{..<8} - {c}. ?f (pool[c := xs]) i) = (\<Sum>i\<in>{..<8} - {c}. ?f pool i)"
    by (rule sum.cong) auto
  finally have 1: "free_blocks (pool[c := xs]) = ?f (pool[c := xs]) c + (\<Sum>i\<in>{..<8} - {c}. ?f pool i)" .
  have 2: "free_blocks pool = ?f pool c + (\<Sum>i\<in>{..<8} - {c}. ?f pool i)"
    unfolding free_blocks_def using assms(2) by (subst sum.remove [of _ c]) auto
  show ?thesis
    unfolding 1 2 using assms by (simp add: ac_simps)
qed

lemma free_blocks_push:
  assumes "length pool = 8" "c < 8"
  shows "free_blocks (pool[c := pool ! c @ ys]) = free_blocks pool + image_mset (\<lambda>(a, lk). (a, CLASSES ! c, lk)) (mset ys)"
  using free_blocks_update [OF assms, of "pool ! c @ ys"] by simp

lemma free_blocks_pop:
  assumes "length pool = 8" "c < 8" "pool ! c \<noteq> []" "last (pool ! c) = (a, lk)"
  shows "free_blocks pool = add_mset (a, CLASSES ! c, lk) (free_blocks (pool[c := butlast (pool ! c)]))"
proof -
  have "pool ! c = butlast (pool ! c) @ [(a, lk)]"
    using assms(3,4) by (metis append_butlast_last_id)
  then have "mset (pool ! c) = add_mset (a, lk) (mset (butlast (pool ! c)))"
    by (metis mset_append mset_single_iff_right add_mset_add_single mset.simps)
  with free_blocks_update [OF assms(1,2), of "butlast (pool ! c)"] show ?thesis
    by simp
qed

lemma class_in: "c < 8 \<Longrightarrow> CLASSES ! c \<in> set CLASSES"
  by (rule nth_mem) (simp add: CLASSES_def)

lemma pool_contents_write:
  assumes "pool_contents pool live m"
    and "\<And>b x. b \<in># pool_of pool live + mset (live_heap live) \<Longrightarrow> covers x b \<Longrightarrow> m' x = m x"
  shows "pool_contents pool live m'"
  unfolding pool_contents_def
proof (intro conjI ballI)
  show "\<forall>x. covers x b \<longrightarrow> m' x = 0" if "b \<in># free_blocks pool" for b
    using assms(1) assms(2) [of b] that by (simp add: pool_contents_def)
  fix e assume e: "e \<in> set live"
  obtain b bs where bs: "e = (b, bs)" by (rule prod.exhaust)
  have g: "good_buffer m b bs"
    using assms(1) e bs by (auto simp: pool_contents_def)
  show "case e of (b, bs) \<Rightarrow> good_buffer m' b bs"
  proof (cases "lb_storage b")
    case Heap
    have "m' (lb_ptr b + i) = m (lb_ptr b + i)" if "i < lb_len b" for i
      by (rule assms(2) [of "(lb_ptr b, lb_len b, lb_locked b)"])
         (use e bs that Heap in \<open>force simp: live_heap_def\<close>)+
    with g Heap bs show ?thesis by (simp add: good_buffer_def)
  next
    case (Pooled c)
    have "m' x = m x" if "lb_ptr b \<le> x" "x < lb_ptr b + CLASSES ! unat c" for x
      by (rule assms(2) [of "(lb_ptr b, CLASSES ! unat c, lb_locked b)"])
         (use e bs that Pooled in \<open>force simp: live_pooled_def\<close>)+
    with g Pooled bs show ?thesis by (auto simp: good_buffer_def)
  qed (use g bs in \<open>simp add: good_buffer_def\<close>)
qed

lemma pool_pos:
  assumes "pool_contents pool live m"
  shows "\<forall>(b, n, lk)\<in>#pool_of pool live. 0 < n"
proof -
  have "0 < n" if "(b, n, lk) \<in># free_blocks pool" for b n lk
    using that class_pos [OF class_in] by (auto simp: free_blocks_def set_mset_sum)
  moreover have "0 < n" if mem: "(b, n, lk) \<in> set (live_pooled live)" for b n lk
  proof -
    obtain l bs where l: "(l, bs) \<in> set live" "(b, n, lk) \<in> set (pool_block (lb_storage l) l)"
      using mem by (auto simp: live_pooled_def)
    then have "good_buffer m l bs"
      using assms by (auto simp: pool_contents_def)
    with l(2) show ?thesis
      using class_pos [OF class_in] by (cases "lb_storage l") (auto simp: good_buffer_def)
  qed
  ultimately show ?thesis by auto
qed

lemma grow_blocks:
  assumes "grow os fr sz (m, w) = (Some fr', m', w')"
  obtains start w1 lk w2 nd where
    "os_map_region os w (max (page_size os) sz) = (Some start, w1)"
    "os_lock_pages os w1 start (max (page_size os) sz) = (lk, w2)"
    "os_exclude_from_dumps os w2 start (max (page_size os) sz) = (nd, w')"
    "fr' = fr @ map (\<lambda>i. (start + i * sz, lk)) (rev [0..<max (page_size os) sz div sz])"
    "m' = zero_bytes start (max (page_size os) sz) m"
  using assms that unfolding grow_def Let_def by (auto split: prod.splits option.splits)

lemma grow_none:
  assumes "grow os fr sz (m, w) = (None, m', w')"
  shows "os_map_region os w (max (page_size os) sz) = (None, w')" "m' = m"
  using assms unfolding grow_def Let_def by (auto split: prod.splits option.splits)

lemma mset_new_blocks:
  "image_mset (\<lambda>(a, l). (a, sz, l)) (mset (map (\<lambda>i. (start + i * sz, lk)) (rev [0..<n]))) = page_blocks start sz lk n"
  by (simp add: page_blocks_def multiset.map_comp comp_def)

text \<open>The blocks of a fresh page are zero, and the buffers that exist keep their bytes.\<close>

lemma pool_contents_grow:
  assumes "pool_contents pool live m0" "free_blocks pool' = free_blocks pool + page_blocks start sz lk (n div sz)"
    and "0 < sz" "sz dvd n" "\<And>b x. b \<in># pool_of pool live + mset (live_heap live) \<Longrightarrow> covers x b \<Longrightarrow> x \<notin> {start..<start + n}"
  shows "pool_contents pool' live (zero_bytes start n m0)"
proof -
  have "pool_contents pool live (zero_bytes start n m0)"
    by (rule pool_contents_write [OF assms(1)]) (use assms(5) in \<open>fastforce simp: zero_bytes_def\<close>)
  moreover have "zero_bytes start n m0 x = 0" if "b \<in># page_blocks start sz lk (n div sz)" "covers x b" for b x
    using page_blocks_cover [OF assms(3,4), of start lk x] that by (auto simp: zero_bytes_def)
  ultimately show ?thesis
    unfolding pool_contents_def assms(2) by auto
qed

lemma refill_failed:
  assumes "space_law os hp owned held" "buffers_inv os owned held s live"
    and "grow os fr sz (mem_bytes s, mem_world s) = (None, m, w)"
  shows "buffers_inv os owned held (s\<lparr>mem_bytes := m, mem_world := w\<rparr>) live"
proof -
  note i = buffers_invD [OF assms(2)] and n = grow_none [OF assms(3)]
  have ml: "map_law os owned held"
    using assms(1) by (simp add: space_law_def)
  have "layout os owned held (pool_of (mem_pool s) live) (live_heap live) (mem_pages s, w)"
    by (rule layout_world [OF i(2)]) (use map_lawD(1,5) [OF ml n(1)] layoutD(2) [OF i(2)] in auto)
  then show ?thesis
    using i(1,5) n(2) by (simp add: buffers_inv_def)
qed

lemma refill_grown:
  assumes "space_law os hp owned held" "buffers_inv os owned held s live" "c < 8"
    and "grow os (mem_pool s ! c) (CLASSES ! c) (mem_bytes s, mem_world s) = (Some fr, m, w)"
  shows "buffers_inv os owned held (s\<lparr>mem_pool := (mem_pool s)[c := fr], mem_bytes := m, mem_world := w\<rparr>) live" "fr \<noteq> []"
proof -
  note i = buffers_invD [OF assms(2)] and cl = class_in [OF assms(3)]
  have ml: "map_law os owned held"
    using assms(1) by (simp add: space_law_def)
  let ?sz = "CLASSES ! c" and ?M = "max (page_size os) (CLASSES ! c)"
  obtain start w1 lk w2 nd where gr: "os_map_region os (mem_world s) ?M = (Some start, w1)"
    "os_lock_pages os w1 start ?M = (lk, w2)" "os_exclude_from_dumps os w2 start ?M = (nd, w)"
    "fr = mem_pool s ! c @ map (\<lambda>i. (start + i * ?sz, lk)) (rev [0..<?M div ?sz])" "m = zero_bytes start ?M (mem_bytes s)"
    by (rule grow_blocks [OF assms(4)])
  have fb: "free_blocks ((mem_pool s)[c := fr]) = free_blocks (mem_pool s) + page_blocks start ?sz lk (?M div ?sz)"
    unfolding gr(4) free_blocks_push [OF i(1) assms(3)] mset_new_blocks ..
  have "layout os owned held (pool_of (mem_pool s) live + page_blocks start ?sz lk (?M div ?sz)) (live_heap live) (mem_pages s, w)"
    by (rule layout_grow [OF assms(1) i(2) cl gr(1-3)])
  moreover have "pool_contents ((mem_pool s)[c := fr]) live m"
    unfolding gr(5)
    by (rule pool_contents_grow [OF i(5) fb class_pos [OF cl] class_dvd_page(1) [OF cl]])
       (use layoutD(2) [OF i(2)] map_lawD(3) [OF ml gr(1), of start] in fastforce)
  ultimately show "buffers_inv os owned held (s\<lparr>mem_pool := (mem_pool s)[c := fr], mem_bytes := m, mem_world := w\<rparr>) live"
    using i(1) fb by (simp add: buffers_inv_def ac_simps)
  have "0 < ?M div ?sz"
    using class_pos [OF cl] by (simp add: div_greater_zero_iff)
  then show "fr \<noteq> []"
    by (simp add: gr(4))
qed

lemma refill_inv:
  assumes "space_law os hp owned held" "buffers_inv os owned held s live" "c < 8" "refill os c s = (ok, s')"
  shows "buffers_inv os owned held s' live" "ok \<Longrightarrow> mem_pool s' ! c \<noteq> []"
proof -
  obtain r m w where g: "grow os (mem_pool s ! c) (CLASSES ! c) (mem_bytes s, mem_world s) = (r, m, w)"
    by (metis prod_cases3)
  have "buffers_inv os owned held s' live \<and> (ok \<longrightarrow> mem_pool s' ! c \<noteq> [])"
  proof (cases "mem_pool s ! c = []")
    case False
    then show ?thesis
      using assms(2,4) by (auto simp: refill_def)
  next
    case True
    then show ?thesis
      using assms(3,4) g refill_failed [OF assms(1,2)] refill_grown [OF assms(1-3)] buffers_invD(1) [OF assms(2)]
      by (cases r) (auto simp: refill_def)
  qed
  then show "buffers_inv os owned held s' live" "ok \<Longrightarrow> mem_pool s' ! c \<noteq> []" by blast+
qed

section \<open>Operations keep the invariant\<close>

lemma position_Some: "position P xs = Some c \<Longrightarrow> c < length xs \<and> P (xs ! c)"
proof (induction xs arbitrary: c)
  case (Cons x xs)
  then show ?case by (cases "P x") auto
qed simp

lemma pool_alloc_None:
  assumes "space_law os hp owned held" "buffers_inv os owned held s live" "pool_alloc os len s = (None, s')"
  shows "buffers_inv os owned held s' live"
proof (cases "position (\<lambda>sz. len \<le> sz) CLASSES")
  case None
  with assms show ?thesis by (simp add: pool_alloc_def)
next
  case (Some c)
  have c: "c < 8" using position_Some [OF Some] by (simp add: CLASSES_def)
  obtain ok s1 where r: "refill os c s = (ok, s1)" by (rule prod.exhaust)
  note ri = refill_inv [OF assms(1,2) c r]
  show ?thesis
    using assms(2,3) Some r ri c unfolding pool_alloc_def
    by (cases ok) (auto simp: Let_def split: if_splits prod.splits)
qed

lemma pool_alloc_Some:
  assumes "space_law os hp owned held" "buffers_inv os owned held s live" "pool_alloc os len s = (Some b, s')"
  obtains "unat (blk_class b) < 8" "len \<le> CLASSES ! unat (blk_class b)" "length (mem_pool s') = 8"
    "layout os owned held (add_mset (blk_ptr b, CLASSES ! unat (blk_class b), blk_locked b) (pool_of (mem_pool s') live))
       (live_heap live) (mem_pages s', mem_world s')"
    "pool_contents (mem_pool s') live (mem_bytes s')"
    "\<And>x. blk_ptr b \<le> x \<Longrightarrow> x < blk_ptr b + CLASSES ! unat (blk_class b) \<Longrightarrow> mem_bytes s' x = 0"
proof (cases "position (\<lambda>sz. len \<le> sz) CLASSES")
  case None
  with assms show ?thesis by (simp add: pool_alloc_def)
next
  case (Some c)
  have c: "c < 8" "len \<le> CLASSES ! c" using position_Some [OF Some] by (simp_all add: CLASSES_def)
  have u: "unat (word_of_nat c :: u8) = c" using c(1) by (simp add: unsigned_of_nat take_bit_nat_eq_self)
  obtain ok s1 where r: "refill os c s = (ok, s1)" by (rule prod.exhaust)
  note ri = refill_inv [OF assms(1,2) c(1) r]
  obtain a lk where l: "last (mem_pool s1 ! c) = (a, lk)" by (rule prod.exhaust)
  have b: "b = \<lparr>blk_ptr = a, blk_class = word_of_nat c, blk_locked = lk\<rparr>" "mem_pool s1 ! c \<noteq> []"
    "s' = s1\<lparr>mem_pool := (mem_pool s1)[c := butlast (mem_pool s1 ! c)]\<rparr>"
    using assms(3) Some r l unfolding pool_alloc_def by (auto simp: Let_def split: if_splits bool.splits)
  note i = buffers_invD [OF ri(1)]
  have fb: "free_blocks (mem_pool s1) = add_mset (a, CLASSES ! c, lk) (free_blocks (mem_pool s'))"
    using free_blocks_pop [OF i(1) c(1) b(2) l] b(3) by simp
  show ?thesis
  proof (rule that)
    show "unat (blk_class b) < 8" "len \<le> CLASSES ! unat (blk_class b)" "length (mem_pool s') = 8"
      using b(1,3) c u i(1) by simp_all
    show "layout os owned held (add_mset (blk_ptr b, CLASSES ! unat (blk_class b), blk_locked b) (pool_of (mem_pool s') live))
       (live_heap live) (mem_pages s', mem_world s')"
      using i(2) fb b(1,3) u by simp
    show "pool_contents (mem_pool s') live (mem_bytes s')"
      using i(5) fb b(3) by (simp add: pool_contents_def)
    show "mem_bytes s' x = 0" if "blk_ptr b \<le> x" "x < blk_ptr b + CLASSES ! unat (blk_class b)" for x
      using i(3) [of "(a, CLASSES ! c, lk)" x] that fb b(1,3) u by simp
  qed
qed

lemma boxed_inv_nonempty:
  assumes "space_law os hp owned held" "buffers_inv os owned held s live" "bs \<noteq> []" "boxed os hp bs s = (Inr l, s')"
  shows "buffers_inv os owned held s' ((l, bs) # live)"
proof -
  have hl: "heap_law os hp owned held"
    using assms(1) by (simp add: space_law_def)
  note i = buffers_invD [OF assms(2)]
  obtain a w where a: "hp_alloc hp (mem_world s) (length bs) = (Some a, w)"
    using assms(3,4) by (cases "hp_alloc hp (mem_world s) (length bs)"; cases "fst (hp_alloc hp (mem_world s) (length bs))")
      (auto simp: boxed_def box_from_def)
  obtain r tbl w' where acq: "acquire_region os a (length bs) (mem_pages s, w) = (r, tbl, w')"
    by (metis prod_cases3)
  obtain lk where r: "r = Inr lk" and l: "l = \<lparr>lb_ptr = a, lb_len = length bs, lb_storage = Heap, lb_locked = lk\<rparr>"
    and s': "s' = s\<lparr>mem_bytes := write_bytes a bs (mem_bytes s), mem_world := w', mem_pages := tbl\<rparr>"
    using assms(3,4) a acq by (cases r) (auto simp: boxed_def box_from_def mem_acquire_def Let_def)
  have "layout os owned held (pool_of (mem_pool s) live) ((a, length bs, lk) # live_heap live) (tbl, w')"
    by (rule layout_acquire [OF assms(1) i(2) pool_pos [OF i(5)] a]) (use assms(3) acq r in simp_all)
  moreover have "pool_contents (mem_pool s) live (mem_bytes s')"
  proof (rule pool_contents_write [OF i(5)])
    fix c x assume "c \<in># pool_of (mem_pool s) live + mset (live_heap live)" "covers x c"
    then have "x \<in> owned (mem_world s)"
      using layoutD(2) [OF i(2), of c x] by simp
    then show "mem_bytes s' x = mem_bytes s x"
      using heap_lawD(1) [OF hl a] by (auto simp: s' write_bytes_def)
  qed
  moreover have "good_buffer (mem_bytes s') l bs"
    by (simp add: good_buffer_def l s' write_bytes_def)
  ultimately show ?thesis
    using i(1) assms(3) by (simp add: buffers_inv_def l s' pool_contents_def)
qed

lemma boxed_inv:
  assumes "space_law os hp owned held" "buffers_inv os owned held s live" "boxed os hp bs s = (Inr l, s')"
  shows "buffers_inv os owned held s' ((l, bs) # live)"
proof (cases "bs = []")
  case True
  then have "l = \<lparr>lb_ptr = 1, lb_len = 0, lb_storage = Heap, lb_locked = False\<rparr>" "s' = s"
    using assms(3) by (simp_all add: boxed_def box_from_def Let_def)
  then show ?thesis
    using assms(2) True by (simp add: buffers_inv_def pool_contents_def good_buffer_def)
qed (rule boxed_inv_nonempty [OF assms(1,2) _ assms(3)])

lemma from_slice_inv:
  assumes "space_law os hp owned held" "buffers_inv os owned held s live" "from_slice os hp bs s = (Inr l, s')"
  shows "buffers_inv os owned held s' ((l, bs) # live)"
proof (cases "pool_alloc os (length bs) s")
  case (Pair r s1)
  show ?thesis
  proof (cases r)
    case (Some b)
    let ?B = "(blk_ptr b, CLASSES ! unat (blk_class b), blk_locked b)"
    have l: "l = \<lparr>lb_ptr = blk_ptr b, lb_len = length bs, lb_storage = Pooled (blk_class b), lb_locked = blk_locked b\<rparr>"
      "s' = s1\<lparr>mem_bytes := write_bytes (blk_ptr b) bs (mem_bytes s1)\<rparr>"
      using assms(3) Pair Some by (simp_all add: from_slice_def)
    obtain p: "unat (blk_class b) < 8" "length bs \<le> CLASSES ! unat (blk_class b)" "length (mem_pool s1) = 8"
      "layout os owned held (add_mset ?B (pool_of (mem_pool s1) live)) (live_heap live) (mem_pages s1, mem_world s1)"
      "pool_contents (mem_pool s1) live (mem_bytes s1)"
      "\<And>x. blk_ptr b \<le> x \<Longrightarrow> x < blk_ptr b + CLASSES ! unat (blk_class b) \<Longrightarrow> mem_bytes s1 x = 0"
      using pool_alloc_Some [OF assms(1,2) Pair [unfolded Some]] by blast
    have disj: "\<not> (covers x ?B \<and> covers x c)" if "c \<in># pool_of (mem_pool s1) live + mset (live_heap live)" for c x
      using layoutD(1) [OF p(4)] that by (auto simp: disjoint_blocks_add simp del: covers_simp)
    have "pool_contents (mem_pool s1) live (mem_bytes s')"
    proof (rule pool_contents_write [OF p(5)])
      fix c x assume "c \<in># pool_of (mem_pool s1) live + mset (live_heap live)" "covers x c"
      then show "mem_bytes s' x = mem_bytes s1 x"
        using disj [of c x] p(2) by (auto simp: l(2) write_bytes_def)
    qed
    moreover have "good_buffer (mem_bytes s') l bs"
      using p(1,2,6) by (auto simp: good_buffer_def l write_bytes_def)
    ultimately show ?thesis
      using p(3,4) by (simp add: buffers_inv_def l pool_contents_def)
  next
    case None
    have "buffers_inv os owned held s1 live"
      by (rule pool_alloc_None [OF assms(1,2) Pair [unfolded None]])
    then show ?thesis
      using boxed_inv [OF assms(1)] assms(3) Pair None by (simp add: from_slice_def)
  qed
qed

text \<open>The order of the live buffers does not matter.\<close>

lemma mset_concat_map: "mset (concat (map f xs)) = (\<Sum>x\<in>#mset xs. mset (f x))"
  by (induction xs) simp_all

lemma buffers_inv_perm:
  assumes "buffers_inv os owned held s live" "mset live' = mset live"
  shows "buffers_inv os owned held s live'"
proof -
  have "mset (live_pooled live') = mset (live_pooled live)" "mset (live_heap live') = mset (live_heap live)"
    by (simp_all add: live_pooled_def live_heap_def mset_concat_map assms(2))
  moreover have "set live' = set live"
    using assms(2) by (metis set_mset_mset)
  ultimately show ?thesis
    using assms(1) layout_perm [of os owned held _ "live_heap live" _ "live_heap live'"]
    by (simp add: buffers_inv_def pool_contents_def)
qed

lemma drop_pooled:
  assumes "buffers_inv os owned held s ((l, bs) # live)" "lb_storage l = Pooled c"
    and "locked_bytes_drop os hp l s = (x, s')"
  shows "x = Inr () \<and> buffers_inv os owned held s' live"
proof -
  note i = buffers_invD [OF assms(1)]
  let ?B = "(lb_ptr l, CLASSES ! unat c, lb_locked l)"
  have g: "good_buffer (mem_bytes s) l bs" by (rule i(4)) simp
  then have c: "unat c < 8" by (simp add: good_buffer_def assms(2))
  have s': "x = Inr ()" "s' = s\<lparr>mem_bytes := zero_bytes (lb_ptr l) (lb_len l) (mem_bytes s),
      mem_pool := (mem_pool s)[unat c := mem_pool s ! unat c @ [(lb_ptr l, lb_locked l)]]\<rparr>"
    using assms(2,3) by (simp_all add: locked_bytes_drop_def Let_def pool_free_def)
  have fb: "free_blocks (mem_pool s') = add_mset ?B (free_blocks (mem_pool s))"
    using free_blocks_push [OF i(1) c, of "[(lb_ptr l, lb_locked l)]"] s'(2) by simp
  have lay: "layout os owned held (add_mset ?B (pool_of (mem_pool s) live)) (live_heap live) (mem_pages s, mem_world s)"
    using i(2) by (simp add: assms(2) ac_simps)
  have old: "pool_contents (mem_pool s) live (mem_bytes s')"
  proof (rule pool_contents_write)
    show "pool_contents (mem_pool s) live (mem_bytes s)"
      using i(5) by (simp add: pool_contents_def)
    fix d y assume "d \<in># pool_of (mem_pool s) live + mset (live_heap live)" "covers y d"
    then have "\<not> covers y ?B"
      using layoutD(1) [OF lay] by (auto simp: disjoint_blocks_add simp del: covers_simp)
    then show "mem_bytes s' y = mem_bytes s y"
      using g by (auto simp: s' zero_bytes_def good_buffer_def assms(2))
  qed
  have "mem_bytes s' y = 0" if "covers y ?B" for y
    using g that by (auto simp: s' zero_bytes_def good_buffer_def assms(2))
  with old have "pool_contents (mem_pool s') live (mem_bytes s')"
    by (simp add: pool_contents_def fb)
  then show ?thesis
    using lay i(1) fb s' by (simp add: buffers_inv_def)
qed

lemma drop_heap:
  assumes "space_law os hp owned held" "buffers_inv os owned held s ((l, bs) # live)" "lb_storage l = Heap"
    and "locked_bytes_drop os hp l s = (x, s')"
  shows "x = Inr () \<and> buffers_inv os owned held s' live"
proof (cases "lb_len l = 0")
  case True
  then show ?thesis
    using assms(2-4) by (simp add: locked_bytes_drop_def buffers_inv_def pool_contents_def)
next
  case False
  note i = buffers_invD [OF assms(2)]
  let ?B = "(lb_ptr l, lb_len l, lb_locked l)" and ?m = "zero_bytes (lb_ptr l) (lb_len l) (mem_bytes s)"
  have lay: "layout os owned held (pool_of (mem_pool s) live) (?B # live_heap live) (mem_pages s, mem_world s)"
    using i(2) False by (simp add: assms(3))
  have con: "pool_contents (mem_pool s) live (mem_bytes s)"
    using i(5) by (simp add: pool_contents_def)
  have disj: "\<not> (covers y d \<and> covers y ?B)" if "d \<in># pool_of (mem_pool s) live + mset (live_heap live)" for d y
    using layoutD(1) [OF lay] that by (auto simp: disjoint_blocks_add simp del: covers_simp)
  obtain tbl w where r: "release_region os (lb_ptr l) (lb_len l) (mem_pages s, mem_world s) = (Inr (), tbl, w)"
    "layout os owned held (pool_of (mem_pool s) live) (live_heap live) (tbl, w)"
    using layout_release [OF assms(1) lay pool_pos [OF con], of "lb_ptr l" "lb_len l" "lb_locked l"] by auto
  have s': "x = Inr ()" "s' = s\<lparr>mem_bytes := ?m, mem_pages := tbl, mem_world := hp_free hp w (lb_ptr l) (lb_len l)\<rparr>"
    using assms(3,4) False r(1) by (simp_all add: locked_bytes_drop_def Let_def mem_release_def)
  have "layout os owned held (pool_of (mem_pool s) live) (live_heap live) (tbl, hp_free hp w (lb_ptr l) (lb_len l))"
    by (rule layout_free [OF assms(1) r(2) pool_pos [OF con]]) (use disj in auto)
  moreover have "pool_contents (mem_pool s) live ?m"
    by (rule pool_contents_write [OF con]) (use disj in \<open>auto simp: zero_bytes_def\<close>)
  ultimately show ?thesis
    using i(1) s' by (simp add: buffers_inv_def)
qed

section \<open>Buffers over time\<close>

text \<open>At the start of the process the pool and the page table are empty.\<close>

definition fresh_memory :: "('w \<Rightarrow> nat \<Rightarrow> bool) \<Rightarrow> 'w memory \<Rightarrow> bool" where
  "fresh_memory held s \<longleftrightarrow> mem_pool s = replicate 8 [] \<and> mem_pages s = Map.empty \<and> (\<forall>p. \<not> held (mem_world s) p)"

text \<open>The rest of the program may do anything with memory that is not handed out to these buffers,
  but it locks no pages itself.\<close>

definition undisturbed ::
  "('w \<Rightarrow> nat set) \<Rightarrow> ('w \<Rightarrow> nat \<Rightarrow> bool) \<Rightarrow> (locked_bytes \<times> bytes) list \<Rightarrow> 'w memory \<Rightarrow> 'w memory \<Rightarrow> bool" where
  "undisturbed owned held live s s' \<longleftrightarrow> mem_pool s' = mem_pool s \<and> mem_pages s' = mem_pages s \<and>
     held (mem_world s') = held (mem_world s) \<and>
     (\<forall>b\<in>#pool_of (mem_pool s) live + mset (live_heap live). \<forall>x. covers x b \<longrightarrow>
        mem_bytes s' x = mem_bytes s x \<and> x \<in> owned (mem_world s'))"

text \<open>Any sequence of creations and drops, of scratch buffers and writes to them, with other activity in
  between. The live buffers, with the
  bytes they were made from, are a ghost component.\<close>

inductive buffers :: "'w os \<Rightarrow> 'w heap \<Rightarrow> ('w \<Rightarrow> nat set) \<Rightarrow> ('w \<Rightarrow> nat \<Rightarrow> bool) \<Rightarrow>
    'w memory \<Rightarrow> (locked_bytes \<times> bytes) list \<Rightarrow> bool" for os hp owned held where
  start: "fresh_memory held s \<Longrightarrow> buffers os hp owned held s []"
| create: "buffers os hp owned held s live \<Longrightarrow> from_slice os hp bs s = (Inr l, s') \<Longrightarrow>
    buffers os hp owned held s' ((l, bs) # live)"
| drop: "buffers os hp owned held s live \<Longrightarrow> (l, bs) \<in> set live \<Longrightarrow> locked_bytes_drop os hp l s = (Inr (), s') \<Longrightarrow>
    buffers os hp owned held s' (remove1 (l, bs) live)"
| scratch: "buffers os hp owned held s live \<Longrightarrow> scratch_buf_new os hp n s = (Inr l, s') \<Longrightarrow>
    buffers os hp owned held s' ((l, replicate n 0) # live)"
| fill: "buffers os hp owned held s live \<Longrightarrow> (l, bs) \<in> set live \<Longrightarrow> lb_storage l = Heap \<Longrightarrow> length bs' = lb_len l \<Longrightarrow>
    buffers os hp owned held (as_mut_slice l bs' s) ((l, bs') # remove1 (l, bs) live)"
| other: "buffers os hp owned held s live \<Longrightarrow> undisturbed owned held live s s' \<Longrightarrow> buffers os hp owned held s' live"

lemma fresh_inv:
  assumes "fresh_memory held s"
  shows "buffers_inv os owned held s []"
proof -
  have fb: "free_blocks (mem_pool s) = {#}"
    using assms by (simp add: fresh_memory_def free_blocks_def)
  have "layout os owned held {#} [] (mem_pages s, mem_world s)"
    using assms by (intro layoutI) (simp_all add: fresh_memory_def disjoint_blocks_def pool_pages_def pooled_def paging_inv_def
      counts_def refs_of_def users_def within_def)
  then show ?thesis
    using assms fb by (simp add: buffers_inv_def pool_contents_def fresh_memory_def)
qed

lemma drop_inv:
  assumes "space_law os hp owned held" "buffers_inv os owned held s live" "(l, bs) \<in> set live"
  shows "\<exists>s'. locked_bytes_drop os hp l s = (Inr (), s') \<and> buffers_inv os owned held s' (remove1 (l, bs) live) \<and>
    as_bytes l s' = replicate (lb_len l) 0"
proof -
  obtain x s' where d: "locked_bytes_drop os hp l s = (x, s')" by (rule prod.exhaust)
  have i: "buffers_inv os owned held s ((l, bs) # remove1 (l, bs) live)"
    by (rule buffers_inv_perm [OF assms(2)]) (use assms(3) in simp)
  have g: "good_buffer (mem_bytes s) l bs"
    by (rule buffers_invD(4) [OF assms(2,3)])
  have k: "x = Inr () \<and> buffers_inv os owned held s' (remove1 (l, bs) live)"
    using drop_heap [OF assms(1) i _ d] drop_pooled [OF i _ d] g by (cases "lb_storage l") (auto simp: good_buffer_def)
  have "mem_bytes s' = zero_bytes (lb_ptr l) (lb_len l) (mem_bytes s) \<or> lb_len l = 0"
    using d g k by (cases "lb_storage l")
      (auto simp: locked_bytes_drop_def good_buffer_def Let_def pool_free_def mem_release_def split: prod.splits sum.splits if_splits)
  then have "as_bytes l s' = replicate (lb_len l) 0"
    by (auto simp: as_bytes_def read_bytes_def zero_bytes_def list_eq_iff_nth_eq)
  with d k show ?thesis by blast
qed

lemma fill_inv:
  assumes "buffers_inv os owned held s ((l, bs) # live)" "lb_storage l = Heap" "length bs' = lb_len l"
  shows "buffers_inv os owned held (as_mut_slice l bs' s) ((l, bs') # live)"
proof -
  note i = buffers_invD [OF assms(1)]
  let ?m = "write_bytes (lb_ptr l) bs' (mem_bytes s)"
  have ap: "disjoint_blocks (pool_of (mem_pool s) live + mset (heap_block (lb_storage l) l) + mset (live_heap live))"
    using layoutD(1) [OF i(2)] by (simp add: assms(2) ac_simps)
  have "pool_contents (mem_pool s) live ?m"
  proof (rule pool_contents_write)
    show "pool_contents (mem_pool s) live (mem_bytes s)"
      using i(5) by (simp add: pool_contents_def)
    fix d y assume d: "d \<in># pool_of (mem_pool s) live + mset (live_heap live)" "covers y d"
    have "\<not> covers y (lb_ptr l, lb_len l, lb_locked l)" if "0 < lb_len l"
      using ap d that by (auto simp: assms(2) disjoint_blocks_add simp del: covers_simp)
    then show "?m y = mem_bytes s y"
      using assms(3) by (cases "lb_len l = 0") (auto simp: write_bytes_def)
  qed
  moreover have "good_buffer ?m l bs'"
    using assms by (simp add: good_buffer_def write_bytes_def)
  ultimately show ?thesis
    using i(1,2) assms(3) by (simp add: buffers_inv_def pool_contents_def as_mut_slice_def)
qed

lemma buffers_reach_inv:
  assumes "space_law os hp owned held"
  shows "buffers os hp owned held s live \<Longrightarrow> buffers_inv os owned held s live"
proof (induction rule: buffers.induct)
  case (start s)
  then show ?case by (rule fresh_inv)
next
  case (create s live bs l s')
  then show ?case using from_slice_inv [OF assms] by blast
next
  case (drop s live l bs s')
  then show ?case using drop_inv [OF assms drop.IH drop.hyps(2)] by auto
next
  case (scratch s live n l s')
  then show ?case using boxed_inv [OF assms] by (simp add: scratch_buf_new_def)
next
  case (fill s live l bs bs')
  have "buffers_inv os owned held s ((l, bs) # remove1 (l, bs) live)"
    by (rule buffers_inv_perm [OF fill.IH]) (use fill.hyps(2) in simp)
  then show ?case
    by (rule fill_inv [OF _ fill.hyps(3,4)])
next
  case (other s live s')
  note i = buffers_invD [OF other.IH]
  have u: "mem_pool s' = mem_pool s" "mem_pages s' = mem_pages s" "held (mem_world s') = held (mem_world s)"
    "\<And>b x. b \<in># pool_of (mem_pool s) live + mset (live_heap live) \<Longrightarrow> covers x b \<Longrightarrow>
       mem_bytes s' x = mem_bytes s x \<and> x \<in> owned (mem_world s')"
    using other.hyps(2) unfolding undisturbed_def by blast+
  have "layout os owned held (pool_of (mem_pool s) live) (live_heap live) (mem_pages s, mem_world s')"
    by (rule layout_world [OF i(2)]) (use u in blast)+
  moreover have "pool_contents (mem_pool s) live (mem_bytes s')"
    by (rule pool_contents_write [OF i(5)]) (use u(4) in blast)
  ultimately show ?case
    using i(1) u(1,2) by (simp add: buffers_inv_def)
qed

lemma buffer_held:
  assumes "buffers_inv os owned held s live" "(l, bs) \<in> set live"
    and "lb_locked l" "touches (page_size os) (lb_ptr l) (lb_len l) p" "0 < lb_len l"
  shows "held (mem_world s) p"
proof -
  note i = buffers_invD [OF assms(1)]
  have g: "good_buffer (mem_bytes s) l bs" by (rule i(4) [OF assms(2)])
  show ?thesis
  proof (cases "lb_storage l")
    case Heap
    then have "(lb_ptr l, lb_len l, True) \<in> set (live_heap live)"
      using assms(2,3,5) by (force simp: live_heap_def)
    then show ?thesis
      using paging_invD(2) [OF layoutD(5) [OF i(2)] _ TrueI assms(4)] by (simp add: within_def)
  next
    case (Pooled c)
    then have "(lb_ptr l, CLASSES ! unat c, True) \<in># pool_of (mem_pool s) live"
      using assms(2,3) by (force simp: live_pooled_def)
    moreover have "touches (page_size os) (lb_ptr l) (CLASSES ! unat c) p"
      using assms(4) g Pooled by (auto simp: touches_def good_buffer_def)
    ultimately show ?thesis
      using layoutD(4) [OF i(2)] by simp
  qed (use g in \<open>simp add: good_buffer_def\<close>)
qed

lemma free_block_zero:
  assumes "buffers_inv os owned held s live" "c < 8" "(a, lk) \<in> set (mem_pool s ! c)" "i < CLASSES ! c"
  shows "mem_bytes s (a + i) = 0"
proof -
  have "(a, CLASSES ! c, lk) \<in># free_blocks (mem_pool s)"
    unfolding free_blocks_def set_mset_sum [OF finite_lessThan] using assms(2,3) by force
  then show ?thesis
    using buffers_invD(3) [OF assms(1), of _ "a + i"] assms(4) by simp
qed

lemma boxed_total:
  assumes "space_law os hp owned held"
  shows "(\<exists>l s'. boxed os hp bs s = (Inr l, s')) \<or>
    fst (boxed os hp bs s) = Inl Panic \<and> (\<exists>w. fst (hp_alloc hp w (length bs)) = None)"
proof -
  have hl: "heap_law os hp owned held"
    using assms by (simp add: space_law_def)
  obtain ra w where a: "hp_alloc hp (mem_world s) (length bs) = (ra, w)" by (rule prod.exhaust)
  show ?thesis
  proof (cases "bs \<noteq> [] \<and> ra \<noteq> None")
    case True
    then obtain p where p: "ra = Some p" by blast
    have "valid_buffer p (length bs)"
      using heap_lawD(1) [OF hl] a p True by (auto simp: valid_buffer_def)
    from acquire_region_pages [OF this, of os "(mem_pages s, w)"] show ?thesis
      using True a p by (auto simp: boxed_def box_from_def mem_acquire_def Let_def split_beta)
  next
    case False
    then show ?thesis
      using a by (auto simp: boxed_def box_from_def Let_def intro: exI [of _ "mem_world s"])
  qed
qed

lemma from_slice_total:
  assumes "space_law os hp owned held"
  shows "(\<exists>l s'. from_slice os hp bs s = (Inr l, s')) \<or>
    fst (from_slice os hp bs s) = Inl Panic \<and> (\<exists>w. fst (hp_alloc hp w (length bs)) = None)"
proof (cases "pool_alloc os (length bs) s")
  case (Pair r s1)
  show ?thesis
    using boxed_total [OF assms, of bs s1] Pair by (cases r) (auto simp: from_slice_def)
qed

section \<open>Properties\<close>

text \<open>(C14) Buffers of key material, over any sequence of creations and drops and with any other use of memory in
  between: a live buffer reads back the bytes it was made from, wherever it lives; if it says it is locked, every
  page it touches is held; dropping it never fails and leaves zeros behind; every block on a free list is zero;
  and creating a buffer fails only when the allocator is out of memory.\<close>

theorem locked_bytes_hold:
  assumes "space_law os hp owned held" "buffers os hp owned held s live"
  shows "(\<forall>(l, bs)\<in>set live. as_bytes l s = bs \<and>
      (lb_locked l \<longrightarrow> (\<forall>p. touches (page_size os) (lb_ptr l) (lb_len l) p \<longrightarrow> 0 < lb_len l \<longrightarrow> held (mem_world s) p)) \<and>
      (\<exists>s'. locked_bytes_drop os hp l s = (Inr (), s') \<and> as_bytes l s' = replicate (lb_len l) 0)) \<and>
    (\<forall>c < 8. \<forall>(a, lk)\<in>set (mem_pool s ! c). \<forall>i < CLASSES ! c. mem_bytes s (a + i) = 0) \<and>
    (\<forall>bs. (\<exists>l s'. from_slice os hp bs s = (Inr l, s')) \<or>
      fst (from_slice os hp bs s) = Inl Panic \<and> (\<exists>w. fst (hp_alloc hp w (length bs)) = None))"
proof (intro conjI allI)
  have inv: "buffers_inv os owned held s live"
    by (rule buffers_reach_inv [OF assms])
  note i = buffers_invD [OF inv]
  show "\<forall>(l, bs)\<in>set live. as_bytes l s = bs \<and>
      (lb_locked l \<longrightarrow> (\<forall>p. touches (page_size os) (lb_ptr l) (lb_len l) p \<longrightarrow> 0 < lb_len l \<longrightarrow> held (mem_world s) p)) \<and>
      (\<exists>s'. locked_bytes_drop os hp l s = (Inr (), s') \<and> as_bytes l s' = replicate (lb_len l) 0)"
  proof (clarify, intro conjI impI allI)
    fix l bs assume m: "(l, bs) \<in> set live"
    have g: "good_buffer (mem_bytes s) l bs" by (rule i(4) [OF m])
    then show "as_bytes l s = bs"
      by (auto simp: as_bytes_def read_bytes_def good_buffer_def list_eq_iff_nth_eq)
    show "\<exists>s'. locked_bytes_drop os hp l s = (Inr (), s') \<and> as_bytes l s' = replicate (lb_len l) 0"
      using drop_inv [OF assms(1) inv m] by blast
    fix p assume p: "lb_locked l" "touches (page_size os) (lb_ptr l) (lb_len l) p" "0 < lb_len l"
    show "held (mem_world s) p"
      by (rule buffer_held [OF inv m p])
  qed
  show "c < 8 \<longrightarrow> (\<forall>(a, lk)\<in>set (mem_pool s ! c). \<forall>i < CLASSES ! c. mem_bytes s (a + i) = 0)" for c
    using free_block_zero [OF inv] by auto
  show "(\<exists>l s'. from_slice os hp bs s = (Inr l, s')) \<or>
      fst (from_slice os hp bs s) = Inl Panic \<and> (\<exists>w. fst (hp_alloc hp w (length bs)) = None)" for bs
    by (rule from_slice_total [OF assms(1)])
qed

text \<open>An operating system and an allocator for examples: the world is the next address, what is handed
  out, and the locked addresses.\<close>

definition space_take :: "nat \<Rightarrow> nat \<times> nat set \<times> nat set \<Rightarrow> nat \<Rightarrow> nat option \<times> nat \<times> nat set \<times> nat set" where
  "space_take a w n =
     (case w of (next_a, own, lk) \<Rightarrow>
        if a + n \<le> 2 ^ 64 \<and> {a..<a + n} \<inter> own = {} then (Some a, a + n, own \<union> {a..<a + n}, lk) else (None, w))"

definition space_os :: "(nat \<times> nat set \<times> nat set) os" where
  "space_os = \<lparr>os_lock_pages = (\<lambda>(x, own, lk) a n. (True, x, own, lk \<union> {a..<a + n})),
     os_unlock_pages = (\<lambda>(x, own, lk) a n. (x, own, lk - {a..<a + n})),
     os_exclude_from_dumps = (\<lambda>w a n. (True, w)), os_include_in_dumps = (\<lambda>w a n. w),
     os_map_region = (\<lambda>w n. space_take (Suc (fst w div 4096) * 4096) w n), os_unmap_region = (\<lambda>w a n. w),
     os_protect = (\<lambda>w a n p. (True, w)), os_system_page_size = None, os_lock_survives_no_access = True\<rparr>"

definition space_heap :: "(nat \<times> nat set \<times> nat set) heap" where
  "space_heap = \<lparr>hp_alloc = (\<lambda>w n. space_take (fst w) w n), hp_free = (\<lambda>(x, own, lk) a n. (x, own - {a..<a + n}, lk))\<rparr>"

definition space_start :: "(nat \<times> nat set \<times> nat set) memory" where
  "space_start = \<lparr>mem_pool = replicate 8 [], mem_pages = Map.empty, mem_bytes = (\<lambda>x. 255), mem_world = (0, {}, {})\<rparr>"

lemma space_example_law: "space_law space_os space_heap (\<lambda>w. fst (snd w)) (\<lambda>w p. p \<in> snd (snd w))"
proof -
  have ps: "page_size space_os = 4096"
    by (simp add: page_size_def space_os_def FALLBACK_PAGE_SIZE_def)
  have "lock_law space_os (\<lambda>w p. p \<in> snd (snd w))"
    by (auto simp: lock_law_def space_os_def split_beta)
  moreover have "map_law space_os (\<lambda>w. fst (snd w)) (\<lambda>w p. p \<in> snd (snd w))"
    unfolding map_law_def ps by (auto simp: space_os_def space_take_def split: option.splits prod.splits if_splits)
  moreover have "heap_law space_os space_heap (\<lambda>w. fst (snd w)) (\<lambda>w p. p \<in> snd (snd w))"
    unfolding heap_law_def ps by (auto simp: space_heap_def space_take_def split: option.splits prod.splits if_splits)
  moreover have "keeps_owned space_os (\<lambda>w. fst (snd w))"
    by (auto simp: keeps_owned_def space_os_def split_beta)
  ultimately show ?thesis
    by (simp add: space_law_def)
qed

theorem locked_bytes_hold_witness:
  "\<exists>l s. from_slice space_os space_heap [7, 8] space_start = (Inr l, s) \<and> as_bytes l s = [7, 8] \<and>
     (\<exists>s'. locked_bytes_drop space_os space_heap l s = (Inr (), s') \<and> as_bytes l s' = [0, 0])"
proof -
  let ?ow = "\<lambda>w :: nat \<times> nat set \<times> nat set. fst (snd w)" and ?h = "\<lambda>(w :: nat \<times> nat set \<times> nat set) p. p \<in> snd (snd w)"
  have ps: "page_size space_os = 4096"
    by (simp add: page_size_def space_os_def FALLBACK_PAGE_SIZE_def)
  have st: "buffers space_os space_heap ?ow ?h space_start []"
    by (rule buffers.start) (simp add: fresh_memory_def space_start_def)
  have i: "buffers_inv space_os ?ow ?h space_start []"
    by (rule buffers_reach_inv [OF space_example_law st])
  obtain ok s0 where r: "refill space_os 0 space_start = (ok, s0)" by (rule prod.exhaust)
  have "fst (refill space_os 0 space_start)"
    unfolding refill_def grow_def ps
    by (simp add: space_start_def space_os_def space_take_def Let_def CLASSES_def max_def del: upt_rec_numeral)
  then have ok: ok using r by simp
  have "mem_pool s0 ! 0 \<noteq> []"
    by (rule refill_inv(2) [OF space_example_law i _ r ok]) simp
  then obtain b s1 where b: "pool_alloc space_os 2 space_start = (Some b, s1)"
    using r ok by (simp add: pool_alloc_def CLASSES_def Let_def split_beta)
  then obtain l s where c: "from_slice space_os space_heap [7, 8] space_start = (Inr l, s)"
    by (simp add: from_slice_def numeral_2_eq_2)
  have len: "lb_len l = 2"
    using b c by (auto simp: from_slice_def numeral_2_eq_2)
  from locked_bytes_hold [OF space_example_law buffers.create [OF st c]]
  have "as_bytes l s = [7, 8] \<and> (\<exists>s'. locked_bytes_drop space_os space_heap l s = (Inr (), s') \<and>
      as_bytes l s' = replicate (lb_len l) 0)"
    by simp
  with c len show ?thesis
    by (auto simp: numeral_2_eq_2)
qed

end
