(* ===== verification/Scratch.thy ===== *)
theory Scratch
  imports Buffers Vault
begin

text \<open>
  The thread-local scratch buffer of \<^verbatim>\<open>src/src/vault/mod.rs\<close> (\<^verbatim>\<open>Scratch\<close>) on the memory of
  \<open>Buffers\<close>, and the proof that it does what the vault model assumes of it: \<open>ensure_len\<close> of
  theory \<open>Vault\<close> works on the list of bytes, \<open>scratch_ensure_len\<close> here on addresses, pages and the
  allocator.
\<close>

text \<open>\<^verbatim>\<open>Vec::new()\<close>: no allocation.\<close>

definition scratch_new :: locked_bytes where
  "scratch_new = \<lparr>lb_ptr = 1, lb_len = 0, lb_storage = lb_storage.Heap, lb_locked = False\<rparr>"

text \<open>\<^verbatim>\<open>release\<close> wipes the buffer, gives back its pages, and assigning \<^verbatim>\<open>Vec::new()\<close> frees it.\<close>

definition scratch_release :: "'w os \<Rightarrow> 'w heap \<Rightarrow> locked_bytes \<Rightarrow> 'w memory \<Rightarrow> locked_bytes result \<times> 'w memory" where
  "scratch_release os hp v s =
     (case scratch_buf_drop os hp v s of (Inl e, s1) \<Rightarrow> (Inl e, s1) | (Inr u, s1) \<Rightarrow> (Inr scratch_new, s1))"

definition scratch_ensure_len ::
  "'w os \<Rightarrow> 'w heap \<Rightarrow> nat \<Rightarrow> locked_bytes \<Rightarrow> 'w memory \<Rightarrow> locked_bytes result \<times> 'w memory" where
  "scratch_ensure_len os hp len v s =
     (if len \<le> lb_len v then (Inr v, s)
      else case boxed os hp (replicate len 0) s of
             (Inl e, s1) \<Rightarrow> (Inl e, s1)
           | (Inr new_buf, s1) \<Rightarrow>
               (case scratch_release os hp v s1 of
                  (Inl e, s2) \<Rightarrow> (Inl e, s2)
                | (Inr v', s2) \<Rightarrow> (Inr new_buf, s2)))"

text \<open>\<^verbatim>\<open>Drop\<close> for \<^verbatim>\<open>Scratch\<close> is \<^verbatim>\<open>release\<close>.\<close>

lemma zero_bytes_empty [simp]: "zero_bytes a 0 m = m"
  by (rule ext) (auto simp: zero_bytes_def)

lemma scratch_drop_eq: "lb_storage v = lb_storage.Heap \<Longrightarrow> scratch_buf_drop os hp v s = locked_bytes_drop os hp v s"
  using zero_bytes_empty [of "lb_ptr v" "mem_bytes s"] by (simp add: scratch_buf_drop_def locked_bytes_drop_def Let_def)

lemma boxed_shape: "boxed os hp bs s = (Inr l, s') \<Longrightarrow> lb_len l = length bs \<and> lb_storage l = lb_storage.Heap"
  by (auto simp: boxed_def Let_def split: prod.splits sum.splits if_splits)

lemma grow_scratch:
  assumes "space_law os hp owned held" "buffers os hp owned held s live" "(v, buf) \<in> set live" "lb_storage v = lb_storage.Heap"
    and "lb_len v < len" "boxed os hp (replicate len 0) s = (Inr nb, s1)"
  shows "\<exists>s2. scratch_ensure_len os hp len v s = (Inr nb, s2) \<and>
    buffers os hp owned held s2 ((nb, replicate len 0) # remove1 (v, buf) live) \<and> as_bytes v s2 = replicate (lb_len v) 0"
proof -
  have b1: "buffers os hp owned held s1 ((nb, replicate len 0) # live)"
    using buffers.scratch [OF assms(2), of len nb s1] assms(6) by (simp add: scratch_buf_new_def)
  have ne: "(nb, replicate len 0) \<noteq> (v, buf)"
    using boxed_shape [OF assms(6)] assms(5) by auto
  obtain s2 where d: "locked_bytes_drop os hp v s1 = (Inr (), s2)" "as_bytes v s2 = replicate (lb_len v) 0"
    using drop_inv [OF assms(1) buffers_reach_inv [OF assms(1) b1], of v buf] assms(3) by auto
  have "buffers os hp owned held s2 (remove1 (v, buf) ((nb, replicate len 0) # live))"
    using buffers.drop [OF b1 _ d(1)] assms(3) by simp
  then show ?thesis
    using d assms(4-6) ne by (auto simp: scratch_ensure_len_def scratch_release_def scratch_drop_eq)
qed

text \<open>(C23) The scratch buffer in memory refines the one of the vault model: for a live scratch buffer that holds \<open>buf\<close>,
  \<^verbatim>\<open>ensure_len\<close> returns a live buffer that holds what \<open>ensure_len\<close> computes on lists; when it had to grow, the old
  bytes are wiped and the old buffer is gone; it fails only when the allocator is out of memory.\<close>

theorem scratch_refines:
  assumes "space_law os hp owned held" "buffers os hp owned held s live" "(v, buf) \<in> set live" "lb_storage v = lb_storage.Heap"
  shows "(\<exists>v' s' live'. scratch_ensure_len os hp len v s = (Inr v', s') \<and> buffers os hp owned held s' live' \<and>
      mset live' = add_mset (v', ensure_len len buf) (mset live - {#(v, buf)#}) \<and> as_bytes v' s' = ensure_len len buf \<and>
      (v' \<noteq> v \<longrightarrow> as_bytes v s' = replicate (lb_len v) 0)) \<or>
    fst (scratch_ensure_len os hp len v s) = Inl Panic \<and> (\<exists>w. fst (hp_alloc hp w len) = None)"
proof (cases "len \<le> lb_len v")
  case True
  have g: "good_buffer (mem_bytes s) v buf"
    by (rule buffers_invD(4) [OF buffers_reach_inv [OF assms(1,2)] assms(3)])
  then have "as_bytes v s = buf" "ensure_len len buf = buf"
    using True by (auto simp: as_bytes_def read_bytes_def good_buffer_def list_eq_iff_nth_eq ensure_len_def)
  then show ?thesis
    using True assms(2,3) by (intro disjI1 exI [of _ v] exI [of _ s] exI [of _ live]) (simp add: scratch_ensure_len_def)
next
  case False
  have g: "good_buffer (mem_bytes s) v buf"
    by (rule buffers_invD(4) [OF buffers_reach_inv [OF assms(1,2)] assms(3)])
  then have el: "ensure_len len buf = replicate len 0"
    using False by (simp add: ensure_len_def good_buffer_def)
  consider l s1 where "boxed os hp (replicate len 0) s = (Inr l, s1)" |
    "fst (boxed os hp (replicate len 0) s) = Inl Panic" "\<exists>w. fst (hp_alloc hp w len) = None"
    using boxed_total [OF assms(1), of "replicate len 0" s] by auto
  then show ?thesis
  proof cases
    case 1
    obtain s2 where s2: "scratch_ensure_len os hp len v s = (Inr l, s2)"
      "buffers os hp owned held s2 ((l, replicate len 0) # remove1 (v, buf) live)" "as_bytes v s2 = replicate (lb_len v) 0"
      using grow_scratch [OF assms _ 1] False by auto
    have "good_buffer (mem_bytes s2) l (replicate len 0)"
      by (rule buffers_invD(4) [OF buffers_reach_inv [OF assms(1) s2(2)]]) simp
    then have "as_bytes l s2 = replicate len 0"
      by (auto simp: as_bytes_def read_bytes_def good_buffer_def list_eq_iff_nth_eq)
    then show ?thesis
      using s2 el by (intro disjI1 exI [of _ l] exI [of _ s2] exI [of _ "(l, replicate len 0) # remove1 (v, buf) live"]) simp
  next
    case 2
    then show ?thesis
      using False by (intro disjI2) (auto simp: scratch_ensure_len_def split: prod.split)
  qed
qed

theorem scratch_refines_witness:
  "\<exists>v' s' s0. scratch_buf_new space_os space_heap 0 space_start = (Inr scratch_new, s0) \<and>
     scratch_ensure_len space_os space_heap 3 scratch_new s0 = (Inr v', s') \<and> as_bytes v' s' = [0, 0, 0]"
proof -
  let ?ow = "\<lambda>w :: nat \<times> nat set \<times> nat set. fst (snd w)" and ?h = "\<lambda>(w :: nat \<times> nat set \<times> nat set) p. p \<in> snd (snd w)"
  have st: "buffers space_os space_heap ?ow ?h space_start []"
    by (rule buffers.start) (simp add: fresh_memory_def space_start_def)
  have n: "scratch_buf_new space_os space_heap 0 space_start = (Inr scratch_new, space_start)"
    by (simp add: scratch_buf_new_def boxed_def box_from_def scratch_new_def)
  have b: "buffers space_os space_heap ?ow ?h space_start [(scratch_new, [])]"
    using buffers.scratch [OF st n] by simp
  have "valid_buffer 0 3" by (simp add: valid_buffer_def)
  from acquire_region_pages [OF this, of space_os]
  have "fst (boxed space_os space_heap (replicate 3 0) space_start) \<noteq> Inl Panic"
    by (simp add: boxed_def box_from_def space_heap_def space_take_def space_start_def mem_acquire_def split_beta)
  moreover have "lb_len scratch_new = 0" by (simp add: scratch_new_def)
  moreover obtain x s1 where x: "boxed space_os space_heap (replicate 3 0) space_start = (x, s1)" by (rule prod.exhaust)
  ultimately have np: "fst (scratch_ensure_len space_os space_heap 3 scratch_new space_start) \<noteq> Inl Panic"
    using boxed_total [OF space_example_law, of "replicate 3 0" space_start]
      grow_scratch [OF space_example_law b, of scratch_new "[]" 3] by (auto simp: scratch_new_def)
  have "ensure_len 3 [] = [0, 0, 0]"
    by (simp add: ensure_len_def numeral_3_eq_3)
  with scratch_refines [OF space_example_law b, of scratch_new "[]" 3] np n show ?thesis
    by (auto simp: scratch_new_def)
qed

end
