(* ===== verification/Threads.thy ===== *)
theory Threads
  imports Main
begin

text \<open>
  Threads that share a state: every step is one thread's, on the shared state and its own place in its
  program. The locale \<open>thread_invariant\<close> is the contract between a step relation and its invariant; the theories
  of the concurrent parts interpret it.
\<close>

inductive threads_run ::
  "('s \<Rightarrow> bool) \<Rightarrow> 'p \<Rightarrow> (nat \<Rightarrow> 's \<times> 'p \<Rightarrow> 's \<times> 'p \<Rightarrow> bool) \<Rightarrow> 's \<Rightarrow> (nat \<Rightarrow> 'p) \<Rightarrow> bool"
  for start idle step where
  first: "start s \<Longrightarrow> threads_run start idle step s (\<lambda>t. idle)"
| step: "threads_run start idle step s p \<Longrightarrow> step t (s, p t) (s', q) \<Longrightarrow> threads_run start idle step s' (p(t := q))"

text \<open>The steps from one state to another.\<close>

inductive threads_reach ::
  "(nat \<Rightarrow> 's \<times> 'p \<Rightarrow> 's \<times> 'p \<Rightarrow> bool) \<Rightarrow> 's \<Rightarrow> (nat \<Rightarrow> 'p) \<Rightarrow> 's \<Rightarrow> (nat \<Rightarrow> 'p) \<Rightarrow> bool"
  for step where
  here: "threads_reach step s p s p"
| onward: "step t (s, p t) (s1, q) \<Longrightarrow> threads_reach step s1 (p(t := q)) s' p' \<Longrightarrow> threads_reach step s p s' p'"

lemma threads_run_reach:
  "threads_reach step s p s' p' \<Longrightarrow> threads_run start idle step s p \<Longrightarrow> threads_run start idle step s' p'"
  by (induction rule: threads_reach.induct) (auto intro: threads_run.step)

text \<open>Several steps of one thread.\<close>

lemma threads_run_solo:
  assumes "(step t)\<^sup>*\<^sup>* (s, p t) (s', q)" "threads_run start idle step s p"
  shows "threads_run start idle step s' (p(t := q))"
  using assms(1)
proof (induction "(s', q)" arbitrary: s' q rule: rtranclp_induct)
  case base
  then show ?case
    using assms(2) by simp
next
  case (step y)
  then show ?case
    using threads_run.step [of start idle step "fst y" "p(t := snd y)" t s' q] by (cases y) auto
qed

text \<open>Only finitely many threads have started.\<close>

lemma threads_run_finite: "threads_run start idle step s p \<Longrightarrow> finite {t. p t \<noteq> idle}"
proof (induction rule: threads_run.induct)
  case (step s p t s' q)
  have "{u. (p(t := q)) u \<noteq> idle} \<subseteq> insert t {u. p u \<noteq> idle}"
    by auto
  then show ?case
    using step.IH by (meson finite.insertI finite_subset)
qed simp

text \<open>
  An invariant of the shared state, and one that ties each thread's place to it. The interference clause is what
  a step of one thread keeps of the others.
\<close>

locale thread_invariant =
  fixes start :: "'s \<Rightarrow> bool" and idle :: 'p and step :: "nat \<Rightarrow> 's \<times> 'p \<Rightarrow> 's \<times> 'p \<Rightarrow> bool"
    and inv :: "'s \<Rightarrow> bool" and ok :: "'s \<Rightarrow> nat \<Rightarrow> 'p \<Rightarrow> bool"
  assumes start_inv: "start s \<Longrightarrow> inv s"
    and idle_ok: "start s \<Longrightarrow> ok s t idle"
    and step_inv: "inv s \<Longrightarrow> ok s t p \<Longrightarrow> step t (s, p) (s', q) \<Longrightarrow> inv s' \<and> ok s' t q"
    and interference: "inv s \<Longrightarrow> ok s t p \<Longrightarrow> ok s u r \<Longrightarrow> u \<noteq> t \<Longrightarrow> step t (s, p) (s', q) \<Longrightarrow> ok s' u r"
begin

lemma run_inv:
  assumes "threads_run start idle step s p"
  shows "inv s \<and> (\<forall>t. ok s t (p t))"
  using assms
proof induction
  case (first s)
  then show ?case
    by (simp add: start_inv idle_ok)
next
  case (step s p t s' q)
  have "ok s' u ((p(t := q)) u)" for u
    using step.IH step_inv [OF _ _ step.hyps(2)] interference [OF _ _ _ _ step.hyps(2), of u "p u"]
    by (cases "u = t") auto
  then show ?case
    using step.IH step_inv [OF _ _ step.hyps(2)] by blast
qed

end

end
