(* ===== verification/Concurrency.thy ===== *)
theory Concurrency
  imports Refinement Threads
begin

text \<open>
  Threads that share one vault (\<^verbatim>\<open>src/src/vault/mod.rs\<close>). The first part interleaves the steps of
  \<^verbatim>\<open>register\<close>, \<^verbatim>\<open>rotate\<close>, \<^verbatim>\<open>unregister\<close> and the lookup of \<^verbatim>\<open>with_key\<close> on the registry: the early check on a
  snapshot, the work outside the lock, taking the writer lock, loading the map, swapping in the
  new one, releasing. The second part interleaves the steps of the per-key lockout on its map
  and its atomic counter. Every load, swap and atomic operation is one step; the steps of
  different threads may come in any order.
\<close>

section \<open>The registry\<close>

text \<open>
  What an operation does once it has the lock, on the map it loaded: the outcome, and the map to
  swap in, if any. \<open>CheckName\<close> and \<open>Abort\<close> are calls that end before they take the lock, \<open>Lookup\<close> is
  the read of \<^verbatim>\<open>with_key\<close>.
\<close>

datatype reg_op =
    Install key_id key_entry
  | Replace key_id storage key_metadata
  | Remove key_id
  | CheckName string
  | CheckId key_id
  | Lookup key_id
  | Abort fault

datatype outcome = Handle key_handle | Done | Entry key_entry | Failed fault

type_synonym reg_map = "(key_id \<times> key_entry) list"

fun under_lock :: "reg_op \<Rightarrow> reg_map \<Rightarrow> outcome \<times> reg_map option" where
  "under_lock (Install i e) current =
     (if kv_has_name (ke_name e) current then (Failed (duplicate (ke_name e)), None)
      else (Handle (handle_from_id i), Some (kv_insert i e current)))"
| "under_lock (Replace i st md) current =
     (case kv_get i current of
        None \<Rightarrow> (Failed (Err KeyNotFound), None)
      | Some e \<Rightarrow> (Done, Some (kv_insert i (e\<lparr>ke_fragments := st, ke_metadata := md\<rparr>) current)))"
| "under_lock (Remove i) current =
     (case kv_get i current of
        None \<Rightarrow> (Failed (Err KeyNotFound), None)
      | Some e \<Rightarrow> (Done, Some (kv_remove i current)))"
| "under_lock (CheckName n) current = (if kv_has_name n current then Failed (duplicate n) else Done, None)"
| "under_lock (CheckId i) current = (if kv_get i current = None then Failed (Err KeyNotFound) else Done, None)"
| "under_lock (Lookup i) current =
     (case kv_get i current of None \<Rightarrow> Failed (Err KeyNotFound) | Some e \<Rightarrow> Entry e, None)"
| "under_lock (Abort f) current = (Failed f, None)"

text \<open>Where a thread is in its call.\<close>

datatype pc =
    Idle
  | RegisterChecked string
  | RotateChecked key_id
  | Ready reg_op
  | Holding reg_op
  | Loaded reg_op reg_map
  | Releasing outcome
  | Finished outcome

text \<open>The shared state: the map behind \<^verbatim>\<open>ArcSwap\<close>, the owner of the writer lock, the id counter; and, as a
  ghost, the operations in the order in which they took effect.\<close>

record shared =
  sh_keys :: reg_map
  sh_writer :: "nat option"
  sh_ids :: u64
  sh_log :: "(nat \<times> reg_op \<times> outcome) list"

definition logged :: "nat \<Rightarrow> reg_op \<Rightarrow> outcome \<Rightarrow> shared \<Rightarrow> shared" where
  "logged t op out s = s\<lparr>sh_log := sh_log s @ [(t, op, out)]\<rparr>"

text \<open>The steps of a thread \<open>t\<close>. Fragmentation, the clock and the lockouts are any value here: a call that
  fails in one of them aborts.\<close>

inductive reg_step :: "nat \<Rightarrow> shared \<times> pc \<Rightarrow> shared \<times> pc \<Rightarrow> bool" for t where
  register_duplicate: "kv_has_name n (sh_keys s) \<Longrightarrow>
    reg_step t (s, Idle) (logged t (CheckName n) (Failed (duplicate n)) s, Finished (Failed (duplicate n)))"
| register_fresh: "\<not> kv_has_name n (sh_keys s) \<Longrightarrow> reg_step t (s, Idle) (s, RegisterChecked n)"
| register_prepared: "handle_allocate (sh_ids s) = (h, c) \<Longrightarrow>
    reg_step t (s, RegisterChecked n)
      (s\<lparr>sh_ids := c\<rparr>, Ready (Install (handle_id h) \<lparr>ke_name = n, ke_fragments = st, ke_metadata = md\<rparr>))"
| rotate_missing: "kv_get i (sh_keys s) = None \<Longrightarrow>
    reg_step t (s, Idle) (logged t (CheckId i) (Failed (Err KeyNotFound)) s, Finished (Failed (Err KeyNotFound)))"
| rotate_found: "kv_get i (sh_keys s) \<noteq> None \<Longrightarrow> reg_step t (s, Idle) (s, RotateChecked i)"
| rotate_prepared: "reg_step t (s, RotateChecked i) (s, Ready (Replace i st md))"
| unregister_call: "reg_step t (s, Idle) (s, Ready (Remove i))"
| lookup: "under_lock (Lookup i) (sh_keys s) = (out, None) \<Longrightarrow>
    reg_step t (s, Idle) (logged t (Lookup i) out s, Finished out)"
| abort: "p \<in> {Idle} \<union> range RegisterChecked \<union> range RotateChecked \<Longrightarrow>
    reg_step t (s, p) (logged t (Abort f) (Failed f) s, Finished (Failed f))"
| acquire: "sh_writer s = None \<Longrightarrow> reg_step t (s, Ready op) (s\<lparr>sh_writer := Some t\<rparr>, Holding op)"
| load: "reg_step t (s, Holding op) (s, Loaded op (sh_keys s))"
| swap: "under_lock op current = (out, Some new_map) \<Longrightarrow>
    reg_step t (s, Loaded op current) (logged t op out (s\<lparr>sh_keys := new_map\<rparr>), Releasing out)"
| refuse: "under_lock op current = (out, None) \<Longrightarrow>
    reg_step t (s, Loaded op current) (logged t op out s, Releasing out)"
| release: "reg_step t (s, Releasing out) (s\<lparr>sh_writer := None\<rparr>, Finished out)"
| return: "reg_step t (s, Finished out) (s, Idle)"

definition reg_start :: "shared \<Rightarrow> bool" where
  "reg_start s \<longleftrightarrow> sh_keys s = [] \<and> sh_writer s = None \<and> sh_log s = []"

text \<open>The sequential meaning: run the operations one after the other, and what each returns.\<close>

definition seq_op :: "reg_op \<Rightarrow> reg_map \<Rightarrow> outcome \<times> reg_map" where
  "seq_op op m = (case under_lock op m of (out, r) \<Rightarrow> (out, case r of Some m' \<Rightarrow> m' | None \<Rightarrow> m))"

fun replay :: "(nat \<times> reg_op \<times> outcome) list \<Rightarrow> reg_map \<Rightarrow> reg_map" where
  "replay [] m = m"
| "replay ((t, op, out) # ops) m = replay ops (snd (seq_op op m))"

fun legal :: "(nat \<times> reg_op \<times> outcome) list \<Rightarrow> reg_map \<Rightarrow> bool" where
  "legal [] m \<longleftrightarrow> True"
| "legal ((t, op, out) # ops) m \<longleftrightarrow> out = fst (seq_op op m) \<and> legal ops (snd (seq_op op m))"

lemma replay_append: "replay (xs @ ys) m = replay ys (replay xs m)"
  by (induction xs arbitrary: m) auto

lemma legal_append: "legal (xs @ ys) m \<longleftrightarrow> legal xs m \<and> legal ys (replay xs m)"
  by (induction xs arbitrary: m) auto

text \<open>The last thing a thread did that took effect.\<close>

definition last_of :: "nat \<Rightarrow> (nat \<times> reg_op \<times> outcome) list \<Rightarrow> outcome option" where
  "last_of t ops = (case filter (\<lambda>(u, op, out). u = t) (rev ops) of [] \<Rightarrow> None | (u, op, out) # r \<Rightarrow> Some out)"

lemma last_of_snoc [simp]: "last_of t (ops @ [(u, op, out)]) = (if u = t then Some out else last_of t ops)"
  by (simp add: last_of_def)

section \<open>The invariant\<close>

primrec critical :: "pc \<Rightarrow> bool" where
  "critical Idle = False"
| "critical (RegisterChecked n) = False"
| "critical (RotateChecked i) = False"
| "critical (Ready op) = False"
| "critical (Holding op) = True"
| "critical (Loaded op m) = True"
| "critical (Releasing out) = True"
| "critical (Finished out) = False"

primrec pc_ok :: "pc \<Rightarrow> nat \<Rightarrow> shared \<Rightarrow> bool" where
  "pc_ok Idle t s = True"
| "pc_ok (RegisterChecked n) t s = True"
| "pc_ok (RotateChecked i) t s = True"
| "pc_ok (Ready op) t s = True"
| "pc_ok (Holding op) t s = True"
| "pc_ok (Loaded op m) t s = (m = sh_keys s)"
| "pc_ok (Releasing out) t s = (last_of t (sh_log s) = Some out)"
| "pc_ok (Finished out) t s = (last_of t (sh_log s) = Some out)"

definition reg_inv :: "shared \<Rightarrow> bool" where
  "reg_inv s \<longleftrightarrow> sh_keys s = replay (sh_log s) [] \<and> legal (sh_log s) [] \<and> names_inv (sh_keys s)"

definition reg_ok :: "shared \<Rightarrow> nat \<Rightarrow> pc \<Rightarrow> bool" where
  "reg_ok s t p \<longleftrightarrow> (critical p \<longleftrightarrow> sh_writer s = Some t) \<and> pc_ok p t s"

lemma pc_ok_frame:
  assumes "pc_ok q u s" "sh_keys s' = sh_keys s \<or> \<not> critical q" "last_of u (sh_log s') = last_of u (sh_log s)"
  shows "pc_ok q u s'"
  using assms by (cases q) auto

lemma names_inv_replace:
  assumes "names_inv m" "kv_get i m = Some e" "ke_name e' = ke_name e"
  shows "names_inv (kv_insert i e' m)"
proof (rule names_inv_insert [OF assms(1)], clarify)
  fix j f assume f: "(j, f) \<in> set m" "j \<noteq> i" "ke_name f = ke_name e'"
  have "(i, e) \<in> set m"
    using kv_get_in [OF assms(1)] assms(2) by blast
  moreover have "inj_on (\<lambda>(i, e). ke_name e) (set m)"
    using assms(1) by (simp add: names_inv_def distinct_map)
  ultimately have "(j, f) = (i, e)"
    using f(1,3) assms(3) by (elim inj_onD) simp_all
  with f(2) show False by simp
qed

lemma names_inv_seq_op: "names_inv m \<Longrightarrow> names_inv (snd (seq_op op m))"
proof (cases op)
  case (Install i e)
  assume m: "names_inv m"
  show ?thesis
  proof (cases "kv_has_name (ke_name e) m")
    case False
    then show ?thesis
      using m Install names_inv_insert [OF m, of i e]
      by (auto simp: seq_op_def kv_has_name_def)
  qed (use m Install in \<open>simp add: seq_op_def\<close>)
next
  case (Replace i st md)
  assume m: "names_inv m"
  show ?thesis
    using m Replace names_inv_replace [OF m] by (auto simp: seq_op_def split: option.split)
next
  case (Remove i)
  assume "names_inv m"
  then show ?thesis
    using Remove names_inv_remove by (auto simp: seq_op_def split: option.split)
qed (auto simp: seq_op_def split: option.splits)

text \<open>A step that logs an operation on the current map keeps the invariant.\<close>

lemma log_inv:
  assumes "reg_inv s" "seq_op op (sh_keys s) = (out, m)"
  shows "reg_inv (logged t op out (s\<lparr>sh_keys := m\<rparr>))"
proof -
  have i: "sh_keys s = replay (sh_log s) []" "legal (sh_log s) []" "names_inv (sh_keys s)"
    using assms(1) unfolding reg_inv_def by blast+
  have "names_inv m"
    using names_inv_seq_op [OF i(3), of op] assms(2) by simp
  then show ?thesis
    using assms(2) i(2) unfolding i(1) by (simp add: reg_inv_def logged_def replay_append legal_append)
qed

lemma log_inv_same:
  "reg_inv s \<Longrightarrow> seq_op op (sh_keys s) = (out, sh_keys s) \<Longrightarrow> reg_inv (logged t op out s)"
  using log_inv [of s op out "sh_keys s" t] by simp

inductive_cases reg_stepE: "reg_step t (s, p) (s', q)"

lemma reg_step_inv:
  assumes "reg_inv s" "reg_ok s t p" "reg_step t (s, p) (s', q)"
  shows "reg_inv s' \<and> reg_ok s' t q"
  using assms(3)
proof cases
  case (swap op current out new_map)
  have "current = sh_keys s"
    using assms(2) swap by (simp add: reg_ok_def)
  then show ?thesis
    using log_inv [OF assms(1), of op out new_map t] assms(2) swap by (simp add: seq_op_def reg_ok_def logged_def)
next
  case (refuse op current out)
  have "current = sh_keys s"
    using assms(2) refuse by (simp add: reg_ok_def)
  then show ?thesis
    using log_inv_same [OF assms(1), of op out t] assms(2) refuse by (simp add: seq_op_def reg_ok_def logged_def)
next
  case (lookup i out)
  then show ?thesis
    using log_inv_same [OF assms(1), of "Lookup i" out t] assms(2) by (simp add: seq_op_def reg_ok_def logged_def)
next
  case (abort f)
  then show ?thesis
    using log_inv_same [OF assms(1), of "Abort f" "Failed f" t] assms(2) by (auto simp: seq_op_def reg_ok_def logged_def)
next
  case (register_duplicate n)
  then show ?thesis
    using log_inv_same [OF assms(1), of "CheckName n" _ t] assms(2) by (simp add: seq_op_def reg_ok_def logged_def)
next
  case (rotate_missing i)
  then show ?thesis
    using log_inv_same [OF assms(1), of "CheckId i" _ t] assms(2) by (simp add: seq_op_def reg_ok_def logged_def)
qed (use assms(1,2) in \<open>auto simp: reg_inv_def reg_ok_def\<close>)

text \<open>Another thread's place: the map changes only under the lock, and the log only at the stepping thread.\<close>

lemma reg_step_others:
  assumes "reg_ok s t p" "reg_ok s u r" "u \<noteq> t" "reg_step t (s, p) (s', q)"
  shows "reg_ok s' u r"
proof -
  have "(critical r \<longleftrightarrow> sh_writer s' = Some u) \<and> (sh_keys s' = sh_keys s \<or> \<not> critical r) \<and>
      last_of u (sh_log s') = last_of u (sh_log s)"
    using assms(4,1-3) by (elim reg_stepE) (auto simp: reg_ok_def logged_def)
  then show ?thesis
    using assms(2) pc_ok_frame [of r u s s'] unfolding reg_ok_def by blast
qed

interpretation registry: thread_invariant reg_start Idle reg_step reg_inv reg_ok
proof
  show "reg_inv s" if "reg_start s" for s
    using that by (simp add: reg_start_def reg_inv_def names_inv_def)
  show "reg_ok s t Idle" if "reg_start s" for s t
    using that by (simp add: reg_start_def reg_ok_def)
  show "reg_inv s' \<and> reg_ok s' t q" if "reg_inv s" "reg_ok s t p" "reg_step t (s, p) (s', q)" for s t p s' q
    using that by (rule reg_step_inv)
  show "reg_ok s' u r" if "reg_inv s" "reg_ok s t p" "reg_ok s u r" "u \<noteq> t" "reg_step t (s, p) (s', q)" for s t p s' q u r
    using that(2-) by (rule reg_step_others)
qed

text \<open>The operations under the lock are those of the sequential model.\<close>

lemma install_sequential:
  "keys (snd (register_install E v n st h md s)) =
     snd (seq_op (Install (handle_id h) \<lparr>ke_name = n, ke_fragments = st, ke_metadata = md\<rparr>) (keys s))"
  "keys (snd (rotate_install E v h st md s)) = snd (seq_op (Replace (handle_id h) st md) (keys s))"
  "keys (snd (unregister E v h s)) = snd (seq_op (Remove (handle_id h)) (keys s))"
  by (simp_all add: register_install_def rotate_install_def unregister_def seq_op_def Let_def split: option.split)

section \<open>The lock counter\<close>

text \<open>
  The per-key locks: \<^verbatim>\<open>key_locks\<close> behind its mutex and the atomic \<^verbatim>\<open>key_locks_active\<close>. Everything under
  the mutex is one step. \<^verbatim>\<open>clear_key_lockout\<close> subtracts after it has released the mutex, so it is two;
  \<open>lk_pending\<close> counts the threads between the two.
\<close>

record lock_state =
  lk_map :: "string \<rightharpoonup> duration option"
  lk_count :: u64
  lk_pending :: nat

definition lock_insert :: "string \<Rightarrow> duration option \<Rightarrow> lock_state \<Rightarrow> lock_state" where
  "lock_insert n until s =
     s\<lparr>lk_map := (lk_map s)(n \<mapsto> until), lk_count := (if lk_map s n = None then lk_count s + 1 else lk_count s)\<rparr>"

definition lock_expire :: "string \<Rightarrow> lock_state \<Rightarrow> lock_state" where
  "lock_expire n s = s\<lparr>lk_map := (lk_map s)(n := None), lk_count := lk_count s - 1\<rparr>"

definition clear_key_remove :: "string \<Rightarrow> lock_state \<Rightarrow> lock_state" where
  "clear_key_remove n s =
     s\<lparr>lk_map := (lk_map s)(n := None), lk_pending := (if lk_map s n = None then lk_pending s else Suc (lk_pending s))\<rparr>"

definition clear_key_subtract :: "lock_state \<Rightarrow> lock_state" where
  "clear_key_subtract s = s\<lparr>lk_count := lk_count s - 1, lk_pending := lk_pending s - 1\<rparr>"

definition clear_all :: "lock_state \<Rightarrow> lock_state" where
  "clear_all s = s\<lparr>lk_map := Map.empty, lk_count := 0\<rparr>"

text \<open>
  The flag says when \<^verbatim>\<open>clear_lockout\<close> may run: at any time, or only while no call of
  \<^verbatim>\<open>clear_key_lockout\<close> is between its two steps.
\<close>

inductive lock_run :: "bool \<Rightarrow> lock_state \<Rightarrow> bool" for anytime where
  start: "lock_run anytime \<lparr>lk_map = Map.empty, lk_count = 0, lk_pending = 0\<rparr>"
| insert: "lock_run anytime s \<Longrightarrow> lock_run anytime (lock_insert n until s)"
| expire: "lock_run anytime s \<Longrightarrow> lk_map s n = Some (Some until) \<Longrightarrow> lock_run anytime (lock_expire n s)"
| remove: "lock_run anytime s \<Longrightarrow> lock_run anytime (clear_key_remove n s)"
| subtract: "lock_run anytime s \<Longrightarrow> 0 < lk_pending s \<Longrightarrow> lock_run anytime (clear_key_subtract s)"
| clear: "lock_run anytime s \<Longrightarrow> anytime \<or> lk_pending s = 0 \<Longrightarrow> lock_run anytime (clear_all s)"

lemma lock_run_counts:
  assumes "lock_run False s"
  shows "finite (dom (lk_map s)) \<and> lk_count s = word_of_nat (card (dom (lk_map s)) + lk_pending s)"
  using assms
proof (induction rule: lock_run.induct)
  case (insert s n until)
  have d: "dom (lk_map (lock_insert n until s)) = insert n (dom (lk_map s))"
    by (auto simp: lock_insert_def)
  have "n \<in> dom (lk_map s) \<longleftrightarrow> lk_map s n \<noteq> None" by (simp add: domIff)
  with insert.IH show ?case
    unfolding d by (simp add: lock_insert_def card_insert_if)
next
  case (expire s n until)
  have d: "dom (lk_map (lock_expire n s)) = dom (lk_map s) - {n}"
    by (auto simp: lock_expire_def split: if_splits)
  have "n \<in> dom (lk_map s)" using expire.hyps by auto
  with expire.IH have "card (dom (lk_map s)) = Suc (card (dom (lk_map s) - {n}))"
    by (metis card_Suc_Diff1)
  then show ?case
    unfolding d using expire.IH by (simp add: lock_expire_def)
next
  case (remove s n)
  have d: "dom (lk_map (clear_key_remove n s)) = dom (lk_map s) - {n}"
    by (auto simp: clear_key_remove_def split: if_splits)
  show ?case
  proof (cases "lk_map s n")
    case None
    then have "dom (lk_map s) - {n} = dom (lk_map s)" by auto
    then show ?thesis
      unfolding d using remove.IH None by (simp add: clear_key_remove_def)
  next
    case (Some u)
    then have "n \<in> dom (lk_map s)" by auto
    with remove.IH have "card (dom (lk_map s)) = Suc (card (dom (lk_map s) - {n}))"
      by (metis card_Suc_Diff1)
    then show ?thesis
      unfolding d using remove.IH Some by (simp add: clear_key_remove_def)
  qed
next
  case (subtract s)
  then obtain k where "lk_pending s = Suc k" by (cases "lk_pending s") auto
  with subtract.IH show ?case
    by (simp add: clear_key_subtract_def)
next
  case (clear s)
  then show ?case
    by (simp add: clear_all_def)
qed simp_all

section \<open>Properties\<close>

text \<open>(C12) The registry is linearizable: in every interleaving of any number of threads that register, rotate, unregister
  and look up keys, the shared map is the result of running the operations one after the other in the order in
  which they took effect; every outcome, also of the calls that fail, is the one that order gives, and a call
  that has returned returned it; no update is lost, no two live keys share a name or an id; at most one thread is
  in the critical section; and what an operation does there is what the sequential model of it does.\<close>

theorem registry_linearizable:
  assumes "threads_run reg_start Idle reg_step s p"
  shows "sh_keys s = replay (sh_log s) [] \<and> legal (sh_log s) [] \<and>
    (\<forall>t out. p t = Finished out \<longrightarrow> last_of t (sh_log s) = Some out) \<and>
    distinct (map fst (sh_keys s)) \<and> distinct (map (\<lambda>(i, e). ke_name e) (sh_keys s)) \<and>
    (\<forall>t u. critical (p t) \<longrightarrow> critical (p u) \<longrightarrow> t = u) \<and>
    (\<forall>E v n st h md r. keys (snd (register_install E v n st h md r)) =
        snd (seq_op (Install (handle_id h) \<lparr>ke_name = n, ke_fragments = st, ke_metadata = md\<rparr>) (keys r)) \<and>
      keys (snd (rotate_install E v h st md r)) = snd (seq_op (Replace (handle_id h) st md) (keys r)) \<and>
      keys (snd (unregister E v h r)) = snd (seq_op (Remove (handle_id h)) (keys r)))"
proof -
  have i: "reg_inv s" and ok: "reg_ok s t (p t)" for t
    using registry.run_inv [OF assms] by blast+
  have "last_of t (sh_log s) = Some out" if "p t = Finished out" for t out
    using ok [of t] that by (simp add: reg_ok_def)
  moreover have "t = u" if "critical (p t)" "critical (p u)" for t u
    using ok [of t] ok [of u] that by (simp add: reg_ok_def)
  ultimately show ?thesis
    using i install_sequential unfolding reg_inv_def names_inv_def by (intro conjI allI impI) blast+
qed

text \<open>Two threads register the same name; both pass the early check, one of them is refused.\<close>

definition both :: "shared \<Rightarrow> pc \<Rightarrow> pc \<Rightarrow> bool" where
  "both s x y \<longleftrightarrow> (\<exists>p. threads_run reg_start Idle reg_step s p \<and> p 0 = x \<and> p 1 = y)"

lemma both_step:
  "both s x y \<Longrightarrow> reg_step 0 (s, x) (s', q) \<Longrightarrow> both s' q y"
  "both s x y \<Longrightarrow> reg_step 1 (s, y) (s', q) \<Longrightarrow> both s' x q"
  unfolding both_def by (metis fun_upd_apply threads_run.step zero_neq_one)+

theorem registry_linearizable_witness:
  "\<exists>s p. threads_run reg_start Idle reg_step s p \<and> p 0 = Finished (Handle \<lparr>handle_id = 1\<rparr>) \<and> p 1 = Finished (Failed (duplicate ''k'')) \<and>
     map fst (sh_keys s) = [1] \<and> last_of 1 (sh_log s) = Some (Failed (duplicate ''k''))"
proof -
  fix st md
  let ?e = "\<lparr>ke_name = ''k'', ke_fragments = st, ke_metadata = md\<rparr>"
  let ?s0 = "\<lparr>sh_keys = [], sh_writer = None, sh_ids = 1, sh_log = []\<rparr>"
  have fresh: "\<not> kv_has_name ''k'' (sh_keys ?s0)" by (simp add: kv_has_name_def)
  have a: "handle_allocate 1 = (\<lparr>handle_id = 1\<rparr>, 2)" "handle_allocate 2 = (\<lparr>handle_id = 2\<rparr>, 3)"
    by (simp_all add: handle_allocate_def key_id_next_def next_raw_def)
  have i1: "under_lock (Install 1 ?e) [] = (Handle \<lparr>handle_id = 1\<rparr>, Some [(1, ?e)])"
    by (simp add: kv_has_name_def kv_insert_def kv_remove_def handle_from_id_def)
  have i2: "under_lock (Install 2 ?e) [(1, ?e)] = (Failed (duplicate ''k''), None)"
    by (simp add: kv_has_name_def)
  have "both ?s0 Idle Idle"
    unfolding both_def by (intro exI conjI, rule threads_run.first) (simp_all add: reg_start_def)
  then have "both ?s0 (RegisterChecked ''k'') Idle"
    by (rule both_step(1)) (rule reg_step.register_fresh [OF fresh])
  then have "both ?s0 (RegisterChecked ''k'') (RegisterChecked ''k'')"
    by (rule both_step(2)) (rule reg_step.register_fresh [OF fresh])
  then have "both (?s0\<lparr>sh_ids := 2\<rparr>) (Ready (Install 1 ?e)) (RegisterChecked ''k'')"
    by (rule both_step(1)) (use reg_step.register_prepared [of ?s0 _ _ 0] a(1) in force)
  then have "both (?s0\<lparr>sh_ids := 3\<rparr>) (Ready (Install 1 ?e)) (Ready (Install 2 ?e))"
    by (rule both_step(2)) (use reg_step.register_prepared [of "?s0\<lparr>sh_ids := 2\<rparr>" _ _ 1] a(2) in force)
  then have "both (?s0\<lparr>sh_ids := 3, sh_writer := Some 0\<rparr>) (Holding (Install 1 ?e)) (Ready (Install 2 ?e))"
    by (rule both_step(1)) (rule reg_step.acquire, simp)
  then have "both (?s0\<lparr>sh_ids := 3, sh_writer := Some 0\<rparr>) (Loaded (Install 1 ?e) []) (Ready (Install 2 ?e))"
    by (rule both_step(1)) (use reg_step.load [of 0 "?s0\<lparr>sh_ids := 3, sh_writer := Some 0\<rparr>"] in simp)
  then have "both (logged 0 (Install 1 ?e) (Handle \<lparr>handle_id = 1\<rparr>) (?s0\<lparr>sh_ids := 3, sh_writer := Some 0, sh_keys := [(1, ?e)]\<rparr>))
      (Releasing (Handle \<lparr>handle_id = 1\<rparr>)) (Ready (Install 2 ?e))"
    by (rule both_step(1)) (use reg_step.swap [OF i1, of 0 "?s0\<lparr>sh_ids := 3, sh_writer := Some 0\<rparr>"] in simp)
  moreover define s1 where
    "s1 = logged 0 (Install 1 ?e) (Handle \<lparr>handle_id = 1\<rparr>) (?s0\<lparr>sh_ids := 3, sh_writer := None, sh_keys := [(1, ?e)]\<rparr>)"
  ultimately have "both s1 (Finished (Handle \<lparr>handle_id = 1\<rparr>)) (Ready (Install 2 ?e))"
    using both_step(1) [OF _ reg_step.release] by (fastforce simp: logged_def)
  then have "both (s1\<lparr>sh_writer := Some 1\<rparr>) (Finished (Handle \<lparr>handle_id = 1\<rparr>)) (Holding (Install 2 ?e))"
    by (rule both_step(2)) (rule reg_step.acquire, simp add: s1_def logged_def)
  then have "both (s1\<lparr>sh_writer := Some 1\<rparr>) (Finished (Handle \<lparr>handle_id = 1\<rparr>)) (Loaded (Install 2 ?e) [(1, ?e)])"
    by (rule both_step(2)) (use reg_step.load [of 1 "s1\<lparr>sh_writer := Some 1\<rparr>"] in \<open>simp add: s1_def logged_def\<close>)
  then have "both (logged 1 (Install 2 ?e) (Failed (duplicate ''k'')) (s1\<lparr>sh_writer := Some 1\<rparr>))
      (Finished (Handle \<lparr>handle_id = 1\<rparr>)) (Releasing (Failed (duplicate ''k'')))"
    by (rule both_step(2)) (rule reg_step.refuse [OF i2])
  then have "both (logged 1 (Install 2 ?e) (Failed (duplicate ''k'')) (s1\<lparr>sh_writer := Some 1\<rparr>)\<lparr>sh_writer := None\<rparr>)
      (Finished (Handle \<lparr>handle_id = 1\<rparr>)) (Finished (Failed (duplicate ''k'')))" (is "both ?s2 _ _")
    by (rule both_step(2)) (rule reg_step.release)
  then obtain p where s: "threads_run reg_start Idle reg_step ?s2 p" "p 0 = Finished (Handle \<lparr>handle_id = 1\<rparr>)"
      "p 1 = Finished (Failed (duplicate ''k''))"
    unfolding both_def by blast
  have k: "map fst (sh_keys ?s2) = [1]"
    by (simp add: s1_def logged_def)
  have l: "last_of 1 (sh_log ?s2) = Some (Failed (duplicate ''k''))"
    using registry_linearizable [OF s(1), THEN conjunct2, THEN conjunct2, THEN conjunct1] s(3) by blast
  show ?thesis
    by (intro exI conjI) (rule s k l)+
qed

text \<open>(C13) The lock counter under concurrency. In every interleaving of threads that lock keys, let locks expire,
  call \<^verbatim>\<open>clear_key_lockout\<close> and call \<^verbatim>\<open>clear_lockout\<close>, as long as no \<^verbatim>\<open>clear_lockout\<close> falls between the removal
  and the subtraction of a \<^verbatim>\<open>clear_key_lockout\<close>, the counter is the number of locks and of pending subtractions,
  so the fast path of \<^verbatim>\<open>key_locked\<close> misses no lock (below \<open>2 ^ 64\<close> of them) and finds none once all are gone.
  But \<^verbatim>\<open>clear_key_lockout\<close> subtracts after it has left the mutex, and a \<^verbatim>\<open>clear_lockout\<close> in between stores zero: the
  counter then wraps, and the next lock brings it to zero. With every call finished, a key is locked and
  \<^verbatim>\<open>key_locked\<close> says it is not.\<close>

theorem lock_counter_race:
  "(\<forall>s. lock_run False s \<longrightarrow> finite (dom (lk_map s)) \<and> lk_count s = word_of_nat (card (dom (lk_map s)) + lk_pending s) \<and>
     (card (dom (lk_map s)) + lk_pending s < 2 ^ 64 \<longrightarrow>
        (lk_count s = 0 \<longleftrightarrow> lk_map s = Map.empty \<and> lk_pending s = 0))) \<and>
   (\<exists>s n. lock_run True s \<and> lk_pending s = 0 \<and> lk_map s n = Some None \<and>
     (\<forall>E t. key_locks t = lk_map s \<longrightarrow> key_locks_active t = lk_count s \<longrightarrow>
       \<not> fst (key_locked E n t) \<and> fst (key_locked_slow E n t)))"
proof (intro conjI allI impI)
  fix s assume r: "lock_run False s"
  show fin: "finite (dom (lk_map s))" and c: "lk_count s = word_of_nat (card (dom (lk_map s)) + lk_pending s)"
    using lock_run_counts [OF r] by blast+
  assume "card (dom (lk_map s)) + lk_pending s < 2 ^ 64"
  then have "unat (lk_count s) = card (dom (lk_map s)) + lk_pending s"
    using c by (simp add: unsigned_of_nat take_bit_nat_eq_self del: of_nat_add)
  then have "lk_count s = 0 \<longleftrightarrow> card (dom (lk_map s)) = 0 \<and> lk_pending s = 0"
    by (metis add_is_0 unat_eq_zero)
  then show "lk_count s = 0 \<longleftrightarrow> lk_map s = Map.empty \<and> lk_pending s = 0"
    using fin by simp
next
  let ?a = "lock_insert ''a'' None \<lparr>lk_map = Map.empty, lk_count = 0, lk_pending = 0\<rparr>"
  let ?s = "lock_insert ''b'' None (clear_key_subtract (clear_all (clear_key_remove ''a'' ?a)))"
  have "lock_run True ?s"
    by (intro lock_run.intros) (simp_all add: lock_insert_def clear_key_remove_def clear_all_def)
  moreover have "lk_pending ?s = 0" "lk_map ?s ''b'' = Some None" "lk_count ?s = 0"
    by (simp_all add: lock_insert_def clear_key_remove_def clear_all_def clear_key_subtract_def)
  ultimately show "\<exists>s n. lock_run True s \<and> lk_pending s = 0 \<and> lk_map s n = Some None \<and>
     (\<forall>E t. key_locks t = lk_map s \<longrightarrow> key_locks_active t = lk_count s \<longrightarrow>
       \<not> fst (key_locked E n t) \<and> fst (key_locked_slow E n t))"
    by (intro exI [of _ ?s] exI [of _ "''b''"]) (simp add: key_locked_def key_locked_slow_def)
qed

text \<open>The witness locks a key, clears it in two steps, clears everything, and locks another key.\<close>

theorem lock_counter_race_witness:
  "lk_count (lock_insert ''b'' None (clear_all (clear_key_subtract (clear_key_remove ''a''
     (lock_insert ''a'' None \<lparr>lk_map = Map.empty, lk_count = 0, lk_pending = 0\<rparr>))))) \<noteq> 0"
proof -
  let ?t = "clear_key_subtract (clear_key_remove ''a'' (lock_insert ''a'' None \<lparr>lk_map = Map.empty, lk_count = 0, lk_pending = 0\<rparr>))"
  let ?s = "lock_insert ''b'' None (clear_all ?t)"
  have m: "lk_map ?s = [''b'' \<mapsto> None]" "lk_pending ?s = 0" "lk_pending ?t = 0"
    by (simp_all add: lock_insert_def clear_all_def clear_key_remove_def clear_key_subtract_def)
  have "lock_run False ?t"
    by (intro lock_run.intros) (simp add: clear_key_remove_def lock_insert_def)
  then have r: "lock_run False ?s"
    using m(3) by (intro lock_run.insert lock_run.clear) simp_all
  show ?thesis
    using lock_counter_race [THEN conjunct1, rule_format, OF r] m(1,2) by (simp add: fun_eq_iff)
qed

end
