(* ===== verification/Fetch.thy ===== *)
theory Fetch
  imports Prelude
begin

text \<open>
  Key acquisition, \<^verbatim>\<open>src/src/fetcher/\<close>: the file fetcher with its permission checks and its reading
  loop, the environment, keychain and TPM fetchers. The file system, the process environment and
  the \<^verbatim>\<open>keyring\<close> crate are parameters; the standard library's paths and UTF-8 check are
  definitions. A \<^verbatim>\<open>RawKey\<close> is the list of its bytes. The trait's contract is the locale
  \<open>key_fetch\<close>.
\<close>

unbundle bit_operations_syntax

record fetch_context =
  key_name :: string

definition fetch_context_new :: "string \<Rightarrow> fetch_context" where
  "fetch_context_new n = \<lparr>key_name = n\<rparr>"

text \<open>\<^verbatim>\<open>impl fmt::Debug for RawKey\<close>: only the length is shown.\<close>

definition raw_key_debug :: "bytes \<Rightarrow> string" where
  "raw_key_debug k = ''RawKey { len: '' @ decimal (length k) @ '', bytes: '' @ [CHR 0x22] @ ''<redacted>'' @ [CHR 0x22] @ '' }''"

text \<open>
  The trait \<^verbatim>\<open>KeyFetch\<close>: an error names the fetcher it comes from.
\<close>

locale key_fetch =
  fixes fetch :: "fetch_context \<Rightarrow> 'w \<Rightarrow> bytes result \<times> 'w"
    and describe :: string
  assumes error_source: "fetch ctx w = (Inl (Err e), w') \<Longrightarrow> \<exists>reason. e = Acquisition describe reason"
begin

lemma error_message:
  assumes "fetch ctx w = (Inl (Err e), w')"
  shows "\<exists>reason. error_display e = ''key acquisition from '' @ describe @ '' failed: '' @ reason"
proof -
  obtain reason where "e = Acquisition describe reason"
    using error_source [OF assms] by blast
  then show ?thesis by simp
qed

end

section \<open>Files\<close>

datatype io_kind = Interrupted | IoKind string

primrec kind_debug :: "io_kind \<Rightarrow> string" where
  "kind_debug Interrupted = ''Interrupted''"
| "kind_debug (IoKind s) = s"

record meta =
  m_mode :: u32
  m_uid :: u32
  m_dev :: u64
  m_ino :: u64
  m_len :: nat

text \<open>An absolute path is the list of its components. The path a fetcher is given is a string.\<close>

type_synonym path = "string list"

definition parent :: "path \<Rightarrow> path option" where
  "parent p = (if p = [] then None else Some (butlast p))"

text \<open>\<^verbatim>\<open>Path::ancestors\<close>: the path itself, its parent, and so on up to the root.\<close>

definition ancestors :: "path \<Rightarrow> path list" where
  "ancestors p = map (\<lambda>n. take n p) (rev [0..<Suc (length p)])"

definition path_display :: "path \<Rightarrow> string" where
  "path_display p = (if p = [] then ''/'' else concat (map (\<lambda>c. ''/'' @ c) p))"

record 'f fs =
  fs_open :: "string \<Rightarrow> 'f \<Rightarrow> (io_kind + nat) \<times> 'f"
  fs_fstat :: "nat \<Rightarrow> 'f \<Rightarrow> (io_kind + meta) \<times> 'f"
  fs_stat :: "path \<Rightarrow> 'f \<Rightarrow> (io_kind + meta) \<times> 'f"
  fs_canonicalize :: "string \<Rightarrow> 'f \<Rightarrow> (io_kind + path) \<times> 'f"
  fs_absolute :: "string \<Rightarrow> 'f \<Rightarrow> path option \<times> 'f"
  fs_read :: "nat \<Rightarrow> nat \<Rightarrow> 'f \<Rightarrow> (io_kind + bytes) \<times> 'f"
  fs_euid :: u32

record file_fetch =
  ff_path :: string
  strict_perms :: bool
  check_dirs :: bool

definition file_fetch_new :: "string \<Rightarrow> file_fetch" where
  "file_fetch_new p = \<lparr>ff_path = p, strict_perms = True, check_dirs = True\<rparr>"

definition allow_loose_perms :: "file_fetch \<Rightarrow> file_fetch" where
  "allow_loose_perms f = f\<lparr>strict_perms := False\<rparr>"

definition skip_directory_check :: "file_fetch \<Rightarrow> file_fetch" where
  "skip_directory_check f = f\<lparr>check_dirs := False\<rparr>"

record checks =
  chk_file :: bool
  chk_dirs :: bool

definition checks_none :: checks where
  "checks_none = \<lparr>chk_file = False, chk_dirs = False\<rparr>"

fun octal :: "nat \<Rightarrow> string" where
  "octal n = (if n < 8 then [char_of (48 + n)] else octal (n div 8) @ [char_of (48 + n mod 8)])"

declare octal.simps [simp del]

definition io_failure_message :: "string \<Rightarrow> io_kind \<Rightarrow> string" where
  "io_failure_message p k = ''failed to read '' @ p @ '': '' @ kind_debug k"

definition io_error :: "string \<Rightarrow> io_kind \<Rightarrow> error" where
  "io_error p k = Acquisition ''file'' (io_failure_message p k)"

definition rejected :: "string \<Rightarrow> error" where
  "rejected reason = Acquisition ''file'' reason"

text \<open>\<^verbatim>\<open>.map_err(|e| io_error(path, &e))?\<close>\<close>

definition io_try :: "string \<Rightarrow> ('f \<Rightarrow> (io_kind + 'a) \<times> 'f) \<Rightarrow> ('f, 'a) rand" where
  "io_try p m w = (case m w of (Inl k, w') \<Rightarrow> (Inl (Err (io_error p k)), w') | (Inr a, w') \<Rightarrow> (Inr a, w'))"

definition check_owner :: "u32 \<Rightarrow> u32 \<Rightarrow> string \<Rightarrow> string \<Rightarrow> unit result" where
  "check_owner owner euid what kind =
     (if owner = euid \<or> owner = 0 then Inr ()
      else Inl (Err (rejected (kind @ '' '' @ what @ '' is owned by uid '' @ decimal (unat owner) @ ''; expected uid '' @
        decimal (unat euid) @ '' (the process user) or root''))))"

definition check_directory :: "'f fs \<Rightarrow> path \<Rightarrow> u32 \<Rightarrow> ('f, unit) rand" where
  "check_directory fs dir euid =
     rbind (io_try (path_display dir) (fs_stat fs dir)) (\<lambda>meta.
     rbind (rlift (check_owner (m_uid meta) euid (path_display dir) ''directory'')) (\<lambda>_.
       let mode = m_mode meta; writable_by_others = (mode AND 0x12 \<noteq> 0); sticky = (mode AND 0x200 \<noteq> 0)
       in if writable_by_others \<and> \<not> sticky
          then rlift (Inl (Err (rejected (''directory '' @ path_display dir @ '' is writable by group or others (mode '' @
            octal (unat (mode AND 0xFFF)) @ ''), so the key file could be replaced''))))
          else rret ()))"

text \<open>The loop over the directories, with \<^verbatim>\<open>?\<close>.\<close>

primrec check_all :: "'f fs \<Rightarrow> path list \<Rightarrow> u32 \<Rightarrow> ('f, unit) rand" where
  "check_all fs [] euid = rret ()"
| "check_all fs (d # ds) euid = rbind (check_directory fs d euid) (\<lambda>_. check_all fs ds euid)"

definition check_directories :: "'f fs \<Rightarrow> string \<Rightarrow> meta \<Rightarrow> u32 \<Rightarrow> ('f, unit) rand" where
  "check_directories fs p opened euid =
     rbind (io_try p (fs_canonicalize fs p)) (\<lambda>resolved.
     rbind (io_try p (fs_stat fs resolved)) (\<lambda>current.
       if (m_dev current, m_ino current) \<noteq> (m_dev opened, m_ino opened)
       then rlift (Inl (Err (rejected (p @ '' changed while it was being checked''))))
       else rbind (check_all fs (drop 1 (ancestors resolved)) euid) (\<lambda>_. (\<lambda>w.
         case fs_absolute fs p w of (a, w') \<Rightarrow>
           (case Option.bind a parent of
              None \<Rightarrow> (Inr (), w')
            | Some par \<Rightarrow> if Some par \<noteq> parent resolved then check_directory fs par euid w' else (Inr (), w'))))))"

text \<open>On Unix; elsewhere \<^verbatim>\<open>check_perms\<close> accepts everything.\<close>

definition check_perms :: "bool \<Rightarrow> 'f fs \<Rightarrow> nat \<Rightarrow> string \<Rightarrow> bool \<Rightarrow> ('f, unit) rand" where
  "check_perms unix fs file p dirs =
     (if \<not> unix then rret ()
      else rbind (io_try p (fs_fstat fs file)) (\<lambda>meta.
        let mode = m_mode meta
        in if mode AND 0x3F \<noteq> 0
           then rlift (Inl (Err (rejected (p @ '' is too permissive (mode '' @ octal (unat (mode AND 0x1FF)) @
             ''); expected 0600 or stricter''))))
           else rbind (rlift (check_owner (m_uid meta) (fs_euid fs) p ''file'')) (\<lambda>_.
             if dirs then check_directories fs p meta (fs_euid fs) else rret ())))"

definition grow_full :: "bytes \<Rightarrow> nat \<Rightarrow> bytes result" where
  "grow_full buf filled =
     (if filled = length buf
      then ebind (zero_vec (max (usize_saturating_mul (length buf) 2) 64)) (\<lambda>bigger. Inr (buf @ drop (length buf) bigger))
      else Inr buf)"

primrec read_loop :: "nat \<Rightarrow> 'f fs \<Rightarrow> nat \<Rightarrow> string \<Rightarrow> bytes \<Rightarrow> nat \<Rightarrow> ('f, bytes) rand" where
  "read_loop 0 fs file p buf filled w = (Inl Diverge, w)"
| "read_loop (Suc fuel) fs file p buf filled w =
     (case grow_full buf filled of
        Inl e \<Rightarrow> (Inl e, w)
      | Inr buf \<Rightarrow>
          if length buf < filled then (Inl Panic, w)
          else case fs_read fs file (length buf - filled) w of
                 (Inl k, w') \<Rightarrow> (case k of Interrupted \<Rightarrow> read_loop fuel fs file p buf filled w'
                                 | IoKind s \<Rightarrow> (Inl (Err (io_error p k)), w'))
               | (Inr bs, w') \<Rightarrow>
                   (if bs = [] then (Inr (take filled buf), w')
                    else read_loop fuel fs file p
                           (take (length buf) (take filled buf @ bs @ drop (filled + length bs) buf)) (filled + length bs) w'))"

definition read_wiping :: "nat \<Rightarrow> 'f fs \<Rightarrow> nat \<Rightarrow> nat \<Rightarrow> string \<Rightarrow> ('f, bytes) rand" where
  "read_wiping fuel fs file hint p =
     rbind (rlift (zero_vec (usize_saturating_add hint 1))) (\<lambda>buf. read_loop fuel fs file p buf 0)"

definition read_to_end_wiping :: "nat \<Rightarrow> 'f fs \<Rightarrow> nat \<Rightarrow> string \<Rightarrow> ('f, bytes) rand" where
  "read_to_end_wiping fuel fs file p w =
     (case fs_fstat fs file w of (r, w') \<Rightarrow>
        let hint = (case r of Inl k \<Rightarrow> 0 | Inr m \<Rightarrow> if m_len m \<le> usize_max then m_len m else 0)
        in read_wiping fuel fs file hint p w')"

definition read_checked :: "bool \<Rightarrow> nat \<Rightarrow> 'f fs \<Rightarrow> nat \<Rightarrow> string \<Rightarrow> checks \<Rightarrow> ('f, bytes) rand" where
  "read_checked unix fuel fs file p c =
     rbind (if chk_file c then check_perms unix fs file p (chk_dirs c) else rret ()) (\<lambda>_.
       read_to_end_wiping fuel fs file p)"

definition file_fetch_fetch :: "bool \<Rightarrow> nat \<Rightarrow> 'f fs \<Rightarrow> file_fetch \<Rightarrow> fetch_context \<Rightarrow> ('f, bytes) rand" where
  "file_fetch_fetch unix fuel fs f ctx =
     rbind (io_try (ff_path f) (fs_open fs (ff_path f))) (\<lambda>file.
       let c = (if strict_perms f then \<lparr>chk_file = True, chk_dirs = check_dirs f\<rparr> else checks_none)
       in read_checked unix fuel fs file (ff_path f) c)"

definition file_describe :: string where
  "file_describe = ''file''"

section \<open>Environment variables\<close>

text \<open>Well-formed UTF-8 (the table of the Unicode standard), which \<^verbatim>\<open>into_string\<close> checks.\<close>

definition utf8_cont :: "u8 \<Rightarrow> bool" where
  "utf8_cont b \<longleftrightarrow> 0x80 \<le> b \<and> b \<le> 0xBF"

fun utf8_valid :: "bytes \<Rightarrow> bool" where
  "utf8_valid [] \<longleftrightarrow> True"
| "utf8_valid (b # rest) \<longleftrightarrow>
     (if b < 0x80 then utf8_valid rest
      else if 0xC2 \<le> b \<and> b \<le> 0xDF then
        (case rest of c1 # r \<Rightarrow> utf8_cont c1 \<and> utf8_valid r | _ \<Rightarrow> False)
      else if 0xE0 \<le> b \<and> b \<le> 0xEF then
        (case rest of c1 # c2 # r \<Rightarrow>
           (if b = 0xE0 then 0xA0 \<le> c1 \<and> c1 \<le> 0xBF else if b = 0xED then 0x80 \<le> c1 \<and> c1 \<le> 0x9F else utf8_cont c1) \<and>
           utf8_cont c2 \<and> utf8_valid r | _ \<Rightarrow> False)
      else if 0xF0 \<le> b \<and> b \<le> 0xF4 then
        (case rest of c1 # c2 # c3 # r \<Rightarrow>
           (if b = 0xF0 then 0x90 \<le> c1 \<and> c1 \<le> 0xBF else if b = 0xF4 then 0x80 \<le> c1 \<and> c1 \<le> 0x8F else utf8_cont c1) \<and>
           utf8_cont c2 \<and> utf8_cont c3 \<and> utf8_valid r | _ \<Rightarrow> False)
      else False)"

record env_fetch =
  var_name :: string

definition env_fetch_new :: "string \<Rightarrow> env_fetch" where
  "env_fetch_new n = \<lparr>var_name = n\<rparr>"

text \<open>The environment is a function from names to the bytes of the values.\<close>

definition env_fetch_fetch :: "env_fetch \<Rightarrow> fetch_context \<Rightarrow> (string \<Rightarrow> bytes option, bytes) rand" where
  "env_fetch_fetch f ctx vars =
     (case vars (var_name f) of
        None \<Rightarrow> (Inl (Err (Acquisition ''env'' (''environment variable '' @ var_name f @ '' is not set''))), vars)
      | Some v \<Rightarrow>
          if utf8_valid v then (Inr v, vars)
          else (Inl (Err (Acquisition ''env'' (''environment variable '' @ var_name f @ '' contained non-UTF-8 bytes''))), vars))"

section \<open>Keychain and TPM\<close>

text \<open>\<^verbatim>\<open>keyring::Error\<close>; the last case stands for the variants a later version may add.\<close>

datatype keyring_error =
    NoEntry
  | BadEncoding bytes
  | TooLong string nat
  | Invalid string string
  | PlatformFailure string
  | NoStorageAccess string
  | Ambiguous string
  | OtherError string

record ('k, 'e) keyring =
  kr_new :: "string \<Rightarrow> string \<Rightarrow> 'k \<Rightarrow> (keyring_error + 'e) \<times> 'k"
  kr_get_secret :: "'e \<Rightarrow> 'k \<Rightarrow> (keyring_error + bytes) \<times> 'k"
  kr_get_password :: "'e \<Rightarrow> 'k \<Rightarrow> (keyring_error + bytes) \<times> 'k"

fun redact_keyring_error :: "keyring_error \<Rightarrow> string" where
  "redact_keyring_error NoEntry = ''no such entry''"
| "redact_keyring_error (BadEncoding b) = ''stored value is not UTF-8''"
| "redact_keyring_error (TooLong field n) = field @ '' too long for platform''"
| "redact_keyring_error (Invalid field r) = ''invalid '' @ field"
| "redact_keyring_error (PlatformFailure e) = ''platform-specific keyring failure''"
| "redact_keyring_error (NoStorageAccess e) = ''keyring service inaccessible''"
| "redact_keyring_error (Ambiguous e) = ''multiple matching entries (ambiguous)''"
| "redact_keyring_error (OtherError e) = ''keyring error''"

record keychain_fetch =
  kc_service :: string
  kc_account :: string
  kc_binary :: bool

definition keychain_fetch_new :: "string \<Rightarrow> string \<Rightarrow> keychain_fetch" where
  "keychain_fetch_new s a = \<lparr>kc_service = s, kc_account = a, kc_binary = False\<rparr>"

definition keychain_binary :: "keychain_fetch \<Rightarrow> keychain_fetch" where
  "keychain_binary f = f\<lparr>kc_binary := True\<rparr>"

definition keychain_error :: "string \<Rightarrow> keychain_fetch \<Rightarrow> keyring_error \<Rightarrow> error" where
  "keychain_error what f e =
     Acquisition ''keychain'' (''could not '' @ what @ '' keychain entry '' @ kc_service f @ ''/'' @ kc_account f @ '': '' @
       redact_keyring_error e)"

definition keychain_fetch_fetch :: "('k, 'e) keyring \<Rightarrow> keychain_fetch \<Rightarrow> fetch_context \<Rightarrow> ('k, bytes) rand" where
  "keychain_fetch_fetch kr f ctx k =
     (case kr_new kr (kc_service f) (kc_account f) k of
        (Inl e, k1) \<Rightarrow> (Inl (Err (keychain_error ''open'' f e)), k1)
      | (Inr entry, k1) \<Rightarrow>
          if kc_binary f then
            (case kr_get_secret kr entry k1 of
               (Inl e, k2) \<Rightarrow> (Inl (Err (keychain_error ''read'' f e)), k2)
             | (Inr v, k2) \<Rightarrow> (Inr v, k2))
          else
            (case kr_get_password kr entry k1 of
               (Inl e, k2) \<Rightarrow>
                 let e' = (case e of BadEncoding b \<Rightarrow> BadEncoding [] | _ \<Rightarrow> e)
                 in (Inl (Err (keychain_error ''read'' f e')), k2)
             | (Inr v, k2) \<Rightarrow> (Inr v, k2)))"

definition tpm_fetch_fetch :: "fetch_context \<Rightarrow> ('w, bytes) rand" where
  "tpm_fetch_fetch ctx w = (Inl (Err (Acquisition ''tpm''
     ''TPM 2.0 acquisition is not implemented in key-vault (TpmFetch is a placeholder); use another fetcher.'')), w)"

section \<open>The contract\<close>

definition from_file :: "'a result \<Rightarrow> bool" where
  "from_file r \<longleftrightarrow> (\<forall>e. r = Inl (Err e) \<longrightarrow> (\<exists>reason. e = Acquisition ''file'' reason))"

lemma from_file_simps [simp]:
  "from_file (Inr a)" "from_file (Inl Panic)" "from_file (Inl Diverge)" "from_file (Inl (Err (io_error p k)))"
  "from_file (Inl (Err (rejected r)))"
  by (simp_all add: from_file_def io_error_def rejected_def)

lemma from_file_rbind: "from_file (fst (m w)) \<Longrightarrow> (\<And>a w. from_file (fst (f a w))) \<Longrightarrow> from_file (fst (rbind m f w))"
  by (auto simp: rbind_def from_file_def split: prod.splits sum.splits)

lemma from_file_io_try: "from_file (fst (io_try p m w))"
  by (auto simp: io_try_def split: prod.split sum.split)

lemma from_file_owner: "from_file (check_owner o1 o2 a b)"
  by (simp add: check_owner_def)

lemma from_file_zero_vec: "from_file (zero_vec n)"
  by (simp add: zero_vec_def)

lemmas from_file_intros = from_file_rbind from_file_io_try from_file_owner from_file_zero_vec

lemma from_file_check_directory: "from_file (fst (check_directory fs d euid w))"
  unfolding check_directory_def Let_def by (intro from_file_intros) (auto intro: from_file_owner)

lemma from_file_check_all: "from_file (fst (check_all fs ds euid w))"
  by (induction ds arbitrary: w) (auto intro!: from_file_rbind from_file_check_directory)

lemma from_file_check_directories: "from_file (fst (check_directories fs p m euid w))"
  unfolding check_directories_def
  by (intro from_file_rbind from_file_io_try)
     (auto intro!: from_file_rbind from_file_check_all from_file_check_directory split: prod.split option.split)

lemma from_file_check_perms: "from_file (fst (check_perms u fs file p d w))"
  unfolding check_perms_def Let_def
  by (auto intro!: from_file_intros from_file_check_directories)

lemma from_file_read_loop: "from_file (fst (read_loop fuel fs file p buf filled w))"
proof (induction fuel arbitrary: buf filled w)
  case (Suc fuel)
  have "from_file (grow_full buf filled)"
    by (auto simp: grow_full_def zero_vec_def)
  with Suc show ?case
    by (auto split: sum.split prod.split io_kind.split simp: from_file_def io_error_def)
qed simp

lemma file_fetch_source: "from_file (fst (file_fetch_fetch u fuel fs f ctx w))"
  unfolding file_fetch_fetch_def read_checked_def Let_def
  by (intro from_file_rbind from_file_io_try)
     (auto intro!: from_file_rbind from_file_check_perms from_file_read_loop from_file_zero_vec
       simp: read_to_end_wiping_def read_wiping_def Let_def split: prod.split)

interpretation file_source: key_fetch "file_fetch_fetch u fuel fs f" file_describe for u fuel and fs :: "'f fs" and f
proof
  fix ctx and w :: 'f and e w'
  assume "file_fetch_fetch u fuel fs f ctx w = (Inl (Err e), w')"
  then show "\<exists>reason. e = Acquisition file_describe reason"
    using file_fetch_source [of u fuel fs f ctx w] by (simp add: from_file_def file_describe_def)
qed

interpretation env_source: key_fetch "env_fetch_fetch f" "''env''" for f
  by unfold_locales (auto simp: env_fetch_fetch_def split: option.splits if_splits)

interpretation keychain_source: key_fetch "keychain_fetch_fetch kr f" "''keychain''" for kr :: "('k, 'e) keyring" and f
  by unfold_locales (auto simp: keychain_fetch_fetch_def keychain_error_def Let_def split: prod.splits sum.splits if_splits)

interpretation tpm_source: key_fetch "tpm_fetch_fetch :: fetch_context \<Rightarrow> ('w, bytes) rand" "''tpm''"
  by unfold_locales (auto simp: tpm_fetch_fetch_def)

section \<open>What the checks establish\<close>

text \<open>No permission bit for group or others, and an owner that is the process user or root.\<close>

definition private_file :: "meta \<Rightarrow> u32 \<Rightarrow> bool" where
  "private_file m euid \<longleftrightarrow> (\<forall>i<6. \<not> bit (m_mode m) i) \<and> (m_uid m = euid \<or> m_uid m = 0)"

text \<open>Such an owner, and group and others may not write (bits 4 and 1) unless the sticky bit (9) is set.\<close>

definition trusted_dir :: "meta \<Rightarrow> u32 \<Rightarrow> bool" where
  "trusted_dir m euid \<longleftrightarrow> (m_uid m = euid \<or> m_uid m = 0) \<and>
     (\<not> bit (m_mode m) 1 \<and> \<not> bit (m_mode m) 4 \<or> bit (m_mode m) 9)"

text \<open>The worlds that calls for file data and paths lead to.\<close>

inductive fs_calls :: "'f fs \<Rightarrow> 'f \<Rightarrow> 'f \<Rightarrow> bool" for fs w where
  none: "fs_calls fs w w"
| stat: "fs_calls fs w w1 \<Longrightarrow> fs_stat fs d w1 = (r, w2) \<Longrightarrow> fs_calls fs w w2"
| resolve: "fs_calls fs w w1 \<Longrightarrow> fs_canonicalize fs p w1 = (r', w2) \<Longrightarrow> fs_calls fs w w2"
| make_absolute: "fs_calls fs w w1 \<Longrightarrow> fs_absolute fs p w1 = (a, w2) \<Longrightarrow> fs_calls fs w w2"

lemma fs_calls_trans:
  assumes "fs_calls fs w w1" "fs_calls fs w1 w2"
  shows "fs_calls fs w w2"
  using assms(2) by induction (auto intro: assms(1) fs_calls.intros)

text \<open>Between two worlds of a run, a call on the directory answered with the data of a trusted one.\<close>

definition seen_trusted :: "'f fs \<Rightarrow> u32 \<Rightarrow> path \<Rightarrow> 'f \<Rightarrow> 'f \<Rightarrow> bool" where
  "seen_trusted fs euid d w w' \<longleftrightarrow> (\<exists>w1 m w2. fs_calls fs w w1 \<and> fs_stat fs d w1 = (Inr m, w2) \<and>
     trusted_dir m euid \<and> fs_calls fs w2 w')"

lemma seen_trusted_mono:
  assumes "seen_trusted fs euid d w1 w2" "fs_calls fs w w1" "fs_calls fs w2 w'"
  shows "seen_trusted fs euid d w w'"
  using assms unfolding seen_trusted_def by (meson fs_calls_trans)

lemma mode_masks:
  fixes m :: u32
  shows "m AND 0x3F = 0 \<longleftrightarrow> (\<forall>i<6. \<not> bit m i)"
    "m AND 0x12 = 0 \<longleftrightarrow> \<not> bit m 1 \<and> \<not> bit m 4" "m AND 0x200 = 0 \<longleftrightarrow> \<not> bit m 9"
proof -
  have "m AND 0x3F = take_bit 6 m"
    by (simp add: take_bit_eq_mask mask_eq_exp_minus_1)
  then show "m AND 0x3F = 0 \<longleftrightarrow> (\<forall>i<6. \<not> bit m i)"
    by (auto simp: bit_eq_iff bit_simps)
  have "(0x12 :: u32) = 2 ^ 1 OR 2 ^ 4" by simp
  then show "m AND 0x12 = 0 \<longleftrightarrow> \<not> bit m 1 \<and> \<not> bit m 4"
    by (simp only: bit.conj_disj_distrib or_eq_0_iff and_exp_eq_0_iff_not_bit)
  have "(0x200 :: u32) = 2 ^ 9" by simp
  then show "m AND 0x200 = 0 \<longleftrightarrow> \<not> bit m 9"
    by (simp only: and_exp_eq_0_iff_not_bit)
qed

lemma io_try_Inr [result_simps]: "io_try p m w = (Inr a, w') \<longleftrightarrow> m w = (Inr a, w')"
  by (auto simp: io_try_def split: prod.splits sum.splits)

lemma check_owner_Inr: "check_owner o1 euid a b = Inr u \<longleftrightarrow> o1 = euid \<or> o1 = 0"
  by (simp add: check_owner_def)

lemma check_directory_ok:
  assumes "check_directory fs d euid w = (Inr u, w')"
  shows "seen_trusted fs euid d w w'" "fs_calls fs w w'"
proof -
  obtain m where m: "fs_stat fs d w = (Inr m, w')" "trusted_dir m euid"
    using assms
    by (auto simp: check_directory_def result_simps rlift_def check_owner_Inr Let_def trusted_dir_def mode_masks split: if_splits)
  then show "seen_trusted fs euid d w w'" "fs_calls fs w w'"
    unfolding seen_trusted_def by (blast intro: fs_calls.intros)+
qed

lemma check_all_ok:
  assumes "check_all fs ds euid w = (Inr u, w')"
  shows "d \<in> set ds \<Longrightarrow> seen_trusted fs euid d w w'" "fs_calls fs w w'"
proof -
  have "(\<forall>d\<in>set ds. seen_trusted fs euid d w w') \<and> fs_calls fs w w'"
    using assms
  proof (induction ds arbitrary: w)
    case Nil
    then show ?case by (auto intro: fs_calls.none)
  next
    case (Cons a ds)
    then obtain w1 where c: "check_directory fs a euid w = (Inr (), w1)" "check_all fs ds euid w1 = (Inr u, w')"
      by (auto simp: result_simps)
    note h = check_directory_ok [OF c(1)] and t = Cons.IH [OF c(2)]
    have "seen_trusted fs euid a w w'"
      by (rule seen_trusted_mono [OF h(1) fs_calls.none conjunct2 [OF t]])
    moreover have "\<forall>d\<in>set ds. seen_trusted fs euid d w w'"
      using t seen_trusted_mono [OF _ h(2) fs_calls.none] by blast
    ultimately show ?case
      using fs_calls_trans [OF h(2) conjunct2 [OF t]] by simp
  qed
  then show "d \<in> set ds \<Longrightarrow> seen_trusted fs euid d w w'" "fs_calls fs w w'" by blast+
qed

text \<open>The directories above a path.\<close>

lemma set_ancestors: "set (drop 1 (ancestors p)) = {take n p | n. n < length p}"
proof -
  have "drop 1 (ancestors p) = map (\<lambda>n. take n p) (rev [0..<length p])"
    by (simp add: ancestors_def)
  then show ?thesis by auto
qed

text \<open>What the directory check saw between two worlds: the path resolves to the opened file, every directory above the
  resolved path is trusted, and so is the directory of the path as given.\<close>

definition trusted_path :: "'f fs \<Rightarrow> u32 \<Rightarrow> string \<Rightarrow> meta \<Rightarrow> 'f \<Rightarrow> 'f \<Rightarrow> bool" where
  "trusted_path fs euid p opened w w' \<longleftrightarrow>
     (\<exists>resolved w1 current w2 w3 a w4. fs_canonicalize fs p w = (Inr resolved, w1) \<and>
       fs_stat fs resolved w1 = (Inr current, w2) \<and>
       m_dev current = m_dev opened \<and> m_ino current = m_ino opened \<and>
       (\<forall>n < length resolved. seen_trusted fs euid (take n resolved) w2 w3) \<and> fs_absolute fs p w3 = (a, w4) \<and>
       (\<forall>q par. a = Some q \<longrightarrow> parent q = Some par \<longrightarrow> seen_trusted fs euid par w2 w'))"

lemma check_directories_ok:
  assumes "check_directories fs p opened euid w = (Inr u, w')"
  shows "trusted_path fs euid p opened w w'"
proof -
  obtain resolved w1 current w2 w3 where r: "fs_canonicalize fs p w = (Inr resolved, w1)"
    "fs_stat fs resolved w1 = (Inr current, w2)" "m_dev current = m_dev opened" "m_ino current = m_ino opened"
    "check_all fs (drop 1 (ancestors resolved)) euid w2 = (Inr (), w3)"
    and rest: "(case fs_absolute fs p w3 of (a, w') \<Rightarrow> (case Option.bind a parent of None \<Rightarrow> (Inr (), w')
      | Some par \<Rightarrow> if Some par \<noteq> parent resolved then check_directory fs par euid w' else (Inr (), w'))) = (Inr u, w')"
    using assms by (auto simp: check_directories_def result_simps rlift_def split: if_splits)
  have dirs: "seen_trusted fs euid (take n resolved) w2 w3" if "n < length resolved" for n
    using check_all_ok(1) [OF r(5)] that unfolding set_ancestors by blast
  obtain a w4 where a: "fs_absolute fs p w3 = (a, w4)" by (rule prod.exhaust)
  have to4: "fs_calls fs w2 w4" "fs_calls fs w3 w4"
    using check_all_ok(2) [OF r(5)] a by (blast intro: fs_calls.intros)+
  have "seen_trusted fs euid par w2 w'" if q: "a = Some q" "parent q = Some par" for q par
  proof (cases "Some par = parent resolved")
    case True
    then have "resolved \<noteq> []" "par = take (length resolved - 1) resolved"
      by (auto simp: parent_def butlast_conv_take split: if_splits)
    moreover have "w' = w4"
      using rest a q True by (auto split: option.splits)
    ultimately show ?thesis
      using seen_trusted_mono [OF dirs [of "length resolved - 1"] fs_calls.none to4(2)] by simp
  next
    case False
    then have c: "check_directory fs par euid w4 = (Inr u, w')"
      using rest a q by simp
    show ?thesis
      by (rule seen_trusted_mono [OF check_directory_ok(1) [OF c] to4(1) fs_calls.none])
  qed
  with r a dirs show ?thesis unfolding trusted_path_def by blast
qed

section \<open>Reading to the end\<close>

text \<open>
  What \<^verbatim>\<open>read\<close> promises on a file: it may be interrupted, finitely often (\<open>signals\<close> bounds what is
  left of that); otherwise it returns a prefix of what is left, and nothing only at the end of
  the file, when asked for at least one byte.
\<close>

definition reader_law :: "'f fs \<Rightarrow> nat \<Rightarrow> ('f \<Rightarrow> bytes) \<Rightarrow> ('f \<Rightarrow> nat) \<Rightarrow> bool" where
  "reader_law fs h left signals \<longleftrightarrow> (\<forall>w n. 0 < n \<longrightarrow>
     (case fs_read fs h n w of
        (Inl k, w') \<Rightarrow> k = Interrupted \<and> left w' = left w \<and> signals w' < signals w
      | (Inr bs, w') \<Rightarrow> length bs \<le> n \<and> left w = bs @ left w' \<and> signals w' \<le> signals w \<and> (bs = [] \<longrightarrow> left w = [])))"

lemma grow_full_room:
  assumes "filled \<le> length buf" "2 * filled \<le> isize_max"
  obtains buf' where "grow_full buf filled = Inr buf'" "filled < length buf'" "take filled buf' = take filled buf"
proof (cases "filled = length buf")
  case True
  let ?n = "max (usize_saturating_mul (length buf) 2) 64"
  have n: "?n \<le> isize_max" "length buf < ?n"
    using assms(2) True by (auto simp: usize_saturating_mul_def usize_max_def isize_max_def)
  show ?thesis
    by (rule that [of "buf @ drop (length buf) (replicate ?n 0)"])
       (use n True in \<open>simp_all add: grow_full_def zero_vec_def\<close>)
next
  case False
  show ?thesis
    by (rule that [of buf]) (use False assms(1) in \<open>simp_all add: grow_full_def\<close>)
qed

lemma read_loop_all:
  assumes "reader_law fs h left signals" "2 * length all \<le> isize_max"
  shows "length (left w) + signals w < fuel \<Longrightarrow> filled \<le> length buf \<Longrightarrow> all = take filled buf @ left w \<Longrightarrow>
    \<exists>w'. read_loop fuel fs h p buf filled w = (Inr all, w')"
proof (induction fuel arbitrary: buf filled w)
  case (Suc fuel)
  have fl: "2 * filled \<le> isize_max"
    using Suc.prems(2,3) assms(2) by simp
  obtain buf' where b: "grow_full buf filled = Inr buf'" "filled < length buf'" "take filled buf' = take filled buf"
    by (rule grow_full_room [OF Suc.prems(2) fl])
  have pos: "0 < length buf' - filled" using b(2) by simp
  obtain r w' where r: "fs_read fs h (length buf' - filled) w = (r, w')" by (rule prod.exhaust)
  note law = assms(1) [unfolded reader_law_def, rule_format, OF pos, of w, unfolded r]
  show ?case
  proof (cases r)
    case (Inl k)
    then have k: "k = Interrupted" "left w' = left w" "signals w' < signals w" using law by simp_all
    have "\<exists>w''. read_loop fuel fs h p buf' filled w' = (Inr all, w'')"
      by (rule Suc.IH) (use Suc.prems b k in simp_all)
    then show ?thesis
      using b r Inl k(1) by simp
  next
    case (Inr bs)
    then have bs: "length bs \<le> length buf' - filled" "left w = bs @ left w'" "signals w' \<le> signals w" "bs = [] \<longrightarrow> left w = []"
      using law by auto
    show ?thesis
    proof (cases "bs = []")
      case True
      then show ?thesis
        using b r Inr bs Suc.prems(3) by simp
    next
      case False
      let ?buf = "take (length buf') (take filled buf' @ bs @ drop (filled + length bs) buf')"
      have t: "take (filled + length bs) ?buf = take filled buf' @ bs"
        using b(2) bs(1) by (simp add: min_def)
      have "\<exists>w''. read_loop fuel fs h p ?buf (filled + length bs) w' = (Inr all, w'')"
      proof (rule Suc.IH)
        show "length (left w') + signals w' < fuel"
          using Suc.prems(1) bs(2,3) False by (cases bs) auto
        show "filled + length bs \<le> length ?buf"
          using b(2) bs(1) by simp
        show "all = take (filled + length bs) ?buf @ left w'"
          unfolding t using Suc.prems(3) b(3) bs(2) by simp
      qed
      then show ?thesis
        using b(1,2) r Inr False by simp
    qed
  qed
qed simp

section \<open>Properties\<close>

text \<open>(C24) A key that \<^verbatim>\<open>FileFetch\<close> returns with its checks on (Unix) was read through a handle whose file has no
  permission bit for group or others and belongs to the process user or root; and with the directory check on,
  between that and the reading every directory above the resolved path, and the directory of the path as given,
  answered as one that nobody else can write to, and the resolved path led to the very file that was opened.\<close>

theorem file_fetch_checked:
  assumes "file_fetch_fetch True fuel fs f ctx w = (Inr key, w')" "strict_perms f"
  shows "\<exists>h m w1 w2 w3. fs_open fs (ff_path f) w = (Inr h, w1) \<and> fs_fstat fs h w1 = (Inr m, w2) \<and>
    private_file m (fs_euid fs) \<and> read_to_end_wiping fuel fs h (ff_path f) w3 = (Inr key, w') \<and>
    (if check_dirs f then trusted_path fs (fs_euid fs) (ff_path f) m w2 w3 else w3 = w2)"
proof -
  obtain h w1 m w2 w3 where o: "fs_open fs (ff_path f) w = (Inr h, w1)" "fs_fstat fs h w1 = (Inr m, w2)"
    "m_mode m AND 0x3F = 0" "m_uid m = fs_euid fs \<or> m_uid m = 0"
    and d: "(if check_dirs f then check_directories fs (ff_path f) m (fs_euid fs) else rret ()) w2 = (Inr (), w3)"
    and r: "read_to_end_wiping fuel fs h (ff_path f) w3 = (Inr key, w')"
    using assms by (auto simp: file_fetch_fetch_def read_checked_def check_perms_def result_simps rlift_def Let_def check_owner_Inr
        split: if_splits)
  have "private_file m (fs_euid fs)"
    using o(3,4) by (simp add: private_file_def mode_masks)
  moreover have "if check_dirs f then trusted_path fs (fs_euid fs) (ff_path f) m w2 w3 else w3 = w2"
    using d by (auto intro: check_directories_ok)
  ultimately show ?thesis
    using o(1,2) r by blast
qed

text \<open>A file system for examples: one file, \<^verbatim>\<open>/etc/key\<close>, of mode \<^verbatim>\<open>0600\<close>; the state is what is left to
  read.\<close>

definition one_file :: "bytes fs" where
  "one_file = \<lparr>fs_open = (\<lambda>p w. (if p = ''/etc/key'' then Inr 3 else Inl (IoKind ''NotFound''), w)),
     fs_fstat = (\<lambda>h w. (Inr \<lparr>m_mode = 0x8180, m_uid = 1000, m_dev = 1, m_ino = 9, m_len = 4\<rparr>, w)),
     fs_stat = (\<lambda>p w. (Inr (if p = [''etc'', ''key''] then \<lparr>m_mode = 0x8180, m_uid = 1000, m_dev = 1, m_ino = 9, m_len = 4\<rparr>
        else \<lparr>m_mode = 0x41ED, m_uid = 0, m_dev = 1, m_ino = 2, m_len = 0\<rparr>), w)),
     fs_canonicalize = (\<lambda>p w. (Inr [''etc'', ''key''], w)), fs_absolute = (\<lambda>p w. (Some [''etc'', ''key''], w)),
     fs_read = (\<lambda>h n w. (Inr (take n w), drop n w)), fs_euid = 1000\<rparr>"

theorem file_fetch_checked_witness:
  "fst (file_fetch_fetch True 2 one_file (file_fetch_new ''/etc/key'') (fetch_context_new ''k'') [5, 6, 7, 8]) = Inr [5, 6, 7, 8] \<and>
   (\<exists>m w. fst (fs_fstat one_file 3 w) = Inr m \<and> private_file m 1000 \<and> (\<exists>w1 w2. trusted_path one_file 1000 ''/etc/key'' m w1 w2))"
proof -
  let ?f = "file_fetch_new ''/etc/key''"
  have cp: "check_perms True one_file 3 ''/etc/key'' True w = (Inr (), w)" for w
    by (simp add: check_perms_def check_directories_def check_directory_def check_owner_def one_file_def rbind_def io_try_def
        Let_def ancestors_def parent_def)
  have "read_to_end_wiping 2 one_file 3 ''/etc/key'' [5, 6, 7, 8] = (Inr [5, 6, 7, 8], [])"
    by (simp add: read_to_end_wiping_def read_wiping_def one_file_def Let_def zero_vec_def isize_max_def usize_max_def
        usize_saturating_add_def rbind_def grow_full_def numeral_2_eq_2)
  then have r: "file_fetch_fetch True 2 one_file ?f (fetch_context_new ''k'') [5, 6, 7, 8] = (Inr [5, 6, 7, 8], [])"
    using cp by (simp add: file_fetch_fetch_def file_fetch_new_def read_checked_def rbind_def io_try_def Let_def one_file_def)
  have f: "strict_perms ?f" "check_dirs ?f" "ff_path ?f = ''/etc/key''" "fs_euid one_file = 1000"
    by (simp_all add: file_fetch_new_def one_file_def)
  obtain h m w1 w2 w3 where o: "fs_open one_file ''/etc/key'' [5, 6, 7, 8] = (Inr h, w1)" "fs_fstat one_file h w1 = (Inr m, w2)"
    "private_file m 1000" "trusted_path one_file 1000 ''/etc/key'' m w2 w3"
    using file_fetch_checked [OF r f(1)] unfolding f(3,4) using f(2) by auto
  then have "h = 3" by (simp add: one_file_def)
  with r o show ?thesis by (metis fst_conv)
qed

text \<open>(C25) The reading loop returns the whole file: from a reader that keeps its contract (short reads and interrupts
  included), for any size hint, right or wrong, the loop ends within the number of remaining bytes plus the
  number of interrupts plus one passes and returns exactly the bytes that were left, neither truncated nor
  padded.\<close>

theorem read_wiping_all:
  assumes "reader_law fs h left signals" "hint < isize_max" "2 * length (left w) \<le> isize_max"
    and "length (left w) + signals w < fuel"
  shows "\<exists>w'. read_wiping fuel fs h hint p w = (Inr (left w), w')"
proof -
  have "usize_saturating_add hint 1 = hint + 1" "hint + 1 \<le> isize_max"
    using assms(2) by (auto simp: usize_saturating_add_def usize_max_def isize_max_def)
  then have "read_wiping fuel fs h hint p w = read_loop fuel fs h p (replicate (hint + 1) 0) 0 w"
    by (simp add: read_wiping_def zero_vec_def)
  then show ?thesis
    using read_loop_all [OF assms(1,3,4), of 0 "replicate (hint + 1) 0" p] by simp
qed

text \<open>A reader that hands out one byte at a time, with an interrupt before each.\<close>

definition slow_file :: "(bool \<times> bytes) fs" where
  "slow_file = \<lparr>fs_open = (\<lambda>p w. (Inr 3, w)), fs_fstat = (\<lambda>h w. (Inl (IoKind ''Other''), w)),
     fs_stat = (\<lambda>p w. (Inl (IoKind ''Other''), w)), fs_canonicalize = (\<lambda>p w. (Inr [], w)), fs_absolute = (\<lambda>p w. (None, w)),
     fs_read = (\<lambda>h n (intr, l). if intr then (Inl Interrupted, False, l) else (Inr (take (min n 1) l), l \<noteq> [], drop (min n 1) l)),
     fs_euid = 1000\<rparr>"

theorem read_wiping_all_witness:
  "\<exists>w'. read_wiping 200 slow_file 3 0 ''k'' (True, [1, 2, 3]) = (Inr [1, 2, 3], w')"
proof -
  have law: "reader_law slow_file 3 snd (\<lambda>w. length (snd w) + (if fst w then 1 else 0))"
    by (auto simp: reader_law_def slow_file_def take_Suc_conv_app_nth min_def Suc_le_eq split: list.split)
  show ?thesis
    using read_wiping_all [OF law, of 0 "(True, [1, 2, 3])" 200 "''k''"] by (simp add: isize_max_def)
qed

text \<open>(C28) Errors of the fetchers are clean: every error of each of the four fetchers names its fetcher as the source,
  as the trait demands; and a secret that cannot be decoded leaves no trace in the error, which is the same for
  any two undecodable values, from the environment and from the keychain.\<close>

theorem fetch_errors_clean:
  assumes "\<not> utf8_valid a" "\<not> utf8_valid b"
  shows "fst (env_fetch_fetch ef ctx (vars(var_name ef \<mapsto> a))) = fst (env_fetch_fetch ef ctx (vars(var_name ef \<mapsto> b))) \<and>
    fst (keychain_fetch_fetch (kr\<lparr>kr_get_password := \<lambda>e k. (Inl (BadEncoding a), k)\<rparr>) (kf\<lparr>kc_binary := False\<rparr>) ctx k) =
      fst (keychain_fetch_fetch (kr\<lparr>kr_get_password := \<lambda>e k. (Inl (BadEncoding b), k)\<rparr>) (kf\<lparr>kc_binary := False\<rparr>) ctx k) \<and>
    (\<forall>src e r. (src, r) \<in> {(''file'', fst (file_fetch_fetch u fuel fs ff ctx w)), (''env'', fst (env_fetch_fetch ef ctx vars)),
        (''keychain'', fst (keychain_fetch_fetch kr kf ctx k)), (''tpm'', fst (tpm_fetch_fetch ctx t))} \<longrightarrow> r = Inl (Err e) \<longrightarrow>
      (\<exists>reason. error_display e = ''key acquisition from '' @ src @ '' failed: '' @ reason))"
proof (intro conjI allI impI)
  show "fst (env_fetch_fetch ef ctx (vars(var_name ef \<mapsto> a))) = fst (env_fetch_fetch ef ctx (vars(var_name ef \<mapsto> b)))"
    using assms by (simp add: env_fetch_fetch_def)
  show "fst (keychain_fetch_fetch (kr\<lparr>kr_get_password := \<lambda>e k. (Inl (BadEncoding a), k)\<rparr>) (kf\<lparr>kc_binary := False\<rparr>) ctx k) =
      fst (keychain_fetch_fetch (kr\<lparr>kr_get_password := \<lambda>e k. (Inl (BadEncoding b), k)\<rparr>) (kf\<lparr>kc_binary := False\<rparr>) ctx k)"
    by (simp add: keychain_fetch_fetch_def Let_def split: prod.split sum.split)
  fix src e r
  assume src: "(src, r) \<in> {(''file'', fst (file_fetch_fetch u fuel fs ff ctx w)), (''env'', fst (env_fetch_fetch ef ctx vars)),
        (''keychain'', fst (keychain_fetch_fetch kr kf ctx k)), (''tpm'', fst (tpm_fetch_fetch ctx t))}" and r: "r = Inl (Err e)"
  note pairs = prod.collapse [of "file_fetch_fetch u fuel fs ff ctx w"] prod.collapse [of "env_fetch_fetch ef ctx vars"]
    prod.collapse [of "keychain_fetch_fetch kr kf ctx k"] prod.collapse [of "tpm_fetch_fetch ctx t"]
  from src r consider "src = file_describe" "fst (file_fetch_fetch u fuel fs ff ctx w) = Inl (Err e)"
    | "src = ''env''" "fst (env_fetch_fetch ef ctx vars) = Inl (Err e)"
    | "src = ''keychain''" "fst (keychain_fetch_fetch kr kf ctx k) = Inl (Err e)"
    | "src = ''tpm''" "fst (tpm_fetch_fetch ctx t) = Inl (Err e)"
    by (auto simp: file_describe_def)
  then show "\<exists>reason. error_display e = ''key acquisition from '' @ src @ '' failed: '' @ reason"
    using pairs by cases (metis file_source.error_message env_source.error_message keychain_source.error_message
        tpm_source.error_message)+
qed

theorem fetch_errors_clean_witness:
  "fst (env_fetch_fetch (env_fetch_new ''K'') (fetch_context_new ''k'') [''K'' \<mapsto> [0xFF]]) =
   fst (env_fetch_fetch (env_fetch_new ''K'') (fetch_context_new ''k'') [''K'' \<mapsto> [0xC3, 0x28]])"
proof -
  have "\<not> utf8_valid [0xFF]" "\<not> utf8_valid [0xC3, 0x28]"
    by (simp_all add: utf8_cont_def)
  then have "fst (env_fetch_fetch (env_fetch_new ''K'') (fetch_context_new ''k'') (Map.empty(var_name (env_fetch_new ''K'') \<mapsto> [0xFF]))) =
      fst (env_fetch_fetch (env_fetch_new ''K'') (fetch_context_new ''k'') (Map.empty(var_name (env_fetch_new ''K'') \<mapsto> [0xC3, 0x28])))"
    by (rule fetch_errors_clean [THEN conjunct1])
  then show ?thesis
    by (simp add: env_fetch_new_def)
qed

end
