(* ===== verification/Tee.thy ===== *)
theory Tee
  imports Prelude
begin

text \<open>
  Detection of trusted execution environments, \<^verbatim>\<open>src/src/tee/\<close>. The target is a parameter (the
  code selects by \<^verbatim>\<open>cfg\<close>), as are the \<^verbatim>\<open>CPUID\<close> instruction and the contents of
  \<^verbatim>\<open>/sys/devices/virtual/dmi/id/sys_vendor\<close>.
\<close>

unbundle bit_operations_syntax

datatype detection = Detected | NotDetected | Unknown

primrec is_detected :: "detection \<Rightarrow> bool" where
  "is_detected Detected = True"
| "is_detected NotDetected = False"
| "is_detected Unknown = False"

primrec detection_display :: "detection \<Rightarrow> string" where
  "detection_display Detected = ''detected''"
| "detection_display NotDetected = ''not detected''"
| "detection_display Unknown = ''unknown''"

record tee_capabilities =
  sgx :: detection
  tdx :: detection
  sev :: detection
  sev_snp :: detection
  trustzone :: detection
  secure_enclave :: detection
  nitro :: detection

definition any_detected :: "tee_capabilities \<Rightarrow> bool" where
  "any_detected c \<longleftrightarrow> is_detected (sgx c) \<or> is_detected (tdx c) \<or> is_detected (sev c) \<or> is_detected (sev_snp c) \<or>
     is_detected (trustzone c) \<or> is_detected (secure_enclave c) \<or> is_detected (nitro c)"

definition tee_display :: "tee_capabilities \<Rightarrow> string" where
  "tee_display c = ''TeeCapabilities { sgx: '' @ detection_display (sgx c) @ '', tdx: '' @ detection_display (tdx c) @
     '', sev: '' @ detection_display (sev c) @ '', sev_snp: '' @ detection_display (sev_snp c) @
     '', trustzone: '' @ detection_display (trustzone c) @ '', secure_enclave: '' @ detection_display (secure_enclave c) @
     '', nitro: '' @ detection_display (nitro c) @ '' }''"

section \<open>Probes on x86\_64\<close>

record cpuid_result =
  eax :: u32
  ebx :: u32
  ecx :: u32
  edx :: u32

type_synonym cpuid = "u32 \<Rightarrow> u32 \<Rightarrow> cpuid_result"

text \<open>A byte string literal \<^verbatim>\<open>b"..."\<close>.\<close>

definition byte_string :: "string \<Rightarrow> bytes" where
  "byte_string s = map (\<lambda>c. of_char c) s"

definition vendor_string :: "cpuid \<Rightarrow> bytes" where
  "vendor_string cpuid = (let leaf0 = cpuid 0 0
     in u32_to_le_bytes (ebx leaf0) @ u32_to_le_bytes (edx leaf0) @ u32_to_le_bytes (ecx leaf0))"

definition is_intel :: "bytes \<Rightarrow> bool" where
  "is_intel vendor \<longleftrightarrow> vendor = byte_string ''GenuineIntel''"

definition is_amd :: "bytes \<Rightarrow> bool" where
  "is_amd vendor \<longleftrightarrow> vendor = byte_string ''AuthenticAMD''"

definition detect_sgx :: "cpuid \<Rightarrow> u32 \<Rightarrow> detection" where
  "detect_sgx cpuid standard_max =
     (if standard_max < 7 then NotDetected
      else if ebx (cpuid 7 0) AND push_bit 2 1 \<noteq> 0 then Detected else NotDetected)"

definition detect_tdx :: "cpuid \<Rightarrow> bytes \<Rightarrow> u32 \<Rightarrow> detection" where
  "detect_tdx cpuid vendor standard_max =
     (if \<not> is_intel vendor then NotDetected
      else if standard_max < 0x21 then NotDetected
      else let leaf = cpuid 0x21 0;
               signature = u32_to_le_bytes (ebx leaf) @ u32_to_le_bytes (edx leaf) @ u32_to_le_bytes (ecx leaf)
           in if signature = byte_string ''IntelTDX    '' then Detected else NotDetected)"

definition detect_sev :: "cpuid \<Rightarrow> bytes \<Rightarrow> detection \<times> detection" where
  "detect_sev cpuid vendor =
     (if \<not> is_amd vendor then (NotDetected, NotDetected)
      else let extended_max = eax (cpuid 0x80000000 0)
           in if extended_max < 0x8000001F then (NotDetected, NotDetected)
              else let leaf = cpuid 0x8000001F 0;
                       s = (if eax leaf AND push_bit 1 1 \<noteq> 0 then Detected else NotDetected);
                       snp = (if eax leaf AND push_bit 4 1 \<noteq> 0 then Detected else NotDetected)
                   in (s, snp))"

definition detect :: "cpuid \<Rightarrow> detection \<times> detection \<times> detection \<times> detection" where
  "detect cpuid =
     (let vendor = vendor_string cpuid; standard_max = eax (cpuid 0 0);
          (s, snp) = detect_sev cpuid vendor
      in (detect_sgx cpuid standard_max, detect_tdx cpuid vendor standard_max, s, snp))"

section \<open>The snapshot\<close>

datatype arch = X86_64 | Aarch64 | OtherArch

datatype target_os = Linux | Macos | OtherOs

text \<open>\<^verbatim>\<open>str::trim\<close> and \<^verbatim>\<open>eq_ignore_ascii_case\<close> on code points.\<close>

definition is_whitespace :: "nat \<Rightarrow> bool" where
  "is_whitespace c \<longleftrightarrow> 9 \<le> c \<and> c \<le> 13 \<or> c = 32 \<or> c = 0x85 \<or> c = 0xA0 \<or> c = 0x1680 \<or> 0x2000 \<le> c \<and> c \<le> 0x200A \<or>
     c = 0x2028 \<or> c = 0x2029 \<or> c = 0x202F \<or> c = 0x205F \<or> c = 0x3000"

definition trim :: "nat list \<Rightarrow> nat list" where
  "trim s = rev (dropWhile is_whitespace (rev (dropWhile is_whitespace s)))"

definition ascii_lower :: "nat \<Rightarrow> nat" where
  "ascii_lower c = (if 65 \<le> c \<and> c \<le> 90 then c + 32 else c)"

definition eq_ignore_ascii_case :: "nat list \<Rightarrow> nat list \<Rightarrow> bool" where
  "eq_ignore_ascii_case a b \<longleftrightarrow> map ascii_lower a = map ascii_lower b"

definition detect_x86_64 :: "arch \<Rightarrow> cpuid \<Rightarrow> detection \<times> detection \<times> detection \<times> detection" where
  "detect_x86_64 a cpuid = (if a = X86_64 then detect cpuid else (Unknown, Unknown, Unknown, Unknown))"

definition detect_trustzone :: "arch \<Rightarrow> detection" where
  "detect_trustzone a = Unknown"

definition detect_secure_enclave :: "target_os \<Rightarrow> arch \<Rightarrow> detection" where
  "detect_secure_enclave os a = (if os = Macos then (if a = Aarch64 then Detected else NotDetected) else Unknown)"

definition detect_nitro :: "target_os \<Rightarrow> nat list option \<Rightarrow> detection" where
  "detect_nitro os sys_vendor =
     (if os \<noteq> Linux then Unknown
      else case sys_vendor of
             Some vendor \<Rightarrow>
               if eq_ignore_ascii_case (trim vendor) (map of_char ''Amazon EC2'') then Detected else NotDetected
           | None \<Rightarrow> Unknown)"

definition detect_tee_capabilities :: "target_os \<Rightarrow> arch \<Rightarrow> cpuid \<Rightarrow> nat list option \<Rightarrow> tee_capabilities" where
  "detect_tee_capabilities os a cpuid sys_vendor =
     (let (s, t, v, snp) = detect_x86_64 a cpuid
      in \<lparr>sgx = s, tdx = t, sev = v, sev_snp = snp, trustzone = detect_trustzone a,
          secure_enclave = detect_secure_enclave os a, nitro = detect_nitro os sys_vendor\<rparr>)"

section \<open>Lemmas\<close>

lemma le_bytes_inject: "u32_to_le_bytes a = u32_to_le_bytes b \<longleftrightarrow> a = b"
  by (metis u32_le_bytes_roundtrip)

lemma bit_test: "(w :: u32) AND push_bit n 1 \<noteq> 0 \<longleftrightarrow> bit w n"
  by (simp add: push_bit_eq_mult and_exp_eq_0_iff_not_bit)

text \<open>The three registers, in the order in which the code strings them together.\<close>

definition regs :: "cpuid_result \<Rightarrow> u32 \<Rightarrow> u32 \<Rightarrow> u32 \<Rightarrow> bool" where
  "regs r b d c \<longleftrightarrow> ebx r = b \<and> edx r = d \<and> ecx r = c"

lemma regs_bytes:
  assumes "byte_string s = u32_to_le_bytes b @ u32_to_le_bytes d @ u32_to_le_bytes c"
  shows "u32_to_le_bytes (ebx r) @ u32_to_le_bytes (edx r) @ u32_to_le_bytes (ecx r) = byte_string s \<longleftrightarrow> regs r b d c"
  unfolding assms by (simp add: regs_def le_bytes_inject)

lemma le_bytes4:
  "u32_to_le_bytes w = [word_of_nat (unat w), word_of_nat (unat w div 256), word_of_nat (unat w div 256 div 256),
     word_of_nat (unat w div 256 div 256 div 256)]"
proof -
  have "(4 :: nat) = Suc (Suc (Suc (Suc 0)))" by simp
  then show ?thesis by (simp only: u32_to_le_bytes_def le_bytes.simps)
qed

lemma vendor_words:
  "byte_string ''GenuineIntel'' = u32_to_le_bytes 0x756E6547 @ u32_to_le_bytes 0x49656E69 @ u32_to_le_bytes 0x6C65746E"
  "byte_string ''AuthenticAMD'' = u32_to_le_bytes 0x68747541 @ u32_to_le_bytes 0x69746E65 @ u32_to_le_bytes 0x444D4163"
  "byte_string ''IntelTDX    '' = u32_to_le_bytes 0x65746E49 @ u32_to_le_bytes 0x5844546C @ u32_to_le_bytes 0x20202020"
  by (simp_all add: byte_string_def le_bytes4)

lemma intel_amd:
  "is_intel (vendor_string cpuid) \<longleftrightarrow> regs (cpuid 0 0) 0x756E6547 0x49656E69 0x6C65746E"
  "is_amd (vendor_string cpuid) \<longleftrightarrow> regs (cpuid 0 0) 0x68747541 0x69746E65 0x444D4163"
  by (simp_all add: is_intel_def is_amd_def vendor_string_def Let_def regs_bytes [OF vendor_words(1)] regs_bytes [OF vendor_words(2)])

section \<open>Properties\<close>

text \<open>(C40) On x86\_64 each probe reports \<^verbatim>\<open>Detected\<close> exactly on its \<^verbatim>\<open>CPUID\<close> signal, read only when the leaf exists (and,
  for TDX and SEV, on the right vendor, recognised by the register values of its name), and never \<^verbatim>\<open>Unknown\<close>; on
  other targets these probes are \<^verbatim>\<open>Unknown\<close>. The documentation of the fields \<^verbatim>\<open>sev\<close> and \<^verbatim>\<open>sev_snp\<close> promises
  \<^verbatim>\<open>Unknown\<close> on Intel hosts too.\<close>

theorem tee_detection:
  shows "(sgx (detect_tee_capabilities os X86_64 cpuid dmi) = Detected \<longleftrightarrow> 7 \<le> eax (cpuid 0 0) \<and> bit (ebx (cpuid 7 0)) 2) \<and>
    (tdx (detect_tee_capabilities os X86_64 cpuid dmi) = Detected \<longleftrightarrow> regs (cpuid 0 0) 0x756E6547 0x49656E69 0x6C65746E \<and> 0x21 \<le> eax (cpuid 0 0) \<and>
      regs (cpuid 0x21 0) 0x65746E49 0x5844546C 0x20202020) \<and>
    (sev (detect_tee_capabilities os X86_64 cpuid dmi) = Detected \<longleftrightarrow> regs (cpuid 0 0) 0x68747541 0x69746E65 0x444D4163 \<and> 0x8000001F \<le> eax (cpuid 0x80000000 0) \<and>
      bit (eax (cpuid 0x8000001F 0)) 1) \<and>
    (sev_snp (detect_tee_capabilities os X86_64 cpuid dmi) = Detected \<longleftrightarrow> regs (cpuid 0 0) 0x68747541 0x69746E65 0x444D4163 \<and> 0x8000001F \<le> eax (cpuid 0x80000000 0) \<and>
      bit (eax (cpuid 0x8000001F 0)) 4) \<and>
    Unknown \<notin> {sgx (detect_tee_capabilities os X86_64 cpuid dmi), tdx (detect_tee_capabilities os X86_64 cpuid dmi), sev (detect_tee_capabilities os X86_64 cpuid dmi), sev_snp (detect_tee_capabilities os X86_64 cpuid dmi)} \<and>
    (\<forall>a. a = X86_64 \<or> (sgx (detect_tee_capabilities os a cpuid dmi) = Unknown \<and>
       tdx (detect_tee_capabilities os a cpuid dmi) = Unknown \<and> sev (detect_tee_capabilities os a cpuid dmi) = Unknown \<and>
       sev_snp (detect_tee_capabilities os a cpuid dmi) = Unknown))"
proof -
  let ?c = "detect_tee_capabilities os X86_64 cpuid dmi"
  obtain s snp where v: "detect_sev cpuid (vendor_string cpuid) = (s, snp)" by (rule prod.exhaust)
  have c: "sgx ?c = detect_sgx cpuid (eax (cpuid 0 0))" "tdx ?c = detect_tdx cpuid (vendor_string cpuid) (eax (cpuid 0 0))"
    "sev ?c = s" "sev_snp ?c = snp"
    by (simp_all add: detect_tee_capabilities_def detect_x86_64_def detect_def v Let_def)
  have "sgx ?c = Detected \<longleftrightarrow> 7 \<le> eax (cpuid 0 0) \<and> bit (ebx (cpuid 7 0)) 2" "sgx ?c \<noteq> Unknown"
    unfolding c detect_sgx_def bit_test by auto
  moreover have "tdx ?c = Detected \<longleftrightarrow> regs (cpuid 0 0) 0x756E6547 0x49656E69 0x6C65746E \<and> 0x21 \<le> eax (cpuid 0 0) \<and>
      regs (cpuid 0x21 0) 0x65746E49 0x5844546C 0x20202020" "tdx ?c \<noteq> Unknown"
    unfolding c detect_tdx_def Let_def regs_bytes [OF vendor_words(3)] intel_amd by (auto simp: not_less)
  moreover have "s = Detected \<longleftrightarrow> regs (cpuid 0 0) 0x68747541 0x69746E65 0x444D4163 \<and> 0x8000001F \<le> eax (cpuid 0x80000000 0) \<and>
      bit (eax (cpuid 0x8000001F 0)) 1" "s \<noteq> Unknown"
    "snp = Detected \<longleftrightarrow> regs (cpuid 0 0) 0x68747541 0x69746E65 0x444D4163 \<and> 0x8000001F \<le> eax (cpuid 0x80000000 0) \<and>
      bit (eax (cpuid 0x8000001F 0)) 4" "snp \<noteq> Unknown"
    using v unfolding detect_sev_def Let_def intel_amd bit_test by (auto simp: not_less split: if_splits)
  moreover have "a = X86_64 \<or> (sgx (detect_tee_capabilities os a cpuid dmi) = Unknown \<and>
       tdx (detect_tee_capabilities os a cpuid dmi) = Unknown \<and> sev (detect_tee_capabilities os a cpuid dmi) = Unknown \<and>
       sev_snp (detect_tee_capabilities os a cpuid dmi) = Unknown)" for a
    by (simp add: detect_tee_capabilities_def detect_x86_64_def)
  ultimately show ?thesis
    unfolding c(3,4) by auto
qed

end
