(* ===== verification/Sync.thy ===== *)
theory Sync
  imports Threads
begin

text \<open>
  The lock and the replaceable pointer of builds without the standard library,
  \<^verbatim>\<open>src/src/sync.rs\<close>: the spin lock \<^verbatim>\<open>Mutex\<close> with its guard, and \<^verbatim>\<open>ArcCell\<close>, whose \<^verbatim>\<open>load\<close> and \<^verbatim>\<open>swap\<close>
  hold that lock for one access. Every atomic operation is one step. With the standard library
  the crate uses \<^verbatim>\<open>std::sync::Mutex\<close> and \<^verbatim>\<open>arc_swap\<close> instead; the theory \<open>Concurrency\<close> takes a load and
  a swap of the registry as single steps, which the property below justifies here.
\<close>

text \<open>\<^verbatim>\<open>ArcCell::load\<close> (also \<^verbatim>\<open>load_full\<close>) and \<^verbatim>\<open>ArcCell::swap\<close>.\<close>

datatype 'a cell_op = Load | Swap 'a

text \<open>The lock word and the value it guards; as a ghost, the accesses so far with their results.\<close>

record 'a spin_mutex =
  sp_locked :: bool
  sp_value :: 'a
  sp_log :: "(nat \<times> 'a cell_op \<times> 'a) list"

definition mutex_new :: "'a \<Rightarrow> 'a spin_mutex" where
  "mutex_new v = \<lparr>sp_locked = False, sp_value = v, sp_log = []\<rparr>"

text \<open>Where a thread is: before the compare-and-exchange, in the inner loop, holding the guard, about to
  drop it, back with a result.\<close>

datatype 'a spin_pc = Out | Trying "'a cell_op" | Spinning "'a cell_op" | Inside "'a cell_op" | Leaving 'a | Back 'a

text \<open>\<^verbatim>\<open>clone\<close> of the pointer, or \<^verbatim>\<open>mem::replace\<close>; both return the old value.\<close>

primrec cell_access :: "'a cell_op \<Rightarrow> 'a \<Rightarrow> 'a \<times> 'a" where
  "cell_access Load v = (v, v)"
| "cell_access (Swap new) v = (v, new)"

text \<open>\<^verbatim>\<open>compare_exchange_weak\<close> may fail although the lock is free.\<close>

inductive spin_step :: "nat \<Rightarrow> 'a spin_mutex \<times> 'a spin_pc \<Rightarrow> 'a spin_mutex \<times> 'a spin_pc \<Rightarrow> bool" for t where
  call: "spin_step t (m, Out) (m, Trying op)"
| exchange: "\<not> sp_locked m \<Longrightarrow> spin_step t (m, Trying op) (m\<lparr>sp_locked := True\<rparr>, Inside op)"
| exchange_failed: "spin_step t (m, Trying op) (m, Spinning op)"
| spin: "sp_locked m \<Longrightarrow> spin_step t (m, Spinning op) (m, Spinning op)"
| retry: "\<not> sp_locked m \<Longrightarrow> spin_step t (m, Spinning op) (m, Trying op)"
| access: "cell_access op (sp_value m) = (old, new) \<Longrightarrow>
    spin_step t (m, Inside op) (m\<lparr>sp_value := new, sp_log := sp_log m @ [(t, op, old)]\<rparr>, Leaving old)"
| drop: "spin_step t (m, Leaving r) (m\<lparr>sp_locked := False\<rparr>, Back r)"
| return: "spin_step t (m, Back r) (m, Out)"

abbreviation "spin_run v0 \<equiv> threads_run (\<lambda>m. m = mutex_new v0) Out spin_step"

section \<open>Specification\<close>

fun cell_replay :: "(nat \<times> 'a cell_op \<times> 'a) list \<Rightarrow> 'a \<Rightarrow> 'a" where
  "cell_replay [] v = v"
| "cell_replay ((t, op, r) # ops) v = cell_replay ops (snd (cell_access op v))"

fun cell_legal :: "(nat \<times> 'a cell_op \<times> 'a) list \<Rightarrow> 'a \<Rightarrow> bool" where
  "cell_legal [] v \<longleftrightarrow> True"
| "cell_legal ((t, op, r) # ops) v \<longleftrightarrow> r = fst (cell_access op v) \<and> cell_legal ops (snd (cell_access op v))"

lemma cell_replay_append: "cell_replay (xs @ ys) v = cell_replay ys (cell_replay xs v)"
  by (induction xs arbitrary: v) auto

lemma cell_legal_append: "cell_legal (xs @ ys) v \<longleftrightarrow> cell_legal xs v \<and> cell_legal ys (cell_replay xs v)"
  by (induction xs arbitrary: v) auto

definition last_result :: "nat \<Rightarrow> (nat \<times> 'a cell_op \<times> 'a) list \<Rightarrow> 'a option" where
  "last_result t ops = (case filter (\<lambda>(u, op, r). u = t) (rev ops) of [] \<Rightarrow> None | (u, op, r) # x \<Rightarrow> Some r)"

lemma last_result_snoc [simp]: "last_result t (ops @ [(u, op, r)]) = (if u = t then Some r else last_result t ops)"
  by (simp add: last_result_def)

section \<open>The invariant\<close>

primrec guards :: "'a spin_pc \<Rightarrow> bool" where
  "guards Out = False"
| "guards (Trying op) = False"
| "guards (Spinning op) = False"
| "guards (Inside op) = True"
| "guards (Leaving r) = True"
| "guards (Back r) = False"

primrec result_ok :: "'a spin_pc \<Rightarrow> nat \<Rightarrow> 'a spin_mutex \<Rightarrow> bool" where
  "result_ok Out t m = True"
| "result_ok (Trying op) t m = True"
| "result_ok (Spinning op) t m = True"
| "result_ok (Inside op) t m = True"
| "result_ok (Leaving r) t m = (last_result t (sp_log m) = Some r)"
| "result_ok (Back r) t m = (last_result t (sp_log m) = Some r)"

definition spin_inv :: "'a \<Rightarrow> 'a spin_mutex \<Rightarrow> (nat \<Rightarrow> 'a spin_pc) \<Rightarrow> bool" where
  "spin_inv v0 m p \<longleftrightarrow> (\<forall>t u. guards (p t) \<longrightarrow> guards (p u) \<longrightarrow> t = u) \<and> (sp_locked m \<longleftrightarrow> (\<exists>t. guards (p t))) \<and>
     (\<forall>t. result_ok (p t) t m) \<and> sp_value m = cell_replay (sp_log m) v0 \<and> cell_legal (sp_log m) v0"

lemma result_ok_frame:
  "result_ok q u m \<Longrightarrow> last_result u (sp_log m') = last_result u (sp_log m) \<Longrightarrow> result_ok q u m'"
  by (cases q) simp_all

lemma spin_step_inv:
  assumes "spin_inv v0 m p" "spin_step t (m, p t) (m', q)"
  shows "spin_inv v0 m' (p(t := q))"
proof -
  have u: "guards (p a) \<Longrightarrow> guards (p b) \<Longrightarrow> a = b" and l: "sp_locked m \<longleftrightarrow> (\<exists>t. guards (p t))"
    and r: "result_ok (p a) a m" and v: "sp_value m = cell_replay (sp_log m) v0" "cell_legal (sp_log m) v0" for a b
    using assms(1) unfolding spin_inv_def by blast+
  have others: "result_ok ((p(t := q)) a) a m'" if "result_ok q t m'" "\<And>a. a \<noteq> t \<Longrightarrow> last_result a (sp_log m') = last_result a (sp_log m)" for a
    using that result_ok_frame [OF r [of a]] by (cases "a = t") simp_all
  have silent: "spin_inv v0 m (p(t := q))" if "\<not> guards (p t)" "\<not> guards q" "result_ok q t m"
  proof -
    have "guards ((p(t := q)) a) \<longleftrightarrow> guards (p a)" for a
      using that by (cases "a = t") simp_all
    moreover have "result_ok ((p(t := q)) a) a m" for a
      using that r [of a] by (cases "a = t") simp_all
    ultimately show ?thesis
      unfolding spin_inv_def using u l v by blast
  qed
  from assms(2) show ?thesis
  proof cases
    case (exchange op)
    have "\<not> guards (p a)" for a using l exchange by blast
    then show ?thesis
      unfolding spin_inv_def using exchange v others by auto
  next
    case (access op old new)
    have g: "guards (p t)" using access by (metis guards.simps(4))
    then have "guards (p a) \<longleftrightarrow> a = t" for a using u by blast
    moreover have "sp_locked m" using l g by blast
    ultimately show ?thesis
      unfolding spin_inv_def using access v others by (auto simp: cell_replay_append cell_legal_append)
  next
    case (drop r)
    have g: "guards (p t)" using drop by (metis guards.simps(5))
    then have "guards (p a) \<longleftrightarrow> a = t" for a using u by blast
    then show ?thesis
      unfolding spin_inv_def using drop v others r [of t] by auto
  qed (use silent in simp_all)
qed

lemma spin_run_inv: "spin_run v0 m p \<Longrightarrow> spin_inv v0 m p"
proof (induction rule: threads_run.induct)
  case (first m)
  then show ?case by (simp add: spin_inv_def mutex_new_def)
next
  case (step m p t m' q)
  then show ?case by (blast intro: spin_step_inv)
qed

lemma guard_moves:
  assumes "guards q"
  shows "\<exists>m' q'. spin_step u (m, q) (m', q')"
proof (cases q)
  case (Inside op)
  obtain old new where "cell_access op (sp_value m) = (old, new)" by (rule prod.exhaust)
  from spin_step.access [OF this, of u] show ?thesis
    unfolding Inside by (intro exI)
next
  case (Leaving r)
  show ?thesis
    unfolding Leaving by (intro exI) (rule spin_step.drop)
qed (use assms in simp_all)

lemma free_lock_taken:
  assumes "\<not> sp_locked m" "q = Trying op \<or> q = Spinning op"
  shows "(spin_step t)\<^sup>*\<^sup>* (m, q) (m\<lparr>sp_locked := True\<rparr>, Inside op)"
proof -
  have e: "spin_step t (m, Trying op) (m\<lparr>sp_locked := True\<rparr>, Inside op)"
    by (rule spin_step.exchange [OF assms(1)])
  have r: "spin_step t (m, Spinning op) (m, Trying op)"
    by (rule spin_step.retry [OF assms(1)])
  show ?thesis
    using assms(2) e r by (auto intro: converse_rtranclp_into_rtranclp)
qed

section \<open>Properties\<close>

text \<open>(C17) \<^verbatim>\<open>ArcCell\<close> over the spin lock is linearizable and never stuck: in every interleaving at most one thread has the
  guard; the value is the result of the swaps in the order of their accesses, and every load or swap returned
  the value of its moment; and a thread that waits can take the lock by itself when it is free, and otherwise
  the thread that has it can go on.\<close>

theorem arc_cell_linearizable:
  assumes "spin_run v0 m p"
  shows "sp_value m = cell_replay (sp_log m) v0 \<and> cell_legal (sp_log m) v0 \<and>
    (\<forall>t r. p t = Back r \<longrightarrow> last_result t (sp_log m) = Some r) \<and>
    (\<forall>t u. guards (p t) \<longrightarrow> guards (p u) \<longrightarrow> t = u) \<and>
    (\<forall>t op. p t = Trying op \<or> p t = Spinning op \<longrightarrow>
      (\<exists>u m' q. guards (p u) \<and> spin_step u (m, p u) (m', q)) \<or>
      (spin_step t)\<^sup>*\<^sup>* (m, p t) (m\<lparr>sp_locked := True\<rparr>, Inside op))"
proof -
  have i: "spin_inv v0 m p" by (rule spin_run_inv [OF assms])
  have "last_result t (sp_log m) = Some r" if "p t = Back r" for t r
    using i that unfolding spin_inv_def by (metis result_ok.simps(6))
  moreover have "(\<exists>u m' q. guards (p u) \<and> spin_step u (m, p u) (m', q)) \<or>
      (spin_step t)\<^sup>*\<^sup>* (m, p t) (m\<lparr>sp_locked := True\<rparr>, Inside op)" if w: "p t = Trying op \<or> p t = Spinning op" for t op
  proof (cases "sp_locked m")
    case True
    then obtain u where "guards (p u)" using i by (auto simp: spin_inv_def)
    then show ?thesis using guard_moves by blast
  next
    case False
    then show ?thesis using free_lock_taken [OF False w] by blast
  qed
  ultimately show ?thesis
    using i unfolding spin_inv_def by blast
qed

theorem arc_cell_linearizable_witness:
  "\<exists>m p. spin_run (5 :: nat) m p \<and> p 0 = Back 5 \<and> sp_value m = 7 \<and> last_result 0 (sp_log m) = Some 5"
proof -
  have 0: "spin_run (5 :: nat) (mutex_new 5) (\<lambda>t. Out)" by (simp add: threads_run.first)
  note step = threads_run.step [where t = 0 and step = spin_step]
  have 1: "spin_run (5 :: nat) (mutex_new 5) ((\<lambda>t. Out)(0 := Trying (Swap 7)))"
    by (rule step [OF 0 spin_step.call])
  have 2: "spin_run 5 ((mutex_new 5)\<lparr>sp_locked := True\<rparr>) ((\<lambda>t. Out)(0 := Trying (Swap 7), 0 := Inside (Swap (7 :: nat))))"
    by (rule step [OF 1]) (simp, rule spin_step.exchange, simp add: mutex_new_def)
  have 3: "spin_run 5 \<lparr>sp_locked = True, sp_value = 7, sp_log = [(0, Swap 7, 5)]\<rparr>
      ((\<lambda>t. Out)(0 := Inside (Swap 7), 0 := Leaving (5 :: nat)))"
    using step [OF 2, of _ "Leaving 5"] spin_step.access [of "Swap 7" "(mutex_new 5)\<lparr>sp_locked := True\<rparr>" 5 7 0]
    by (simp add: mutex_new_def)
  have 4: "spin_run 5 \<lparr>sp_locked = False, sp_value = 7, sp_log = [(0, Swap 7, 5)]\<rparr> ((\<lambda>t. Out)(0 := Back (5 :: nat)))"
    using step [OF 3, of _ "Back 5"] spin_step.drop [of 0 "\<lparr>sp_locked = True, sp_value = 7, sp_log = [(0, Swap 7, 5)]\<rparr>" 5]
    by simp
  have "last_result 0 [(0, Swap 7, 5 :: nat)] = Some 5"
    using arc_cell_linearizable [OF 4, THEN conjunct2, THEN conjunct2, THEN conjunct1, rule_format, of 0 5] by simp
  with 4 show ?thesis
    by (intro exI [of _ "\<lparr>sp_locked = False, sp_value = 7, sp_log = [(0, Swap 7, 5)]\<rparr>"] exI [of _ "(\<lambda>t. Out)(0 := Back 5)"]) simp
qed

end
