(* ===== verification/Sharing.thy ===== *)
theory Sharing
  imports Concurrency
begin

text \<open>
  Readers and writers on shared key storage (\<^verbatim>\<open>src/src/vault/mod.rs\<close>, \<^verbatim>\<open>src/src/fragment/mod.rs\<close>). The maps of
  the registry and the fragment storages are behind reference-counted pointers: \<^verbatim>\<open>with_key\<close> loads the current
  map, shares the storage of one entry, lets the map go and reads the storage while other threads rotate or
  remove the key; a writer copies the map, sharing every storage, and swaps the copy in. The last reference
  frees: a map drops the references of its entries, a page-protected storage is wiped and unmapped. Here the
  counts are explicit, every change of a count is one step, and an access to something freed raises \<open>ar_fault\<close>.
\<close>

section \<open>Counted pointers\<close>

text \<open>Maps and storages by number, each with its count; the map that the vault points to; the writer lock. As
  ghosts, the fragments each storage was made from, the bytes left in pages given back, and the fault flag.\<close>

record 'w arcs =
  ar_maps :: "nat \<Rightarrow> reg_map option"
  ar_map_refs :: "nat \<Rightarrow> nat"
  ar_next_map :: nat
  ar_current :: nat
  ar_regions :: regions
  ar_refs :: "nat \<Rightarrow> nat"
  ar_next :: nat
  ar_writer :: "nat option"
  ar_world :: 'w
  ar_made :: "nat \<Rightarrow> storage \<times> fragments"
  ar_left :: "bytes list"
  ar_fault :: bool

primrec storage_ids :: "storage \<Rightarrow> nat list" where
  "storage_ids (Heap fr) = []"
| "storage_ids (Region r sizes l n) = [r]"

definition map_ids :: "reg_map \<Rightarrow> nat list" where
  "map_ids m = concat (map (\<lambda>(i, e). storage_ids (ke_fragments e)) m)"

text \<open>\<^verbatim>\<open>Arc::clone\<close> and \<^verbatim>\<open>drop\<close> of a storage (\<^verbatim>\<open>Fragments::share\<close>).\<close>

definition store_share :: "nat \<Rightarrow> 'w arcs \<Rightarrow> 'w arcs" where
  "store_share r s =
     (if ar_regions s r = None then s\<lparr>ar_fault := True\<rparr> else s\<lparr>ar_refs := (ar_refs s)(r := ar_refs s r + 1)\<rparr>)"

definition store_release :: "'w os \<Rightarrow> nat \<Rightarrow> 'w arcs \<Rightarrow> 'w arcs" where
  "store_release os r s =
     (case ar_regions s r of
        None \<Rightarrow> s\<lparr>ar_fault := True\<rparr>
      | Some g \<Rightarrow>
          if ar_refs s r = 1
          then (case guarded_drop os g (ar_world s) of
                  (left, w) \<Rightarrow> s\<lparr>ar_regions := (ar_regions s)(r := None), ar_refs := (ar_refs s)(r := 0),
                                 ar_left := ar_left s @ [left], ar_world := w\<rparr>)
          else s\<lparr>ar_refs := (ar_refs s)(r := ar_refs s r - 1)\<rparr>)"

text \<open>The same for a map. Dropping the last reference yields those of its entries, to be dropped next.\<close>

definition map_share :: "nat \<Rightarrow> 'w arcs \<Rightarrow> 'w arcs" where
  "map_share m s =
     (if ar_maps s m = None then s\<lparr>ar_fault := True\<rparr>
      else s\<lparr>ar_map_refs := (ar_map_refs s)(m := ar_map_refs s m + 1)\<rparr>)"

definition map_release :: "nat \<Rightarrow> 'w arcs \<Rightarrow> nat list \<times> 'w arcs" where
  "map_release m s =
     (case ar_maps s m of
        None \<Rightarrow> ([], s\<lparr>ar_fault := True\<rparr>)
      | Some es \<Rightarrow>
          if ar_map_refs s m = 1
          then (map_ids es, s\<lparr>ar_maps := (ar_maps s)(m := None), ar_map_refs := (ar_map_refs s)(m := 0)\<rparr>)
          else ([], s\<lparr>ar_map_refs := (ar_map_refs s)(m := ar_map_refs s m - 1)\<rparr>))"

text \<open>\<^verbatim>\<open>ArcSwap::swap\<close> with a new map: the reference the vault had to the old one goes to the caller.\<close>

definition map_swap :: "reg_map \<Rightarrow> 'w arcs \<Rightarrow> 'w arcs" where
  "map_swap new s =
     s\<lparr>ar_maps := (ar_maps s)(ar_next_map s \<mapsto> new), ar_map_refs := (ar_map_refs s)(ar_next_map s := 1),
       ar_current := ar_next_map s, ar_next_map := Suc (ar_next_map s)\<rparr>"

text \<open>The storage an operation brings along, and the one that its change takes out of the copied map.\<close>

fun op_ids :: "reg_op \<Rightarrow> nat list" where
  "op_ids (Install i e) = storage_ids (ke_fragments e)"
| "op_ids (Replace i st md) = storage_ids st"
| "op_ids op = []"

definition removed_at :: "key_id \<Rightarrow> reg_map \<Rightarrow> nat list" where
  "removed_at i es = (case kv_get i es of Some e \<Rightarrow> storage_ids (ke_fragments e) | None \<Rightarrow> [])"

fun op_removed :: "reg_op \<Rightarrow> reg_map \<Rightarrow> nat list" where
  "op_removed (Install i e) es = removed_at i es"
| "op_removed (Replace i st md) es = removed_at i es"
| "op_removed (Remove i) es = removed_at i es"
| "op_removed op es = []"

section \<open>Threads\<close>

text \<open>
  Where a thread is. Of \<^verbatim>\<open>with_key\<close>: with a snapshot; with a share as well; with the share, dropping what the
  snapshot left; with the storage open; with the fragments read; closed again. Of an update: prepared; with
  the lock; with the loaded map; sharing its storages one by one (still to do, done); with the edited copy;
  about to let the loaded map go; about to unlock. Of both: dropping maps and storages.
\<close>

datatype arc_pc =
    AIdle
  | ASnapshot key_id nat
  | AShared nat storage
  | AOwning storage "nat list"
  | AReading storage
  | ARead storage fragments
  | AClosed storage fragments
  | AReady reg_op
  | AHolding reg_op
  | ALoaded reg_op nat
  | ACopying reg_op nat "nat list" "nat list"
  | AEdited nat reg_map
  | ALeaving nat "nat list" "nat list"
  | AUnlocking "nat list" "nat list"
  | ADropping "nat list" "nat list"

text \<open>The fragmentation that makes a storage, and the lockouts, are any value here: a call refused there goes
  through \<open>refused\<close>. With page protection off (\<open>prepare_heap\<close>) the storage is on the heap and is not followed.\<close>

inductive arc_step :: "'w os \<Rightarrow> nat \<Rightarrow> 'w arcs \<times> arc_pc \<Rightarrow> 'w arcs \<times> arc_pc \<Rightarrow> bool" for os t where
  snapshot: "arc_step os t (s, AIdle) (map_share (ar_current s) s, ASnapshot i (ar_current s))"
| dangling: "ar_maps s m = None \<Longrightarrow> arc_step os t (s, ASnapshot i m) (s\<lparr>ar_fault := True\<rparr>, ADropping [m] [])"
| missing: "ar_maps s m = Some es \<Longrightarrow> kv_get i es = None \<Longrightarrow> arc_step os t (s, ASnapshot i m) (s, ADropping [m] [])"
| refused: "arc_step os t (s, ASnapshot i m) (s, ADropping [m] [])"
| share: "ar_maps s m = Some es \<Longrightarrow> kv_get i es = Some e \<Longrightarrow>
    arc_step os t (s, ASnapshot i m) (fold store_share (storage_ids (ke_fragments e)) s, AShared m (ke_fragments e))"
| drop_snapshot: "map_release m s = (rs, s') \<Longrightarrow> arc_step os t (s, AShared m st) (s', AOwning st rs)"
| drop_more: "arc_step os t (s, AOwning st (r # rs)) (store_release os r s, AOwning st rs)"
| open_ok: "storage_open os (ar_regions s) st (ar_world s) = (Inr g, w) \<Longrightarrow>
    arc_step os t (s, AOwning st []) (s\<lparr>ar_regions := g, ar_world := w\<rparr>, AReading st)"
| open_err: "storage_open os (ar_regions s) st (ar_world s) = (Inl e, w) \<Longrightarrow>
    arc_step os t (s, AOwning st [])
      (s\<lparr>ar_world := w, ar_fault := (ar_fault s \<or> e = Segfault)\<rparr>, ADropping [] (storage_ids st))"
| read: "load (ar_regions s) st = Inr fr \<Longrightarrow> arc_step os t (s, AReading st) (s, ARead st fr)"
| segfault: "load (ar_regions s) st = Inl e \<Longrightarrow> arc_step os t (s, AReading st) (s\<lparr>ar_fault := True\<rparr>, AReading st)"
| close: "storage_close os (ar_regions s) st (ar_world s) = (g, w) \<Longrightarrow>
    arc_step os t (s, ARead st fr) (s\<lparr>ar_regions := g, ar_world := w\<rparr>, AClosed st fr)"
| finished: "arc_step os t (s, AClosed st fr) (s, ADropping [] (storage_ids st))"
| prepare: "into_protected os (ar_next s) (ar_regions s) fr (ar_world s) = (Inr (st, g), w) \<Longrightarrow> layout_start fr = 0 \<Longrightarrow>
    op = Install i \<lparr>ke_name = n, ke_fragments = st, ke_metadata = md\<rparr> \<or> op = Replace i st md \<Longrightarrow>
    arc_step os t (s, AIdle)
      (s\<lparr>ar_regions := g, ar_refs := (ar_refs s)(ar_next s := 1), ar_made := (ar_made s)(ar_next s := (st, fr)),
         ar_next := Suc (ar_next s), ar_world := w\<rparr>, AReady op)"
| prepare_heap: "op = Install i \<lparr>ke_name = n, ke_fragments = Heap fr, ke_metadata = md\<rparr> \<or> op = Replace i (Heap fr) md \<Longrightarrow>
    arc_step os t (s, AIdle) (s, AReady op)"
| unregister: "arc_step os t (s, AIdle) (s, AReady (Remove i))"
| lock: "ar_writer s = None \<Longrightarrow> arc_step os t (s, AReady op) (s\<lparr>ar_writer := Some t\<rparr>, AHolding op)"
| load_full: "arc_step os t (s, AHolding op) (map_share (ar_current s) s, ALoaded op (ar_current s))"
| refuse: "ar_maps s m = Some es \<Longrightarrow> under_lock op es = (out, None) \<Longrightarrow>
    arc_step os t (s, ALoaded op m) (s, ALeaving m [] (op_ids op))"
| copy: "ar_maps s m = Some es \<Longrightarrow> under_lock op es = (out, Some new) \<Longrightarrow>
    arc_step os t (s, ALoaded op m) (s, ACopying op m (map_ids es) [])"
| clone: "arc_step os t (s, ACopying op m (r # todo) rs) (store_share r s, ACopying op m todo (r # rs))"
| edit: "ar_maps s m = Some es \<Longrightarrow> under_lock op es = (out, Some new) \<Longrightarrow>
    arc_step os t (s, ACopying op m [] rs) (fold (store_release os) (op_removed op es) s, AEdited m new)"
| swap: "arc_step os t (s, AEdited m new) (map_swap new s, ALeaving m [ar_current s] [])"
| leave: "map_release m s = (rs', s') \<Longrightarrow> arc_step os t (s, ALeaving m ms rs) (s', AUnlocking ms (rs' @ rs))"
| unlock: "arc_step os t (s, AUnlocking ms rs) (s\<lparr>ar_writer := None\<rparr>, ADropping ms rs)"
| drop_store: "arc_step os t (s, ADropping ms (r # rs)) (store_release os r s, ADropping ms rs)"
| drop_map: "map_release m s = (rs, s') \<Longrightarrow> arc_step os t (s, ADropping (m # ms) []) (s', ADropping ms rs)"
| returned: "arc_step os t (s, ADropping [] []) (s, AIdle)"

text \<open>A vault starts with an empty map, number 0; any number of threads.\<close>

definition arcs_new :: "'w \<Rightarrow> 'w arcs" where
  "arcs_new w = \<lparr>ar_maps = [0 \<mapsto> []], ar_map_refs = (\<lambda>m. if m = 0 then 1 else 0), ar_next_map = 1, ar_current = 0,
     ar_regions = Map.empty, ar_refs = (\<lambda>r. 0), ar_next = 0, ar_writer = None, ar_world = w,
     ar_made = (\<lambda>r. (Heap (from_parts [] [] 0), from_parts [] [] 0)), ar_left = [], ar_fault = False\<rparr>"

inductive arc_run :: "'w os \<Rightarrow> 'w \<Rightarrow> 'w arcs \<Rightarrow> arc_pc list \<Rightarrow> bool" for os w0 where
  start: "arc_run os w0 (arcs_new w0) (replicate n AIdle)"
| step: "arc_run os w0 s ps \<Longrightarrow> t < length ps \<Longrightarrow> arc_step os t (s, ps ! t) (s', q) \<Longrightarrow> arc_run os w0 s' (ps[t := q])"

section \<open>What the threads hold\<close>

primrec held_maps :: "arc_pc \<Rightarrow> nat multiset" where
  "held_maps AIdle = {#}"
| "held_maps (ASnapshot i m) = {#m#}"
| "held_maps (AShared m st) = {#m#}"
| "held_maps (AOwning st rs) = {#}"
| "held_maps (AReading st) = {#}"
| "held_maps (ARead st fr) = {#}"
| "held_maps (AClosed st fr) = {#}"
| "held_maps (AReady op) = {#}"
| "held_maps (AHolding op) = {#}"
| "held_maps (ALoaded op m) = {#m#}"
| "held_maps (ACopying op m todo rs) = {#m#}"
| "held_maps (AEdited m new) = {#m#}"
| "held_maps (ALeaving m ms rs) = {#m#} + mset ms"
| "held_maps (AUnlocking ms rs) = mset ms"
| "held_maps (ADropping ms rs) = mset ms"

primrec held_ids :: "arc_pc \<Rightarrow> nat multiset" where
  "held_ids AIdle = {#}"
| "held_ids (ASnapshot i m) = {#}"
| "held_ids (AShared m st) = mset (storage_ids st)"
| "held_ids (AOwning st rs) = mset (storage_ids st) + mset rs"
| "held_ids (AReading st) = mset (storage_ids st)"
| "held_ids (ARead st fr) = mset (storage_ids st)"
| "held_ids (AClosed st fr) = mset (storage_ids st)"
| "held_ids (AReady op) = mset (op_ids op)"
| "held_ids (AHolding op) = mset (op_ids op)"
| "held_ids (ALoaded op m) = mset (op_ids op)"
| "held_ids (ACopying op m todo rs) = mset (op_ids op) + mset rs"
| "held_ids (AEdited m new) = mset (map_ids new)"
| "held_ids (ALeaving m ms rs) = mset rs"
| "held_ids (AUnlocking ms rs) = mset rs"
| "held_ids (ADropping ms rs) = mset rs"

primrec held_guards :: "arc_pc \<Rightarrow> nat multiset" where
  "held_guards AIdle = {#}"
| "held_guards (ASnapshot i m) = {#}"
| "held_guards (AShared m st) = {#}"
| "held_guards (AOwning st rs) = {#}"
| "held_guards (AReading st) = mset (storage_ids st)"
| "held_guards (ARead st fr) = mset (storage_ids st)"
| "held_guards (AClosed st fr) = {#}"
| "held_guards (AReady op) = {#}"
| "held_guards (AHolding op) = {#}"
| "held_guards (ALoaded op m) = {#}"
| "held_guards (ACopying op m todo rs) = {#}"
| "held_guards (AEdited m new) = {#}"
| "held_guards (ALeaving m ms rs) = {#}"
| "held_guards (AUnlocking ms rs) = {#}"
| "held_guards (ADropping ms rs) = {#}"

lemma guards_held: "held_guards p \<subseteq># held_ids p"
  by (cases p) simp_all

text \<open>One thread's part of what all hold.\<close>

definition all_held :: "(arc_pc \<Rightarrow> nat multiset) \<Rightarrow> arc_pc list \<Rightarrow> nat multiset" where
  "all_held f ps = sum_list (map f ps)"

definition rest_held :: "(arc_pc \<Rightarrow> nat multiset) \<Rightarrow> arc_pc list \<Rightarrow> nat \<Rightarrow> nat multiset" where
  "rest_held f ps t = all_held f (take t ps) + all_held f (drop (Suc t) ps)"

lemma all_held_split:
  assumes "t < length ps"
  shows "all_held f ps = rest_held f ps t + f (ps ! t)" "all_held f (ps[t := q]) = rest_held f ps t + f q"
proof -
  have "ps = take t ps @ ps ! t # drop (Suc t) ps"
    by (rule id_take_nth_drop [OF assms])
  then have "sum_list (map f ps) = sum_list (map f (take t ps @ ps ! t # drop (Suc t) ps))"
    by simp
  then show "all_held f ps = rest_held f ps t + f (ps ! t)"
    by (simp add: rest_held_def all_held_def ac_simps)
  show "all_held f (ps[t := q]) = rest_held f ps t + f q"
    by (simp add: rest_held_def all_held_def upd_conv_take_nth_drop [OF assms] ac_simps)
qed

lemma all_held_member: "p \<in> set ps \<Longrightarrow> f p \<subseteq># all_held f ps"
  by (induction ps) (auto simp: all_held_def intro: subset_mset.order_trans)

lemma rest_guards: "rest_held held_guards ps t \<subseteq># rest_held held_ids ps t"
proof -
  have "all_held held_guards qs \<subseteq># all_held held_ids qs" for qs
    by (induction qs) (simp_all add: all_held_def subset_mset.add_mono guards_held)
  then show ?thesis
    by (simp add: rest_held_def subset_mset.add_mono)
qed

section \<open>The invariant\<close>

text \<open>The counts of the maps; the counts of the storages, over all live maps and all threads; the regions.\<close>

definition map_total :: "'w arcs \<Rightarrow> nat \<Rightarrow> nat" where
  "map_total s r = (\<Sum>k<ar_next_map s. case ar_maps s k of None \<Rightarrow> 0 | Some es \<Rightarrow> count (mset (map_ids es)) r)"

definition maps_inv :: "'w arcs \<Rightarrow> nat multiset \<Rightarrow> bool" where
  "maps_inv s M \<longleftrightarrow> (\<forall>m. ar_map_refs s m = (if m = ar_current s then 1 else 0) + count M m \<and>
     (ar_maps s m = None \<longleftrightarrow> ar_map_refs s m = 0) \<and> (ar_maps s m \<noteq> None \<longrightarrow> m < ar_next_map s))"

definition refs_inv :: "'w arcs \<Rightarrow> nat multiset \<Rightarrow> bool" where
  "refs_inv s R \<longleftrightarrow> (\<forall>r. ar_refs s r = map_total s r + count R r \<and> (ar_regions s r = None \<longleftrightarrow> ar_refs s r = 0) \<and>
     (ar_regions s r \<noteq> None \<longrightarrow> r < ar_next s))"

definition region_good :: "'w os \<Rightarrow> 'w arcs \<Rightarrow> nat \<Rightarrow> guarded_region \<Rightarrow> nat \<Rightarrow> bool" where
  "region_good os s r g n \<longleftrightarrow> readers g = n \<and> (0 < n \<longrightarrow> prot g \<noteq> NoAccess) \<and>
     (protect_total os \<longrightarrow> n = 0 \<longrightarrow> prot g = NoAccess) \<and>
     (\<exists>sizes l k. fst (ar_made s r) = Region r sizes l k) \<and>
     (\<exists>fr. contents [r \<mapsto> g] (fst (ar_made s r)) = Some fr \<and> same_view fr (snd (ar_made s r)))"

definition storage_ok :: "'w arcs \<Rightarrow> storage \<Rightarrow> bool" where
  "storage_ok s st = (case st of Heap fr \<Rightarrow> True | Region r sizes l n \<Rightarrow> r < ar_next s \<and> fst (ar_made s r) = st)"

definition map_ok :: "'w arcs \<Rightarrow> reg_map \<Rightarrow> bool" where
  "map_ok s es \<longleftrightarrow> names_inv es \<and> (\<forall>(i, e)\<in>set es. storage_ok s (ke_fragments e))"

definition arc_inv :: "'w os \<Rightarrow> 'w arcs \<Rightarrow> nat multiset \<Rightarrow> nat multiset \<Rightarrow> nat multiset \<Rightarrow> bool" where
  "arc_inv os s M R G \<longleftrightarrow> maps_inv s M \<and> refs_inv s R \<and> G \<subseteq># R \<and>
     (\<forall>r g. ar_regions s r = Some g \<longrightarrow> region_good os s r g (count G r)) \<and>
     (\<forall>m es. ar_maps s m = Some es \<longrightarrow> map_ok s es) \<and> \<not> ar_fault s \<and>
     (protect_total os \<longrightarrow> (\<forall>x\<in>set (ar_left s). set x \<subseteq> {0}))"

lemma maps_invD:
  assumes "maps_inv s M"
  shows "ar_map_refs s m = (if m = ar_current s then 1 else 0) + count M m"
    "ar_maps s m = None \<longleftrightarrow> ar_map_refs s m = 0" "ar_maps s m = Some es \<Longrightarrow> m < ar_next_map s"
  using assms unfolding maps_inv_def by (blast, blast, force)

lemma refs_invD:
  assumes "refs_inv s R"
  shows "ar_refs s r = map_total s r + count R r" "ar_regions s r = None \<longleftrightarrow> ar_refs s r = 0"
    "ar_regions s r = Some g \<Longrightarrow> r < ar_next s"
  using assms unfolding refs_inv_def by (blast, blast, force)

lemma arc_invD:
  assumes "arc_inv os s M R G"
  shows "maps_inv s M" "refs_inv s R" "G \<subseteq># R" "\<not> ar_fault s"
    "ar_regions s r = Some g \<Longrightarrow> region_good os s r g (count G r)" "ar_maps s m = Some es \<Longrightarrow> map_ok s es"
    "protect_total os \<Longrightarrow> x \<in> set (ar_left s) \<Longrightarrow> set x \<subseteq> {0}"
  using assms unfolding arc_inv_def by blast+

lemma arc_invI:
  assumes "maps_inv s M" "refs_inv s R" "G \<subseteq># R" "\<not> ar_fault s"
    "\<And>r g. ar_regions s r = Some g \<Longrightarrow> region_good os s r g (count G r)" "\<And>m es. ar_maps s m = Some es \<Longrightarrow> map_ok s es"
    "\<And>x. protect_total os \<Longrightarrow> x \<in> set (ar_left s) \<Longrightarrow> set x \<subseteq> {0}"
  shows "arc_inv os s M R G"
  using assms unfolding arc_inv_def by blast

text \<open>Everything held or pointed to is live.\<close>

lemma map_live:
  assumes "maps_inv s M" "m = ar_current s \<or> m \<in># M"
  shows "\<exists>es. ar_maps s m = Some es"
  using maps_invD(1,2) [OF assms(1), of m] assms(2)
  by (cases "ar_maps s m") (auto simp: count_eq_zero_iff split: if_splits)

lemma map_total_pos:
  assumes "maps_inv s M" "ar_maps s m = Some es" "r \<in> set (map_ids es)"
  shows "0 < map_total s r"
proof -
  have m: "m \<in> {..<ar_next_map s}"
    using maps_invD(3) [OF assms(1)] assms(2) by simp
  have "0 < (case ar_maps s m of None \<Rightarrow> 0 | Some es \<Rightarrow> count (mset (map_ids es)) r)"
    using assms(2,3) by simp
  then show ?thesis
    unfolding map_total_def using m by (intro sum_pos2 [of _ m]) simp_all
qed

lemma store_live:
  assumes "maps_inv s M" "refs_inv s R" "r \<in># R \<or> (\<exists>m es. ar_maps s m = Some es \<and> r \<in> set (map_ids es))"
  shows "\<exists>g. ar_regions s r = Some g" "0 < ar_refs s r"
proof -
  show "0 < ar_refs s r"
    using refs_invD(1) [OF assms(2), of r] assms(3) map_total_pos [OF assms(1)] by auto
  then show "\<exists>g. ar_regions s r = Some g"
    using refs_invD(2) [OF assms(2), of r] by auto
qed

section \<open>The operations keep the invariant\<close>

text \<open>Facts that depend on only some of the fields.\<close>

lemma region_good_cong: "ar_made s' r = ar_made s r \<Longrightarrow> region_good os s' r g n = region_good os s r g n"
  by (simp add: region_good_def)

lemma storage_ok_mono:
  assumes "storage_ok s st" "ar_next s \<le> ar_next s'" "\<And>r. r < ar_next s \<Longrightarrow> ar_made s' r = ar_made s r"
  shows "storage_ok s' st"
  using assms by (cases st) (auto simp: storage_ok_def)

lemma map_ok_mono:
  assumes "map_ok s es" "ar_next s \<le> ar_next s'" "\<And>r. r < ar_next s \<Longrightarrow> ar_made s' r = ar_made s r"
  shows "map_ok s' es"
  using assms storage_ok_mono [OF _ assms(2,3)] unfolding map_ok_def by blast

lemma maps_invI:
  assumes "\<And>m. ar_map_refs s m = (if m = ar_current s then 1 else 0) + count M m"
    "\<And>m. ar_maps s m = None \<longleftrightarrow> ar_map_refs s m = 0" "\<And>m es. ar_maps s m = Some es \<Longrightarrow> m < ar_next_map s"
  shows "maps_inv s M"
  unfolding maps_inv_def
proof (intro allI conjI impI)
  show "m < ar_next_map s" if "ar_maps s m \<noteq> None" for m
    using that assms(3) by blast
qed (rule assms(1,2))+

lemma refs_invI:
  assumes "\<And>r. ar_refs s r = map_total s r + count R r"
    "\<And>r. ar_regions s r = None \<longleftrightarrow> ar_refs s r = 0" "\<And>r g. ar_regions s r = Some g \<Longrightarrow> r < ar_next s"
  shows "refs_inv s R"
  unfolding refs_inv_def
proof (intro allI conjI impI)
  show "r < ar_next s" if "ar_regions s r \<noteq> None" for r
    using that assms(3) by blast
qed (rule assms(1,2))+

lemma maps_inv_cong:
  assumes "maps_inv s M" "ar_maps s' = ar_maps s" "ar_map_refs s' = ar_map_refs s" "ar_current s' = ar_current s"
    "ar_next_map s' = ar_next_map s"
  shows "maps_inv s' M"
  using assms(1) unfolding maps_inv_def assms(2-) .

lemma refs_inv_cong:
  assumes "refs_inv s R" "ar_maps s' = ar_maps s" "ar_next_map s' = ar_next_map s" "ar_refs s' = ar_refs s"
    "ar_regions s' = ar_regions s" "ar_next s' = ar_next s"
  shows "refs_inv s' R"
  using assms(1) unfolding refs_inv_def map_total_def assms(2-) .

text \<open>What is left to show when an operation makes no storage and changes no region but may free some.\<close>

lemma arc_inv_frame:
  assumes "arc_inv os s M R G" "maps_inv s' M'" "refs_inv s' R'" "G \<subseteq># R'" "ar_fault s' = ar_fault s"
    and "ar_next s' = ar_next s" "ar_made s' = ar_made s"
    and "\<And>m es. ar_maps s' m = Some es \<Longrightarrow> ar_maps s m = Some es \<or> map_ok s es"
    and "\<And>r g. ar_regions s' r = Some g \<Longrightarrow> ar_regions s r = Some g"
    and "\<And>x. protect_total os \<Longrightarrow> x \<in> set (ar_left s') \<Longrightarrow> x \<in> set (ar_left s) \<or> set x \<subseteq> {0}"
  shows "arc_inv os s' M' R' G"
proof (rule arc_invI [OF assms(2-4)])
  note i = arc_invD [OF assms(1)]
  show "\<not> ar_fault s'" using i(4) assms(5) by simp
  show "region_good os s' r g (count G r)" if "ar_regions s' r = Some g" for r g
    using i(5) [OF assms(9) [OF that]] region_good_cong [of s' r s] assms(7) by simp
  show "map_ok s' es" if "ar_maps s' m = Some es" for m es
    using assms(8) [OF that] i(6) map_ok_mono [of s es s'] assms(6,7) by auto
  show "set x \<subseteq> {0}" if "protect_total os" "x \<in> set (ar_left s')" for x
    using assms(10) [OF that] i(7) [OF that(1)] by blast
qed

lemma map_share_inv:
  assumes "arc_inv os s M R G" "m = ar_current s \<or> m \<in># M"
  shows "arc_inv os (map_share m s) (M + {#m#}) R G"
proof -
  note i = arc_invD [OF assms(1)] and d = maps_invD [OF arc_invD(1) [OF assms(1)]]
  obtain es where es: "ar_maps s m = Some es"
    using map_live [OF i(1) assms(2)] by blast
  let ?s = "s\<lparr>ar_map_refs := (ar_map_refs s)(m := ar_map_refs s m + 1)\<rparr>"
  have s: "map_share m s = ?s"
    using es by (simp add: map_share_def)
  have "maps_inv ?s (M + {#m#})"
  proof (rule maps_invI)
    show "ar_map_refs ?s k = (if k = ar_current ?s then 1 else 0) + count (M + {#m#}) k" for k
      using d(1) [of k] by (cases "k = m") simp_all
    show "ar_maps ?s k = None \<longleftrightarrow> ar_map_refs ?s k = 0" for k
      using d(2) [of k] es by (cases "k = m") auto
  qed (use d(3) in auto)
  moreover have "refs_inv ?s R"
    by (rule refs_inv_cong [OF i(2)]) simp_all
  ultimately show ?thesis
    unfolding s by (rule arc_inv_frame [OF assms(1)]) (use i(3) in simp_all)
qed

lemma map_release_inv:
  assumes "arc_inv os s (M + {#m#}) R G" "map_release m s = (rs, s')"
  shows "arc_inv os s' M (R + mset rs) G"
proof -
  note i = arc_invD [OF assms(1)] and d = maps_invD [OF arc_invD(1) [OF assms(1)]]
  obtain es where es: "ar_maps s m = Some es"
    using map_live [OF i(1), of m] by auto
  have refs: "ar_map_refs s m = Suc ((if m = ar_current s then 1 else 0) + count M m)"
    using d(1) [of m] by simp
  have g: "G \<subseteq># R + mset rs"
    using i(3) by (rule subset_mset.order_trans) simp
  show ?thesis
  proof (cases "ar_map_refs s m = 1")
    case False
    let ?s = "s\<lparr>ar_map_refs := (ar_map_refs s)(m := ar_map_refs s m - 1)\<rparr>"
    have s: "rs = []" "s' = ?s"
      using assms(2) es False by (simp_all add: map_release_def)
    have "maps_inv ?s M"
    proof (rule maps_invI)
      show "ar_map_refs ?s k = (if k = ar_current ?s then 1 else 0) + count M k" for k
        using d(1) [of k] by (cases "k = m") simp_all
      show "ar_maps ?s k = None \<longleftrightarrow> ar_map_refs ?s k = 0" for k
        using d(2) [of k] es False refs by simp
    qed (use d(3) in auto)
    moreover have "refs_inv ?s (R + mset rs)"
      using s(1) by (simp add: refs_inv_cong [OF i(2)])
    ultimately show ?thesis
      unfolding s(2) by (rule arc_inv_frame [OF assms(1)]) (use g in simp_all)
  next
    case True
    let ?s = "s\<lparr>ar_maps := (ar_maps s)(m := None), ar_map_refs := (ar_map_refs s)(m := 0)\<rparr>"
    have s: "rs = map_ids es" "s' = ?s"
      using assms(2) es True by (simp_all add: map_release_def)
    have z: "m \<noteq> ar_current s" "count M m = 0"
      using refs True by (simp_all split: if_splits)
    have "maps_inv ?s M"
    proof (rule maps_invI)
      show "ar_map_refs ?s k = (if k = ar_current ?s then 1 else 0) + count M k" for k
        using d(1) [of k] z by simp
      show "ar_maps ?s k = None \<longleftrightarrow> ar_map_refs ?s k = 0" for k
        using d(2) [of k] by simp
    qed (use d(3) in \<open>auto split: if_splits\<close>)
    moreover have total: "map_total s r = map_total ?s r + count (mset (map_ids es)) r" for r
    proof -
      have m: "m \<in> {..<ar_next_map s}"
        using d(3) [of m] es by simp
      show ?thesis
        unfolding map_total_def by (simp add: sum.remove [OF finite_lessThan m] es)
    qed
    have "refs_inv ?s (R + mset rs)"
    proof (rule refs_invI)
      show "ar_refs ?s r = map_total ?s r + count (R + mset rs) r" for r
        using refs_invD(1) [OF i(2), of r] total [of r] s(1) by simp
    qed (use refs_invD(2,3) [OF i(2)] in auto)
    ultimately show ?thesis
      unfolding s(2) by (intro arc_inv_frame [OF assms(1)]) (use g in \<open>simp_all split: if_splits\<close>)
  qed
qed

lemma map_swap_inv:
  assumes "arc_inv os s M (R + mset (map_ids new)) G" "G \<subseteq># R" "map_ok s new"
  shows "arc_inv os (map_swap new s) (M + {#ar_current s#}) R G"
proof -
  note i = arc_invD [OF assms(1)] and d = maps_invD [OF arc_invD(1) [OF assms(1)]]
  let ?k = "ar_next_map s" and ?s = "map_swap new s"
  have n: "ar_maps s ?k = None"
    using d(3) [of ?k] by (cases "ar_maps s ?k") auto
  have z: "ar_map_refs s ?k = 0"
    using d(2) [of ?k] n by simp
  have c: "count M ?k = 0" "?k \<noteq> ar_current s"
    using d(1) [of ?k] z by (simp_all split: if_splits)
  have "maps_inv ?s (M + {#ar_current s#})"
  proof (rule maps_invI)
    show "ar_map_refs ?s k = (if k = ar_current ?s then 1 else 0) + count (M + {#ar_current s#}) k" for k
      using d(1) [of k] c by (cases "k = ?k") (simp_all add: map_swap_def)
    show "ar_maps ?s k = None \<longleftrightarrow> ar_map_refs ?s k = 0" for k
      using d(2) [of k] by (cases "k = ?k") (simp_all add: map_swap_def)
    show "k < ar_next_map ?s" if "ar_maps ?s k = Some es" for k es
      using d(3) [of k] that by (cases "k = ?k") (auto simp: map_swap_def)
  qed
  moreover have total: "map_total ?s r = map_total s r + count (mset (map_ids new)) r" for r
    unfolding map_total_def map_swap_def by (simp add: lessThan_Suc)
  have "refs_inv ?s R"
  proof (rule refs_invI)
    show "ar_refs ?s r = map_total ?s r + count R r" for r
      using refs_invD(1) [OF i(2), of r] total [of r] by (simp add: map_swap_def)
  qed (use refs_invD(2,3) [OF i(2)] in \<open>auto simp: map_swap_def\<close>)
  ultimately show ?thesis
    by (intro arc_inv_frame [OF assms(1)]) (use assms(2,3) in \<open>auto simp: map_swap_def split: if_splits\<close>)
qed

lemma store_share_inv:
  assumes "arc_inv os s M R G" "r \<in># R \<or> (\<exists>m es. ar_maps s m = Some es \<and> r \<in> set (map_ids es))"
  shows "arc_inv os (store_share r s) M (R + {#r#}) G"
proof -
  note i = arc_invD [OF assms(1)]
  obtain g where g: "ar_regions s r = Some g"
    using store_live(1) [OF i(1,2) assms(2)] by blast
  let ?s = "s\<lparr>ar_refs := (ar_refs s)(r := ar_refs s r + 1)\<rparr>"
  have s: "store_share r s = ?s"
    using g by (simp add: store_share_def)
  have "refs_inv ?s (R + {#r#})"
  proof (rule refs_invI)
    show "ar_refs ?s k = map_total ?s k + count (R + {#r#}) k" for k
      using refs_invD(1) [OF i(2), of k] by (cases "k = r") (simp_all add: map_total_def)
    show "ar_regions ?s k = None \<longleftrightarrow> ar_refs ?s k = 0" for k
      using refs_invD(2) [OF i(2), of k] g by (cases "k = r") auto
  qed (use refs_invD(3) [OF i(2)] in auto)
  moreover have "maps_inv ?s M"
    by (rule maps_inv_cong [OF i(1)]) simp_all
  moreover have "G \<subseteq># R + {#r#}"
    using i(3) by (rule subset_mset.order_trans) simp
  ultimately show ?thesis
    unfolding s by (intro arc_inv_frame [OF assms(1)]) simp_all
qed

lemma guarded_drop_left: "protect_total os \<Longrightarrow> set (fst (guarded_drop os g w)) \<subseteq> {0}"
  by (auto simp: guarded_drop_def Let_def protect_total_def split_beta)

lemma store_release_inv:
  assumes "arc_inv os s M (R + {#r#}) G" "G \<subseteq># R"
  shows "arc_inv os (store_release os r s) M R G"
proof -
  note i = arc_invD [OF assms(1)]
  obtain g where g: "ar_regions s r = Some g"
    using store_live(1) [OF i(1,2), of r] by auto
  have refs: "ar_refs s r = Suc (map_total s r + count R r)"
    using refs_invD(1) [OF i(2), of r] by simp
  show ?thesis
  proof (cases "ar_refs s r = 1")
    case False
    let ?s = "s\<lparr>ar_refs := (ar_refs s)(r := ar_refs s r - 1)\<rparr>"
    have s: "store_release os r s = ?s"
      using g False by (simp add: store_release_def)
    have "refs_inv ?s R"
    proof (rule refs_invI)
      show "ar_refs ?s k = map_total ?s k + count R k" for k
        using refs_invD(1) [OF i(2), of k] by (cases "k = r") (simp_all add: map_total_def)
      show "ar_regions ?s k = None \<longleftrightarrow> ar_refs ?s k = 0" for k
        using refs_invD(2) [OF i(2), of k] g False refs by simp
    qed (use refs_invD(3) [OF i(2)] in auto)
    moreover have "maps_inv ?s M"
      by (rule maps_inv_cong [OF i(1)]) simp_all
    ultimately show ?thesis
      unfolding s by (intro arc_inv_frame [OF assms(1)]) (use assms(2) in simp_all)
  next
    case True
    obtain left w where d: "guarded_drop os g (ar_world s) = (left, w)" by fastforce
    let ?s = "s\<lparr>ar_regions := (ar_regions s)(r := None), ar_refs := (ar_refs s)(r := 0),
      ar_left := ar_left s @ [left], ar_world := w\<rparr>"
    have s: "store_release os r s = ?s"
      using g True d by (simp add: store_release_def)
    have "refs_inv ?s R"
    proof (rule refs_invI)
      show "ar_refs ?s k = map_total ?s k + count R k" for k
        using refs_invD(1) [OF i(2), of k] True refs by (cases "k = r") (auto simp: map_total_def)
      show "ar_regions ?s k = None \<longleftrightarrow> ar_refs ?s k = 0" for k
        using refs_invD(2) [OF i(2), of k] by simp
    qed (use refs_invD(3) [OF i(2)] in \<open>auto split: if_splits\<close>)
    moreover have "maps_inv ?s M"
      by (rule maps_inv_cong [OF i(1)]) simp_all
    moreover have "protect_total os \<Longrightarrow> set left \<subseteq> {0}"
      using guarded_drop_left [of os g "ar_world s"] d by simp
    ultimately show ?thesis
      unfolding s by (intro arc_inv_frame [OF assms(1)]) (use assms(2) in \<open>auto split: if_splits\<close>)
  qed
qed

text \<open>A new storage, and opening and closing one.\<close>

lemma prepare_inv:
  assumes "arc_inv os s M R G" "into_protected os (ar_next s) (ar_regions s) fr (ar_world s) = (Inr (st, rs), w)"
    and "layout_start fr = 0"
  shows "arc_inv os (s\<lparr>ar_regions := rs, ar_refs := (ar_refs s)(ar_next s := 1),
      ar_made := (ar_made s)(ar_next s := (st, fr)), ar_next := Suc (ar_next s), ar_world := w\<rparr>) M (R + {#ar_next s#}) G"
    (is "arc_inv os ?s M _ G")
proof -
  note i = arc_invD [OF assms(1)] and d = refs_invD [OF arc_invD(2) [OF assms(1)]]
  let ?r = "ar_next s"
  obtain g where rs: "rs = (ar_regions s)(?r \<mapsto> g)" and g: "readers g = 0" "prot g = NoAccess"
    using into_protected_region [OF assms(2)] by blast
  obtain fr2 sizes l where c: "contents rs st = Some fr2" "same_view fr2 fr" and st: "st = Region ?r sizes l (total_len fr)"
    using into_protected_contents [OF assms(2,3)] by blast
  have n: "ar_regions s ?r = None"
    using d(3) [of ?r] by (cases "ar_regions s ?r") auto
  have z: "map_total s ?r = 0" "count R ?r = 0"
    using d(1,2) [of ?r] n by simp_all
  have gr: "count G ?r = 0"
    using mset_subset_eq_count [OF i(3), of ?r] z(2) by simp
  show ?thesis
  proof (rule arc_invI)
    show "maps_inv ?s M"
      by (rule maps_inv_cong [OF i(1)]) simp_all
    show "refs_inv ?s (R + {#?r#})"
    proof (rule refs_invI)
      show "ar_refs ?s k = map_total ?s k + count (R + {#?r#}) k" for k
        using d(1) [of k] z by (cases "k = ?r") (auto simp: map_total_def)
      show "ar_regions ?s k = None \<longleftrightarrow> ar_refs ?s k = 0" for k
        using d(2) [of k] by (cases "k = ?r") (simp_all add: rs)
      show "k < ar_next ?s" if "ar_regions ?s k = Some h" for k h
        using d(3) [of k] that by (cases "k = ?r") (auto simp: rs)
    qed
    show "G \<subseteq># R + {#?r#}"
      using i(3) by (rule subset_mset.order_trans) simp
    show "region_good os ?s k h (count G k)" if "ar_regions ?s k = Some h" for k h
    proof (cases "k = ?r")
      case True
      then have "h = g" using that by (simp add: rs)
      then show ?thesis
        using True g c st gr by (simp add: region_good_def contents_def rs)
    next
      case False
      then show ?thesis
        using that i(5) [of k h] region_good_cong [of ?s k s os h "count G k"] by (simp add: rs)
    qed
    show "map_ok ?s es" if "ar_maps ?s m = Some es" for m es
      using map_ok_mono [OF i(6), of m es ?s] that by simp
  qed (use i(4,7) in simp_all)
qed

lemma world_inv:
  assumes "arc_inv os s M R G" "ar_regions s = rs"
  shows "arc_inv os (s\<lparr>ar_regions := rs, ar_world := w\<rparr>) M R G"
proof -
  note i = arc_invD [OF assms(1)]
  let ?s = "s\<lparr>ar_regions := rs, ar_world := w\<rparr>"
  have "maps_inv ?s M"
    by (rule maps_inv_cong [OF i(1)]) simp_all
  moreover have "refs_inv ?s R"
    by (rule refs_inv_cong [OF i(2)]) (simp_all add: assms(2))
  ultimately show ?thesis
    by (rule arc_inv_frame [OF assms(1)]) (use i(3) assms(2) in simp_all)
qed

lemma region_update_inv:
  assumes "arc_inv os s M R G" "ar_regions s r = Some g" "G' \<subseteq># R" "\<And>k. k \<noteq> r \<Longrightarrow> count G' k = count G k"
    and "region_good os s r g' (count G' r)"
  shows "arc_inv os (s\<lparr>ar_regions := (ar_regions s)(r \<mapsto> g'), ar_world := w\<rparr>) M R G'" (is "arc_inv os ?s M R G'")
proof (rule arc_invI)
  note i = arc_invD [OF assms(1)]
  show "maps_inv ?s M"
    by (rule maps_inv_cong [OF i(1)]) simp_all
  show "refs_inv ?s R"
  proof (rule refs_invI)
    show "ar_refs ?s k = map_total ?s k + count R k" for k
      using refs_invD(1) [OF i(2), of k] by (simp add: map_total_def)
    show "ar_regions ?s k = None \<longleftrightarrow> ar_refs ?s k = 0" for k
      using refs_invD(2) [OF i(2), of k] assms(2) by (cases "k = r") auto
    show "k < ar_next ?s" if "ar_regions ?s k = Some h" for k h
      using refs_invD(3) [OF i(2), of k] assms(2) that by (cases "k = r") auto
  qed
  show "G' \<subseteq># R" by (rule assms(3))
  show "region_good os ?s k h (count G' k)" if "ar_regions ?s k = Some h" for k h
    using i(5) [of k h] assms(4) [of k] assms(5) that by (cases "k = r") (auto simp: region_good_def)
  show "map_ok ?s es" if "ar_maps ?s m = Some es" for m es
    using map_ok_mono [OF i(6), of m es ?s] that by simp
  show "\<not> ar_fault ?s" "protect_total os \<Longrightarrow> x \<in> set (ar_left ?s) \<Longrightarrow> set x \<subseteq> {0}" for x
    using i(4,7) by simp_all
qed

lemma open_inv:
  assumes "arc_inv os s M (R + mset (storage_ids st)) G" "G \<subseteq># R"
    and "storage_open os (ar_regions s) st (ar_world s) = (Inr rs, w)"
  shows "arc_inv os (s\<lparr>ar_regions := rs, ar_world := w\<rparr>) M (R + mset (storage_ids st)) (G + mset (storage_ids st))"
proof (cases st)
  case (Heap fr)
  then show ?thesis
    using world_inv [OF assms(1), of rs w] assms(3) by simp
next
  case (Region r sizes l n)
  note i = arc_invD [OF assms(1)]
  obtain g where g: "ar_regions s r = Some g"
    using store_live(1) [OF i(1,2), of r] Region by auto
  obtain g' where o: "guarded_open os g (ar_world s) = (Inr g', w)" and rs: "rs = (ar_regions s)(r \<mapsto> g')"
    using assms(3) Region g by (auto simp: result_simps)
  show ?thesis
    unfolding rs
  proof (rule region_update_inv [OF assms(1) g])
    show "G + mset (storage_ids st) \<subseteq># R + mset (storage_ids st)"
      using assms(2) by (rule subset_mset.add_right_mono)
    show "region_good os s r g' (count (G + mset (storage_ids st)) r)"
      using i(5) [OF g] guarded_open_Inr [OF o] Region by (auto simp: region_good_def contents_def)
  qed (simp add: Region)
qed

lemma close_inv:
  assumes "arc_inv os s M R (G + mset (storage_ids st))" "storage_close os (ar_regions s) st (ar_world s) = (rs, w)"
  shows "arc_inv os (s\<lparr>ar_regions := rs, ar_world := w\<rparr>) M R G"
proof (cases st)
  case (Heap fr)
  then show ?thesis
    using world_inv [OF assms(1), of rs w] assms(2) by simp
next
  case (Region r sizes l n)
  note i = arc_invD [OF assms(1)]
  have "r \<in># R"
    using i(3) Region by (auto dest: mset_subset_eqD)
  then obtain g where g: "ar_regions s r = Some g"
    using store_live(1) [OF i(1,2), of r] by auto
  obtain g' where o: "region_access_drop os g (ar_world s) = (g', w)" and rs: "rs = (ar_regions s)(r \<mapsto> g')"
    using assms(2) Region g by (auto split: prod.splits)
  have sealed: "protect_total os \<Longrightarrow> readers g = 1 \<Longrightarrow> prot g' = NoAccess"
    using o by (auto simp: region_access_drop_def Let_def protect_total_def split: prod.splits if_splits)
      (metis fst_conv)
  show ?thesis
    unfolding rs
  proof (rule region_update_inv [OF assms(1) g])
    show "G \<subseteq># R"
      by (rule subset_mset.order_trans [OF _ i(3)]) simp
    have "readers g = Suc (count G r)"
      using i(5) [OF g] Region by (simp add: region_good_def)
    then show "region_good os s r g' (count G r)"
      using i(5) [OF g] region_access_drop_fields [OF o] sealed Region by (auto simp: region_good_def contents_def)
  qed (simp add: Region)
qed

text \<open>Several shares and releases in a row.\<close>

lemma fold_share_inv:
  assumes "arc_inv os s M R G" "ar_maps s m = Some es" "set rs \<subseteq> set (map_ids es)"
  shows "arc_inv os (fold store_share rs s) M (R + mset rs) G"
  using assms
proof (induction rs arbitrary: s R)
  case (Cons r rs)
  have "arc_inv os (store_share r s) M (R + {#r#}) G"
    by (rule store_share_inv [OF Cons.prems(1)]) (use Cons.prems(2,3) in auto)
  then have "arc_inv os (fold store_share rs (store_share r s)) M (R + {#r#} + mset rs) G"
    by (rule Cons.IH) (use Cons.prems(2,3) in \<open>auto simp: store_share_def\<close>)
  then show ?case by simp
qed simp

lemma fold_release_inv:
  assumes "arc_inv os s M (R + mset rs) G" "G \<subseteq># R"
  shows "arc_inv os (fold (store_release os) rs s) M R G"
  using assms
proof (induction rs arbitrary: s)
  case (Cons r rs)
  have "G \<subseteq># R + mset rs"
    using Cons.prems(2) by (rule subset_mset.order_trans) simp
  then have "arc_inv os (store_release os r s) M (R + mset rs) G"
    using Cons.prems(1) by (intro store_release_inv) simp_all
  then show ?case
    using Cons.IH Cons.prems(2) by simp
qed simp

text \<open>The references of an edited copy: those of the map and of the operation, less those taken out.\<close>

lemma map_ids_remove: "names_inv es \<Longrightarrow> mset (map_ids es) = mset (map_ids (kv_remove i es)) + mset (removed_at i es)"
proof (induction es)
  case (Cons x es)
  obtain j e where x: "x = (j, e)" by fastforce
  have n: "names_inv es" and d: "j \<notin> fst ` set es"
    using Cons.prems x by (auto simp: names_inv_def)
  show ?case
  proof (cases "j = i")
    case True
    then have "kv_remove i es = es"
      using d by (force simp: kv_remove_def filter_id_conv)
    then show ?thesis
      using x True by (simp add: kv_remove_def map_ids_def removed_at_def kv_get_def)
  next
    case False
    then show ?thesis
      using Cons.IH [OF n] x by (simp add: kv_remove_def map_ids_def removed_at_def kv_get_def)
  qed
qed (simp add: map_ids_def removed_at_def kv_get_def kv_remove_def)

lemma edited_ids:
  assumes "names_inv es" "under_lock op es = (out, Some new)"
  shows "mset (op_ids op) + mset (map_ids es) = mset (map_ids new) + mset (op_removed op es)"
proof -
  have i: "map_ids (kv_insert i e es) = storage_ids (ke_fragments e) @ map_ids (kv_remove i es)" for i e
    by (simp add: kv_insert_def map_ids_def)
  show ?thesis
    using assms(2) map_ids_remove [OF assms(1)]
    by (cases op) (auto simp: i split: if_splits option.splits)
qed

section \<open>Every step keeps the invariant\<close>

text \<open>What a thread has read is what the storage was made from.\<close>

definition faithful :: "'w arcs \<Rightarrow> storage \<Rightarrow> fragments \<Rightarrow> bool" where
  "faithful s st fr = (case st of Heap fr' \<Rightarrow> fr = fr' | Region r sizes l n \<Rightarrow> same_view fr (snd (ar_made s r)))"

fun op_ok :: "'w arcs \<Rightarrow> reg_op \<Rightarrow> bool" where
  "op_ok s (Install i e) = storage_ok s (ke_fragments e)"
| "op_ok s (Replace i st md) = storage_ok s st"
| "op_ok s op = True"

primrec arc_pc_ok :: "'w arcs \<Rightarrow> arc_pc \<Rightarrow> bool" where
  "arc_pc_ok s AIdle = True"
| "arc_pc_ok s (ASnapshot i m) = True"
| "arc_pc_ok s (AShared m st) = storage_ok s st"
| "arc_pc_ok s (AOwning st rs) = storage_ok s st"
| "arc_pc_ok s (AReading st) = storage_ok s st"
| "arc_pc_ok s (ARead st fr) = (storage_ok s st \<and> faithful s st fr)"
| "arc_pc_ok s (AClosed st fr) = (storage_ok s st \<and> faithful s st fr)"
| "arc_pc_ok s (AReady op) = op_ok s op"
| "arc_pc_ok s (AHolding op) = op_ok s op"
| "arc_pc_ok s (ALoaded op m) = op_ok s op"
| "arc_pc_ok s (ACopying op m todo rs) =
     (op_ok s op \<and> (\<exists>es. ar_maps s m = Some es \<and> mset (map_ids es) = mset todo + mset rs))"
| "arc_pc_ok s (AEdited m new) = map_ok s new"
| "arc_pc_ok s (ALeaving m ms rs) = True"
| "arc_pc_ok s (AUnlocking ms rs) = True"
| "arc_pc_ok s (ADropping ms rs) = True"

text \<open>What no step changes: what a storage was made from, and the entries of a map until it is freed.\<close>

definition stable :: "'w arcs \<Rightarrow> 'w arcs \<Rightarrow> bool" where
  "stable s s' \<longleftrightarrow> ar_next s \<le> ar_next s' \<and> (\<forall>r < ar_next s. ar_made s' r = ar_made s r) \<and>
     (\<forall>m es. ar_maps s m = Some es \<longrightarrow> ar_maps s' m = Some es \<or> ar_maps s' m = None)"

lemma stableI:
  assumes "ar_next s' = ar_next s" "ar_made s' = ar_made s" "ar_maps s' = ar_maps s"
  shows "stable s s'"
  using assms by (simp add: stable_def)

lemma stable_ok:
  assumes "stable s s'"
  shows "storage_ok s st \<Longrightarrow> storage_ok s' st" "map_ok s es \<Longrightarrow> map_ok s' es" "op_ok s op \<Longrightarrow> op_ok s' op"
proof -
  have n: "ar_next s \<le> ar_next s'" "\<And>r. r < ar_next s \<Longrightarrow> ar_made s' r = ar_made s r"
    using assms by (simp_all add: stable_def)
  show st: "storage_ok s st \<Longrightarrow> storage_ok s' st" for st
    by (rule storage_ok_mono [OF _ n])
  show "map_ok s es \<Longrightarrow> map_ok s' es"
    by (rule map_ok_mono [OF _ n])
  show "op_ok s op \<Longrightarrow> op_ok s' op"
    using st by (cases op) simp_all
qed

lemma stable_faithful:
  assumes "stable s s'" "storage_ok s st" "faithful s st fr"
  shows "faithful s' st fr"
  using assms by (cases st) (simp_all add: stable_def storage_ok_def faithful_def)

lemma stable_pc:
  assumes "stable s s'" "arc_pc_ok s p" "\<And>m. m \<in># held_maps p \<Longrightarrow> ar_maps s' m \<noteq> None"
  shows "arc_pc_ok s' p"
proof (cases p)
  case (ACopying op m todo rs)
  then obtain es where es: "ar_maps s m = Some es" "mset (map_ids es) = mset todo + mset rs"
    using assms(2) by auto
  then have "ar_maps s' m = Some es"
    using assms(1,3) ACopying by (fastforce simp: stable_def)
  then show ?thesis
    using ACopying assms(2) es(2) stable_ok(3) [OF assms(1)] by simp
qed (use assms(2) stable_ok [OF assms(1)] stable_faithful [OF assms(1)] in simp_all)

lemma map_release_stable: "map_release m s = (rs, s') \<Longrightarrow> stable s s'"
  by (auto simp: map_release_def stable_def split: option.splits if_splits)

lemma store_release_fields:
  "ar_next (store_release os r s) = ar_next s" "ar_made (store_release os r s) = ar_made s"
  "ar_maps (store_release os r s) = ar_maps s"
  by (simp_all add: store_release_def split: option.split prod.split)

lemma fold_release_fields:
  "ar_next (fold (store_release os) rs s) = ar_next s" "ar_made (fold (store_release os) rs s) = ar_made s"
  "ar_maps (fold (store_release os) rs s) = ar_maps s"
  by (induction rs arbitrary: s) (simp_all add: store_release_fields)

lemma fold_share_fields:
  "ar_next (fold store_share rs s) = ar_next s" "ar_made (fold store_share rs s) = ar_made s"
  "ar_maps (fold store_share rs s) = ar_maps s"
  by (induction rs arbitrary: s) (simp_all add: store_share_def)

lemma arc_step_stable:
  assumes "arc_step os t (s, p) (s', q)" "maps_inv s M"
  shows "stable s s'"
  using assms(1)
proof cases
  case (swap m new)
  have "ar_maps s (ar_next_map s) = None"
    using maps_invD(3) [OF assms(2), of "ar_next_map s"] by (cases "ar_maps s (ar_next_map s)") auto
  then show ?thesis
    using swap by (auto simp: stable_def map_swap_def)
next
  case (drop_snapshot m rs st)
  show ?thesis by (rule map_release_stable [OF drop_snapshot(3)])
next
  case (leave m rs' ms rs)
  show ?thesis by (rule map_release_stable [OF leave(3)])
next
  case (drop_map m rs ms)
  show ?thesis by (rule map_release_stable [OF drop_map(3)])
qed (auto simp: stable_def map_share_def store_share_def store_release_fields fold_release_fields fold_share_fields)

lemma edited_ok:
  assumes "map_ok s es" "op_ok s op" "under_lock op es = (out, Some new)"
  shows "map_ok s new"
proof -
  have n: "names_inv es" and st: "(i, e) \<in> set es \<Longrightarrow> storage_ok s (ke_fragments e)" for i e
    using assms(1) unfolding map_ok_def by blast+
  have "names_inv new"
    using names_inv_seq_op [OF n, of op] assms(3) by (simp add: seq_op_def)
  moreover have "storage_ok s (ke_fragments e)" if "(i, e) \<in> set new" for i e
    using assms(2,3) that st by (cases op) (auto simp: kv_insert_def set_kv_remove split: if_splits option.splits)
  ultimately show ?thesis
    unfolding map_ok_def by blast
qed

lemma load_faithful:
  assumes "arc_inv os s M R G" "storage_ok s st" "load (ar_regions s) st = Inr fr"
  shows "faithful s st fr"
proof (cases st)
  case (Region r sizes l n)
  then obtain g where g: "ar_regions s r = Some g"
    and fr: "fr = from_parts (cut sizes (mem g)) (take l (drop (sum_list sizes) (mem g))) n"
    using assms(3) by (auto split: option.splits if_splits)
  have m: "fst (ar_made s r) = st"
    using assms(2) Region by (simp add: storage_ok_def)
  show ?thesis
    using arc_invD(5) [OF assms(1) g] m fr Region by (simp add: region_good_def contents_def faithful_def)
qed (use assms(3) in \<open>simp add: faithful_def\<close>)

text \<open>An open storage is readable; opening one that is held never faults.\<close>

lemma load_held:
  assumes "arc_inv os s M R (G + mset (storage_ids st))"
  shows "\<exists>fr. load (ar_regions s) st = Inr fr"
proof (cases st)
  case (Region r sizes l n)
  note i = arc_invD [OF assms]
  have "r \<in># R"
    using i(3) Region by (auto dest: mset_subset_eqD)
  then obtain g where g: "ar_regions s r = Some g"
    using store_live(1) [OF i(1,2), of r] by auto
  then show ?thesis
    using i(5) [OF g] Region by (simp add: region_good_def)
qed simp

lemma open_no_fault:
  assumes "arc_inv os s M (R + mset (storage_ids st)) G" "storage_open os (ar_regions s) st (ar_world s) = (Inl e, w)"
  shows "e \<noteq> Segfault"
proof (cases st)
  case (Region r sizes l n)
  note i = arc_invD [OF assms(1)]
  obtain g where g: "ar_regions s r = Some g"
    using store_live(1) [OF i(1,2), of r] Region by auto
  then show ?thesis
    using assms(2) Region by (auto simp: result_simps guarded_open_def split: if_splits prod.splits bool.splits)
qed (use assms(2) in simp)

text \<open>The steps that need an argument of their own.\<close>

lemma writer_inv:
  assumes "arc_inv os s M R G"
  shows "arc_inv os (s\<lparr>ar_writer := t\<rparr>) M R G"
proof -
  note i = arc_invD [OF assms]
  have "maps_inv (s\<lparr>ar_writer := t\<rparr>) M" "refs_inv (s\<lparr>ar_writer := t\<rparr>) R"
    by (rule maps_inv_cong [OF i(1)] refs_inv_cong [OF i(2)]; simp)+
  then show ?thesis
    by (rule arc_inv_frame [OF assms]) (use i(3) in simp_all)
qed

lemma share_entry_inv:
  assumes "arc_inv os s M R G" "ar_maps s m = Some es" "kv_get i es = Some e"
  shows "arc_inv os (fold store_share (storage_ids (ke_fragments e)) s) M (R + mset (storage_ids (ke_fragments e))) G"
    "storage_ok s (ke_fragments e)"
proof -
  have "(i, e) \<in> set es"
    using assms(3) by (simp add: kv_get_def map_of_SomeD)
  then have ids: "set (storage_ids (ke_fragments e)) \<subseteq> set (map_ids es)" and ok: "storage_ok s (ke_fragments e)"
    using arc_invD(6) [OF assms(1,2)] by (auto simp: map_ids_def map_ok_def)
  show "arc_inv os (fold store_share (storage_ids (ke_fragments e)) s) M (R + mset (storage_ids (ke_fragments e))) G"
    by (rule fold_share_inv [OF assms(1,2) ids])
  show "storage_ok s (ke_fragments e)" by (rule ok)
qed

lemma edit_inv:
  assumes "arc_inv os s M (R + (mset (op_ids op) + mset (map_ids es))) G" "G \<subseteq># R" "op_ok s op"
    and "ar_maps s m = Some es" "under_lock op es = (out, Some new)"
  shows "arc_inv os (fold (store_release os) (op_removed op es) s) M (R + mset (map_ids new)) G" "map_ok s new"
proof -
  note ok = arc_invD(6) [OF assms(1,4)]
  have e: "mset (op_ids op) + mset (map_ids es) = mset (map_ids new) + mset (op_removed op es)"
    using edited_ids [OF _ assms(5)] ok by (simp add: map_ok_def)
  have "G \<subseteq># R + mset (map_ids new)"
    using assms(2) by (rule subset_mset.order_trans) simp
  then show "arc_inv os (fold (store_release os) (op_removed op es) s) M (R + mset (map_ids new)) G"
    using assms(1) unfolding e by (intro fold_release_inv) (simp_all add: add.assoc)
  show "map_ok s new"
    by (rule edited_ok [OF ok assms(3,5)])
qed

lemma drop_list_inv:
  assumes "arc_inv os s M (R + (X + mset (r # rs))) G" "G \<subseteq># R"
  shows "arc_inv os (store_release os r s) M (R + (X + mset rs)) G"
proof (rule store_release_inv)
  show "arc_inv os s M (R + (X + mset rs) + {#r#}) G"
    using assms(1) by (simp add: ac_simps)
  show "G \<subseteq># R + (X + mset rs)"
    using assms(2) by (rule subset_mset.order_trans) simp
qed

lemma arc_step_inv:
  assumes "arc_step os t (s, p) (s', q)"
    and "arc_inv os s (M + held_maps p) (R + held_ids p) (G + held_guards p)" "G \<subseteq># R" "arc_pc_ok s p"
  shows "arc_inv os s' (M + held_maps q) (R + held_ids q) (G + held_guards q) \<and> arc_pc_ok s' q"
proof -
  note st = stable_ok [OF arc_step_stable [OF assms(1) arc_invD(1) [OF assms(2)]]]
    and fa = stable_faithful [OF arc_step_stable [OF assms(1) arc_invD(1) [OF assms(2)]]]
  from assms(1) show ?thesis
  proof cases
    case (snapshot i)
    then show ?thesis
      using map_share_inv [OF assms(2)] by simp
  next
    case (dangling m i)
    then show ?thesis
      using map_live [OF arc_invD(1) [OF assms(2)], of m] by simp
  next
    case (share m es i e)
    then show ?thesis
      using share_entry_inv [OF assms(2) share(4,5)] st(1) by simp
  next
    case (drop_snapshot m rs st)
    then show ?thesis
      using map_release_inv [of os s M m "R + mset (storage_ids st)" G rs s'] assms(2,4)
        st(1) by (simp add: ac_simps)
  next
    case (drop_more st r rs)
    then show ?thesis
      using drop_list_inv [of os s M R "mset (storage_ids st)" r rs G] assms(2-4) st(1) by simp
  next
    case (open_ok st g w)
    then show ?thesis
      using open_inv [of os s M R st G] assms(2-4) st(1) by simp
  next
    case (open_err st e w)
    have "e \<noteq> Segfault"
      by (rule open_no_fault) (use assms(2) open_err in simp_all)
    then have "s' = s\<lparr>ar_regions := ar_regions s, ar_world := w\<rparr>"
      using open_err arc_invD(4) [OF assms(2)] by simp
    then show ?thesis
      using open_err world_inv [OF assms(2) refl] by simp
  next
    case (read st fr)
    then show ?thesis
      using assms(2,4) load_faithful [OF assms(2)] by simp
  next
    case (segfault st e)
    then show ?thesis
      using load_held [of os s "M + held_maps p" "R + held_ids p" G st] assms(2) by simp
  next
    case (close st g w fr)
    then show ?thesis
      using close_inv [of os s M "R + mset (storage_ids st)" G st] assms(2,4) st(1) fa by simp
  next
    case (prepare fr st g w op i n md)
    obtain sizes l where st: "st = Region (ar_next s) sizes l (total_len fr)"
      using into_protected_contents(4) [OF prepare(4,5)] by blast
    have "op_ids op = [ar_next s]" "op_ok s' op"
      using prepare st by (auto simp: storage_ok_def)
    then show ?thesis
      using prepare_inv [OF assms(2) prepare(4,5)] prepare by simp
  next
    case (prepare_heap op i n fr md)
    then have "op_ids op = []" "op_ok s op"
      by (auto simp: storage_ok_def)
    then show ?thesis
      using assms(2) prepare_heap by simp
  next
    case (lock op)
    then show ?thesis
      using writer_inv [OF assms(2)] assms(4) st(3) by simp
  next
    case (load_full op)
    then show ?thesis
      using map_share_inv [OF assms(2)] assms(4) st(3) by (simp add: map_share_def)
  next
    case (copy m es op out new)
    then show ?thesis
      using assms(2,4) by simp
  next
    case (clone op m r todo rs)
    then obtain es where es: "ar_maps s m = Some es" "mset (map_ids es) = mset (r # todo) + mset rs"
      using assms(4) by auto
    have "r \<in># mset (map_ids es)"
      unfolding es(2) by simp
    then have "arc_inv os (store_share r s) (M + {#m#}) (R + mset (op_ids op) + mset rs + {#r#}) G"
      using assms(2) clone es(1) by (intro store_share_inv) (auto simp: ac_simps)
    then show ?thesis
      using clone assms(4) es st(3) by (simp add: store_share_def ac_simps)
  next
    case (edit m es op out new rs)
    then have rs: "mset rs = mset (map_ids es)" and op: "op_ok s op"
      using assms(4) by auto
    show ?thesis
      using edit_inv [OF _ assms(3) op edit(4,5), of os "M + {#m#}"] assms(2) edit rs st(2) by simp
  next
    case (swap m new)
    then show ?thesis
      using map_swap_inv [of os s "M + {#m#}" R new G] assms(2-4) by simp
  next
    case (leave m rs' ms rs)
    then show ?thesis
      using map_release_inv [of os s "M + mset ms" m "R + mset rs" G rs' s'] assms(2) by (simp add: ac_simps)
  next
    case (unlock ms rs)
    then show ?thesis
      using writer_inv [OF assms(2)] by simp
  next
    case (drop_store ms r rs)
    then show ?thesis
      using drop_list_inv [of os s "M + mset ms" R "{#}" r rs G] assms(2,3) by simp
  next
    case (drop_map m rs ms)
    then show ?thesis
      using map_release_inv [of os s "M + mset ms" m R G rs s'] assms(2) by simp
  qed (use assms st in simp_all)
qed

lemma arcs_new_inv: "arc_inv os (arcs_new w) {#} {#} {#}"
proof (rule arc_invI)
  show "maps_inv (arcs_new w) {#}"
    by (rule maps_invI) (simp_all add: arcs_new_def split: if_splits)
  show "refs_inv (arcs_new w) {#}"
    by (rule refs_invI) (simp_all add: arcs_new_def map_total_def map_ids_def)
qed (simp_all add: arcs_new_def map_ok_def names_inv_def split: if_splits)

lemma arc_run_inv:
  assumes "arc_run os w0 s ps"
  shows "arc_inv os s (all_held held_maps ps) (all_held held_ids ps) (all_held held_guards ps) \<and>
    (\<forall>p\<in>set ps. arc_pc_ok s p)"
  using assms
proof induction
  case (start n)
  have "all_held f (replicate n AIdle) = {#}" if "f AIdle = {#}" for f
    using that by (induction n) (simp_all add: all_held_def)
  then show ?case
    using arcs_new_inv [of os w0] by simp
next
  case (step s ps t s' q)
  note split = all_held_split [OF step.hyps(2)]
  have inv: "arc_inv os s (rest_held held_maps ps t + held_maps (ps ! t)) (rest_held held_ids ps t + held_ids (ps ! t))
      (rest_held held_guards ps t + held_guards (ps ! t))"
    using step.IH by (simp add: split(1))
  have pc: "arc_pc_ok s (ps ! t)"
    using step.IH step.hyps(2) by simp
  have new: "arc_inv os s' (all_held held_maps (ps[t := q])) (all_held held_ids (ps[t := q])) (all_held held_guards (ps[t := q]))"
    and q: "arc_pc_ok s' q"
    using arc_step_inv [OF step.hyps(3) inv rest_guards pc] by (simp_all add: split(2))
  moreover have "arc_pc_ok s' p" if "p \<in> set ps" "p \<in> set (ps[t := q])" for p
  proof (rule stable_pc)
    show "stable s s'"
      by (rule arc_step_stable [OF step.hyps(3) arc_invD(1) [OF inv]])
    show "arc_pc_ok s p"
      using step.IH that(1) by blast
    show "ar_maps s' m \<noteq> None" if "m \<in># held_maps p" for m
      using map_live [OF arc_invD(1) [OF new], of m] all_held_member [OF \<open>p \<in> set (ps[t := q])\<close>, of held_maps] that
      by (auto dest: mset_subset_eqD)
  qed
  moreover have "p \<in> set ps \<or> p = q" if "p \<in> set (ps[t := q])" for p
    using set_update_subset_insert [of ps t q] that by blast
  ultimately show ?case
    using q by blast
qed

lemma in_all_held: "x \<in># all_held f ps \<longleftrightarrow> (\<exists>p\<in>set ps. x \<in># f p)"
  by (induction ps) (auto simp: all_held_def)

lemma map_total_zero:
  assumes "maps_inv s M"
  shows "map_total s r = 0 \<longleftrightarrow> (\<forall>m es. ar_maps s m = Some es \<longrightarrow> r \<notin> set (map_ids es))"
proof
  show "map_total s r = 0 \<Longrightarrow> \<forall>m es. ar_maps s m = Some es \<longrightarrow> r \<notin> set (map_ids es)"
    using map_total_pos [OF assms] by force
  show "\<forall>m es. ar_maps s m = Some es \<longrightarrow> r \<notin> set (map_ids es) \<Longrightarrow> map_total s r = 0"
    unfolding map_total_def by (intro sum.neutral) (auto split: option.split simp: count_eq_zero_iff)
qed

section \<open>The property\<close>

text \<open>(C16) Readers and writers on shared storage, over any interleaving: nothing freed is ever touched; a map is
  live exactly while the vault or a thread refers to it, a storage exactly while a live map or a thread does, so
  removing or rotating a key never pulls it from under a reader and the last one to let go frees it; a thread
  that has a storage open can read it and reads exactly the fragments it was made from, never a mix of old and
  new; and if the protection calls succeed, a storage that no thread has open is inaccessible and every page given
  back to the system was wiped.\<close>

theorem shared_storage_safe:
  assumes "arc_run os w0 s ps"
  shows "\<not> ar_fault s \<and>
    (\<forall>m. ar_maps s m \<noteq> None \<longleftrightarrow> m = ar_current s \<or> (\<exists>p\<in>set ps. m \<in># held_maps p)) \<and>
    (\<forall>r. ar_regions s r \<noteq> None \<longleftrightarrow>
       (\<exists>m es. ar_maps s m = Some es \<and> r \<in> set (map_ids es)) \<or> (\<exists>p\<in>set ps. r \<in># held_ids p)) \<and>
    (\<forall>st. AReading st \<in> set ps \<longrightarrow> (\<exists>fr. load (ar_regions s) st = Inr fr \<and> faithful s st fr)) \<and>
    (\<forall>st fr. ARead st fr \<in> set ps \<or> AClosed st fr \<in> set ps \<longrightarrow> faithful s st fr) \<and>
    (protect_total os \<longrightarrow>
       (\<forall>r g. ar_regions s r = Some g \<longrightarrow> (\<forall>p\<in>set ps. r \<notin># held_guards p) \<longrightarrow> prot g = NoAccess) \<and>
       (\<forall>x\<in>set (ar_left s). set x \<subseteq> {0}))"
proof (intro conjI allI impI ballI)
  have inv: "arc_inv os s (all_held held_maps ps) (all_held held_ids ps) (all_held held_guards ps)"
    and pc: "p \<in> set ps \<Longrightarrow> arc_pc_ok s p" for p
    using arc_run_inv [OF assms] by blast+
  note i = arc_invD [OF inv]
  show "\<not> ar_fault s" by (rule i(4))
  show "ar_maps s m \<noteq> None \<longleftrightarrow> m = ar_current s \<or> (\<exists>p\<in>set ps. m \<in># held_maps p)" for m
    unfolding maps_invD(2) [OF i(1)] maps_invD(1) [OF i(1), of m] in_all_held [symmetric]
    by (simp add: count_eq_zero_iff)
  show "ar_regions s r \<noteq> None \<longleftrightarrow>
      (\<exists>m es. ar_maps s m = Some es \<and> r \<in> set (map_ids es)) \<or> (\<exists>p\<in>set ps. r \<in># held_ids p)" for r
    unfolding refs_invD(2) [OF i(2)] refs_invD(1) [OF i(2), of r] in_all_held [symmetric] add_is_0
      map_total_zero [OF i(1)] by (auto simp: count_eq_zero_iff)
  show "\<exists>fr. load (ar_regions s) st = Inr fr \<and> faithful s st fr" if "AReading st \<in> set ps" for st
  proof -
    have "mset (storage_ids st) \<subseteq># all_held held_guards ps"
      using all_held_member [OF that, of held_guards] by simp
    then obtain G where "all_held held_guards ps = G + mset (storage_ids st)"
      by (metis subset_mset.add_diff_inverse add.commute)
    then obtain fr where "load (ar_regions s) st = Inr fr"
      using load_held inv by metis
    then show ?thesis
      using load_faithful [OF inv] pc [OF that] by auto
  qed
  show "faithful s st fr" if "ARead st fr \<in> set ps \<or> AClosed st fr \<in> set ps" for st fr
    using that pc by fastforce
  show "prot g = NoAccess" if "protect_total os" "ar_regions s r = Some g" "\<forall>p\<in>set ps. r \<notin># held_guards p" for r g
  proof -
    have "count (all_held held_guards ps) r = 0"
      using that(3) in_all_held [of r held_guards ps] by (simp add: count_eq_zero_iff)
    then show ?thesis
      using i(5) [OF that(2)] that(1) by (simp add: region_good_def)
  qed
  show "set x \<subseteq> {0}" if "protect_total os" "x \<in> set (ar_left s)" for x
    by (rule i(7) [OF that])
qed

text \<open>Two threads: one registers a key of one byte and is about to let the old map go, the other has it open.\<close>

lemma toy_protect: "\<exists>st g w. into_protected toy_os i rs (from_parts [[7]] [] 1) w0 = (Inr (st, g), w)"
proof -
  have c: "checked_next_multiple_of 1 16 = Some 16"
    by (simp add: checked_next_multiple_of_def usize_max_def)
  have "\<exists>r w1. guarded_new toy_os 1 w0 = (Inr r, w1)"
    unfolding guarded_new_def toy_os_page Let_def by (simp add: c [simplified] toy_os_def)
  then obtain r w1 where n: "guarded_new toy_os 1 w0 = (Inr r, w1)" by blast
  have p: "os_protect toy_os w a m x = (True, w)" for w a m x
    by (simp add: toy_os_def)
  show ?thesis
    using n by (simp add: into_protected_def from_parts_def layout_bytes_def usize_max_def result_simps
        guarded_seal_def p split_beta)
qed

theorem shared_storage_safe_witness:
  "\<exists>s m ms rs sizes l n fr. arc_run toy_os 0 s [ALeaving m ms rs, AReading (Region 0 sizes l n)] \<and>
     load (ar_regions s) (Region 0 sizes l n) = Inr fr \<and> chunks fr = [[7]] \<and> \<not> ar_fault s"
proof -
  let ?fr = "from_parts [[7]] [] 1" and ?s0 = "arcs_new 0 :: nat arcs"
  obtain st g w where p: "into_protected toy_os 0 Map.empty ?fr 0 = (Inr (st, g), w)"
    using toy_protect by blast
  obtain sizes l n where st: "st = Region 0 sizes l n"
    using into_protected_region [OF p] by blast
  let ?e = "\<lparr>ke_name = ''k'', ke_fragments = st, ke_metadata = key_metadata_new 0 1 None\<rparr>"
  let ?op = "Install 1 ?e" and ?new = "[(1, ?e)]"
  let ?s1 = "?s0\<lparr>ar_regions := g, ar_refs := (ar_refs ?s0)(ar_next ?s0 := 1), ar_made := (ar_made ?s0)(ar_next ?s0 := (st, ?fr)),
    ar_next := Suc (ar_next ?s0), ar_world := w\<rparr>"
  have "arc_run toy_os 0 ?s0 (replicate 2 AIdle)"
    by (rule arc_run.start)
  then have r0: "arc_run toy_os 0 ?s0 [AIdle, AIdle]"
    by (simp add: numeral_2_eq_2)
  have next1: "arc_run toy_os 0 s [p, q] \<Longrightarrow> arc_step toy_os 0 (s, p) (s', p') \<Longrightarrow> arc_run toy_os 0 s' [p', q]"
    and next2: "arc_run toy_os 0 s [p, q] \<Longrightarrow> arc_step toy_os 1 (s, q) (s', q') \<Longrightarrow> arc_run toy_os 0 s' [p, q']" for s s' :: "nat arcs" and p q p' q'
    using arc_run.step [of toy_os 0 s "[p, q]" 0 s' p'] arc_run.step [of toy_os 0 s "[p, q]" 1 s' q'] by simp_all
  have e0: "ar_next ?s0 = 0" "ar_regions ?s0 = Map.empty" "ar_world ?s0 = 0"
    by (simp_all add: arcs_new_def)
  have r1: "arc_run toy_os 0 ?s1 [AReady ?op, AIdle]"
    by (rule next1 [OF r0 arc_step.prepare]) (simp only: e0 p, simp add: from_parts_def, rule disjI1, rule refl)
  have r2: "arc_run toy_os 0 (?s1\<lparr>ar_writer := Some 0\<rparr>) [AHolding ?op, AIdle]"
    by (rule next1 [OF r1 arc_step.lock]) (simp add: arcs_new_def)
  let ?s2 = "?s1\<lparr>ar_writer := Some 0\<rparr>" let ?s3 = "map_share 0 ?s2"
  have "arc_run toy_os 0 (map_share (ar_current ?s2) ?s2) [ALoaded ?op (ar_current ?s2), AIdle]"
    by (rule next1 [OF r2 arc_step.load_full])
  then have r3: "arc_run toy_os 0 ?s3 [ALoaded ?op 0, AIdle]"
    by (simp add: arcs_new_def)
  have m3: "ar_maps ?s3 0 = Some []" "ar_current ?s3 = 0" "ar_next_map ?s3 = 1" "ar_regions ?s3 = g" "ar_map_refs ?s3 0 = 2"
    by (simp_all add: map_share_def arcs_new_def)
  have u: "under_lock ?op [] = (Handle (handle_from_id 1), Some ?new)"
    by (simp add: kv_has_name_def kv_insert_def kv_remove_def)
  have ids0: "map_ids [] = []"
    by (simp add: map_ids_def)
  have r4: "arc_run toy_os 0 ?s3 [ACopying ?op 0 (map_ids []) [], AIdle]"
    by (rule next1 [OF r3 arc_step.copy [OF m3(1) u]])
  have "arc_run toy_os 0 (fold (store_release toy_os) (op_removed ?op []) ?s3) [AEdited 0 ?new, AIdle]"
    by (rule next1 [OF r4 [unfolded ids0] arc_step.edit [OF m3(1) u]])
  then have r5: "arc_run toy_os 0 ?s3 [AEdited 0 ?new, AIdle]"
    by (simp add: removed_at_def kv_get_def)
  let ?s4 = "map_swap ?new ?s3"
  have r6: "arc_run toy_os 0 ?s4 [ALeaving 0 [ar_current ?s3] [], AIdle]"
    by (rule next1 [OF r5 arc_step.swap])
  have c4: "ar_current ?s4 = 1" "ar_maps ?s4 1 = Some ?new" "ar_map_refs ?s4 1 = 1" "ar_regions ?s4 = g"
    using m3 by (simp_all add: map_swap_def)
  let ?s5 = "map_share 1 ?s4"
  have r7: "arc_run toy_os 0 ?s5 [ALeaving 0 [ar_current ?s3] [], ASnapshot 1 1]"
    using next2 [OF r6 arc_step.snapshot [of toy_os 1 ?s4 1]] c4(1) by simp
  have c5: "ar_maps ?s5 1 = Some ?new" "ar_map_refs ?s5 1 = 2" "ar_regions ?s5 = g"
    using c4 by (simp_all add: map_share_def)
  let ?s6 = "fold store_share (storage_ids (ke_fragments ?e)) ?s5"
  have r8: "arc_run toy_os 0 ?s6 [ALeaving 0 [ar_current ?s3] [], AShared 1 st]"
    using next2 [OF r7 arc_step.share [OF c5(1), of 1 ?e]] by (simp add: kv_get_def)
  have c6: "ar_maps ?s6 1 = Some ?new" "ar_map_refs ?s6 1 = 2" "ar_regions ?s6 = g"
    using c5 st by (simp_all add: store_share_def)
  obtain s7 where s7: "map_release 1 ?s6 = ([], s7)" "ar_regions s7 = g"
    using c6 by (simp add: map_release_def)
  have r9: "arc_run toy_os 0 s7 [ALeaving 0 [ar_current ?s3] [], AOwning st []]"
    by (rule next2 [OF r8 arc_step.drop_snapshot [OF s7(1)]])
  obtain g2 w2 where o: "storage_open toy_os g st (ar_world s7) = (Inr g2, w2)"
    using into_protected_region [OF p] st by (auto simp: result_simps guarded_open_def toy_os_def)
  have r10: "arc_run toy_os 0 (s7\<lparr>ar_regions := g2, ar_world := w2\<rparr>) [ALeaving 0 [ar_current ?s3] [], AReading st]"
    by (rule next2 [OF r9 arc_step.open_ok]) (simp add: s7(2) o)
  obtain fr where fr: "load g2 st = Inr fr" "same_view fr ?fr"
    using into_protected_load [OF p o] by (auto simp: from_parts_def)
  have f: "\<not> ar_fault (s7\<lparr>ar_regions := g2, ar_world := w2\<rparr>)"
    using shared_storage_safe [OF r10] by blast
  have ld: "load (ar_regions (s7\<lparr>ar_regions := g2, ar_world := w2\<rparr>)) (Region 0 sizes l n) = Inr fr"
    using fr(1) st by simp
  have c: "chunks fr = [[7]]"
    using fr(2) by (simp add: same_view_def from_parts_def)
  show ?thesis
    by (intro exI conjI, rule r10 [unfolded st], rule ld, rule c, rule f)
qed

end
