(* ===== verification/Platform.thy ===== *)
theory Platform
  imports Buffers
begin

text \<open>
  The backends behind the parameter record \<open>os\<close>: \<^verbatim>\<open>src/src/memory/unix.rs\<close> over the functions of
  \<^verbatim>\<open>libc\<close>, \<^verbatim>\<open>src/src/memory/windows.rs\<close> over the Win32 functions, and the empty backend of
  \<^verbatim>\<open>src/src/memory/mod.rs\<close> for targets without either; and the clock of \<^verbatim>\<open>src/src/clock.rs\<close>. The
  lemmas carry what the manuals say about the system functions, failing calls included, over to the
  laws \<open>lock_law\<close>, \<open>map_law\<close> and \<open>keeps_owned\<close> that the other theories assume of an \<open>os\<close>, and from
  there to the buffers and the page table over each backend.
\<close>

section \<open>Unix\<close>

datatype advice = MADV_DONTDUMP | MADV_DODUMP | MADV_NOCORE | MADV_CORE

datatype prot_flag = PROT_READ | PROT_WRITE

text \<open>Return codes are integers, addresses natural numbers; \<^verbatim>\<open>mmap\<close> is called with a null hint, private and
  anonymous; protections are sets of flags, \<^verbatim>\<open>PROT_NONE\<close> the empty one.\<close>

record 'w libc =
  c_mlock :: "'w \<Rightarrow> nat \<Rightarrow> nat \<Rightarrow> int \<times> 'w"
  c_munlock :: "'w \<Rightarrow> nat \<Rightarrow> nat \<Rightarrow> int \<times> 'w"
  c_madvise :: "'w \<Rightarrow> nat \<Rightarrow> nat \<Rightarrow> advice \<Rightarrow> int \<times> 'w"
  c_sysconf_pagesize :: int
  c_mmap :: "'w \<Rightarrow> nat \<Rightarrow> prot_flag set \<Rightarrow> nat \<times> 'w"
  c_munmap :: "'w \<Rightarrow> nat \<Rightarrow> nat \<Rightarrow> int \<times> 'w"
  c_mprotect :: "'w \<Rightarrow> nat \<Rightarrow> nat \<Rightarrow> prot_flag set \<Rightarrow> int \<times> 'w"

text \<open>The \<^verbatim>\<open>cfg\<close> cases: Linux and Android, FreeBSD and DragonFly, the rest.\<close>

datatype unix_kind = LinuxLike | BsdLike | OtherUnix

definition MAP_FAILED :: nat where
  "MAP_FAILED = 2 ^ 64 - 1"

definition unix_lock_pages :: "'w libc \<Rightarrow> 'w \<Rightarrow> nat \<Rightarrow> nat \<Rightarrow> bool \<times> 'w" where
  "unix_lock_pages lc w ptr len = (case c_mlock lc w ptr len of (rc, w') \<Rightarrow> (rc = 0, w'))"

definition unix_unlock_pages :: "'w libc \<Rightarrow> 'w \<Rightarrow> nat \<Rightarrow> nat \<Rightarrow> 'w" where
  "unix_unlock_pages lc w ptr len = snd (c_munlock lc w ptr len)"

definition unix_exclude_from_dumps :: "'w libc \<Rightarrow> unix_kind \<Rightarrow> 'w \<Rightarrow> nat \<Rightarrow> nat \<Rightarrow> bool \<times> 'w" where
  "unix_exclude_from_dumps lc k w ptr len =
     (case k of
        LinuxLike \<Rightarrow> (case c_madvise lc w ptr len MADV_DONTDUMP of (rc, w') \<Rightarrow> (rc = 0, w'))
      | BsdLike \<Rightarrow> (case c_madvise lc w ptr len MADV_NOCORE of (rc, w') \<Rightarrow> (rc = 0, w'))
      | OtherUnix \<Rightarrow> (False, w))"

definition unix_include_in_dumps :: "'w libc \<Rightarrow> unix_kind \<Rightarrow> 'w \<Rightarrow> nat \<Rightarrow> nat \<Rightarrow> 'w" where
  "unix_include_in_dumps lc k w ptr len =
     (case k of
        LinuxLike \<Rightarrow> snd (c_madvise lc w ptr len MADV_DODUMP)
      | BsdLike \<Rightarrow> snd (c_madvise lc w ptr len MADV_CORE)
      | OtherUnix \<Rightarrow> w)"

definition unix_system_page_size :: "'w libc \<Rightarrow> nat option" where
  "unix_system_page_size lc =
     (let n = c_sysconf_pagesize lc in if 0 < n \<and> n \<le> int usize_max then Some (nat n) else None)"

definition unix_map_region :: "'w libc \<Rightarrow> 'w \<Rightarrow> nat \<Rightarrow> nat option \<times> 'w" where
  "unix_map_region lc w len =
     (case c_mmap lc w len {PROT_READ, PROT_WRITE} of
        (p, w') \<Rightarrow> (if p = MAP_FAILED \<or> p = 0 then None else Some p, w'))"

definition unix_unmap_region :: "'w libc \<Rightarrow> 'w \<Rightarrow> nat \<Rightarrow> nat \<Rightarrow> 'w" where
  "unix_unmap_region lc w ptr len = snd (c_munmap lc w ptr len)"

definition unix_protect :: "'w libc \<Rightarrow> 'w \<Rightarrow> nat \<Rightarrow> nat \<Rightarrow> access \<Rightarrow> bool \<times> 'w" where
  "unix_protect lc w ptr len a =
     (let prot = (case a of NoAccess \<Rightarrow> {} | ReadAccess \<Rightarrow> {PROT_READ} | ReadWrite \<Rightarrow> {PROT_READ, PROT_WRITE})
      in case c_mprotect lc w ptr len prot of (rc, w') \<Rightarrow> (rc = 0, w'))"

definition unix_os :: "'w libc \<Rightarrow> unix_kind \<Rightarrow> 'w os" where
  "unix_os lc k = \<lparr>os_lock_pages = unix_lock_pages lc, os_unlock_pages = unix_unlock_pages lc,
     os_exclude_from_dumps = unix_exclude_from_dumps lc k, os_include_in_dumps = unix_include_in_dumps lc k,
     os_map_region = unix_map_region lc, os_unmap_region = unix_unmap_region lc, os_protect = unix_protect lc,
     os_system_page_size = unix_system_page_size lc, os_lock_survives_no_access = True\<rparr>"

section \<open>Windows\<close>















text \<open>Targets without either have no guarded regions and no pool; the remaining calls do nothing.\<close>

definition no_os :: "'w os" where
  "no_os = \<lparr>os_lock_pages = (\<lambda>w ptr len. (False, w)), os_unlock_pages = (\<lambda>w ptr len. w),
     os_exclude_from_dumps = (\<lambda>w ptr len. (False, w)), os_include_in_dumps = (\<lambda>w ptr len. w),
     os_map_region = (\<lambda>w len. (None, w)), os_unmap_region = (\<lambda>w ptr len. w), os_protect = (\<lambda>w ptr len a. (False, w)),
     os_system_page_size = None, os_lock_survives_no_access = True\<rparr>"

section \<open>The clock\<close>

text \<open>\<^verbatim>\<open>StdClock\<close>: the static is set once, to an instant \<open>t0\<close> read only then; \<^verbatim>\<open>elapsed\<close> reads an
  instant \<open>t1\<close> and its subtraction saturates. Both are readings of the monotonic clock of \<^verbatim>\<open>std\<close>.\<close>

definition std_clock_now :: "nat \<Rightarrow> nat \<Rightarrow> nat option \<Rightarrow> duration \<times> nat option" where
  "std_clock_now t0 t1 base_slot =
     (let b = (case base_slot of None \<Rightarrow> t0 | Some b \<Rightarrow> b) in (t1 - b, Some b))"

text \<open>\<^verbatim>\<open>duration_since(UNIX_EPOCH).unwrap_or_default()\<close>, for a system time relative to the epoch.\<close>

definition std_clock_unix_time :: "int \<Rightarrow> duration" where
  "std_clock_unix_time t = (if 0 \<le> t then nat t else 0)"

definition default_unix_time :: duration where
  "default_unix_time = 0"

section \<open>The manuals of the system functions\<close>





section \<open>The backends keep the laws\<close>











text \<open>The clock never runs backwards, whatever the static held before the first of the two calls.\<close>

lemma std_clock_monotone:
  assumes "std_clock_now t0 t1 b = (d, b')" "std_clock_now t2 t3 b' = (d', b'')" "t1 \<le> t3"
  shows "d \<le> d'" "b'' = b'"
  using assms by (auto simp: std_clock_now_def Let_def)

section \<open>The property\<close>

text \<open>
  Systems for examples, over the world of \<open>space_os\<close>: the address 4096 times the next number is mapped, and
  \<^verbatim>\<open>kernel32\<close> has no function for excluding memory from reports.
\<close>

definition space_mmap :: "nat \<Rightarrow> nat \<times> nat set \<times> nat set \<Rightarrow> nat \<Rightarrow> nat \<times> nat \<times> nat set \<times> nat set" where
  "space_mmap failed w n =
     (case space_take (Suc (fst w div 4096) * 4096) w n of (Some a, w') \<Rightarrow> (a, w') | (None, w') \<Rightarrow> (failed, w'))"

definition space_libc :: "(nat \<times> nat set \<times> nat set) libc" where
  "space_libc = \<lparr>c_mlock = (\<lambda>(x, own, lk) a n. (0, x, own, lk \<union> {a..<a + n})),
     c_munlock = (\<lambda>(x, own, lk) a n. (0, x, own, lk - {a..<a + n})), c_madvise = (\<lambda>w a n v. (0, w)),
     c_sysconf_pagesize = 4096, c_mmap = (\<lambda>w n ps. space_mmap MAP_FAILED w n), c_munmap = (\<lambda>w a n. (0, w)),
     c_mprotect = (\<lambda>w a n ps. (0, w))\<rparr>"


lemma is_power_4096: "is_power_of_two 4096"
  by (auto simp: is_power_of_two_def list_ex_iff intro!: bexI [of _ 12])






section \<open>Over the backends\<close>







text \<open>A system whose \<^verbatim>\<open>munlock\<close> always fails keeps the lock of a page nobody uses any more: the code ignores the result.\<close>

definition stuck_libc :: "(nat \<times> nat set \<times> nat set) libc" where
  "stuck_libc = space_libc\<lparr>c_munlock := (\<lambda>w a n. (-1, w))\<rparr>"


lemma stuck_page_size: "page_size (unix_os stuck_libc k) = 4096"
  by (simp add: page_size_def unix_os_def unix_system_page_size_def stuck_libc_def space_libc_def is_power_4096 usize_max_def)

lemma failing_munlock_leaves_page:
  "\<exists>lk t w. acquire_region (unix_os stuck_libc LinuxLike) 4096 10 (Map.empty, 0, {}, {}) = (Inr lk, t) \<and>
     release_region (unix_os stuck_libc LinuxLike) 4096 10 t = (Inr (), Map.empty, w) \<and> 4096 \<in> snd (snd w)"
proof -
  let ?os = "unix_os stuck_libc LinuxLike"
  note ps = stuck_page_size [of LinuxLike]
  have v: "valid_buffer 4096 10"
    by (simp add: valid_buffer_def)
  have b: "buffer_pages ?os 4096 10 = [4096]"
    by (simp add: ps visited_def page_count_def)
  note d = ps acquire_page_def release_page_def unix_os_def unix_lock_pages_def unix_unlock_pages_def
    unix_exclude_from_dumps_def unix_include_in_dumps_def stuck_libc_def space_libc_def
  show ?thesis
    unfolding acquire_region_pages [OF v] release_region_pages [OF v] b by (auto simp: d Let_def)
qed




end
