(* ===== verification/Redaction.thy ===== *)
theory Redaction
  imports Builder Buffers Fetch
begin

text \<open>
  What \<^verbatim>\<open>{:?}\<close> prints of the types that hold or refer to key material: the \<^verbatim>\<open>Debug\<close> implementations of
  \<^verbatim>\<open>vault/mod.rs\<close>, \<^verbatim>\<open>fragment/\<close>, \<^verbatim>\<open>codex/\<close>, \<^verbatim>\<open>memory/\<close> and \<^verbatim>\<open>monitor/composite.rs\<close>. Those of \<^verbatim>\<open>RawKey\<close> and
  of the handles are in \<open>Fetch\<close> and \<open>Handle\<close>. The property says that the text does not depend on the keys.
\<close>

section \<open>Formatting\<close>

text \<open>\<^verbatim>\<open>debug_struct\<close> with its fields, ended by \<^verbatim>\<open>finish\<close> or \<^verbatim>\<open>finish_non_exhaustive\<close>.\<close>

definition debug_fields :: "(string \<times> string) list \<Rightarrow> string" where
  "debug_fields fs = concat (map (\<lambda>(i, f, x). (if i = 0 then [] else '', '') @ f @ '': '' @ x) (enumerate 0 fs))"

definition debug_struct :: "string \<Rightarrow> (string \<times> string) list \<Rightarrow> string" where
  "debug_struct name fs = name @ '' { '' @ debug_fields fs @ '' }''"

definition debug_struct_more :: "string \<Rightarrow> (string \<times> string) list \<Rightarrow> string" where
  "debug_struct_more name fs = name @ '' { '' @ debug_fields fs @ '', .. }''"

definition debug_bool :: "bool \<Rightarrow> string" where
  "debug_bool b = (if b then ''true'' else ''false'')"

definition debug_option :: "('a \<Rightarrow> string) \<Rightarrow> 'a option \<Rightarrow> string" where
  "debug_option d x = (case x of None \<Rightarrow> ''None'' | Some a \<Rightarrow> ''Some('' @ d a @ '')'')"

definition debug_list :: "string list \<Rightarrow> string" where
  "debug_list xs = ''['' @ concat (map (\<lambda>(i, x). (if i = 0 then [] else '', '') @ x) (enumerate 0 xs)) @ '']''"

text \<open>\<^verbatim>\<open>Debug for Duration\<close>: the largest unit that fits, with the digits of the rest up to the last one that is not
  0. The micro sign is two bytes in UTF-8.\<close>

fun fraction_digits :: "nat \<Rightarrow> nat \<Rightarrow> nat \<Rightarrow> string" where
  "fraction_digits 0 rest d = []"
| "fraction_digits (Suc k) rest d =
     (if rest = 0 then [] else char_of (48 + rest div d) # fraction_digits k (rest mod d) (d div 10))"

definition fmt_decimal :: "nat \<Rightarrow> nat \<Rightarrow> nat \<Rightarrow> string \<Rightarrow> string" where
  "fmt_decimal whole rest d unit_name =
     (let ds = fraction_digits 9 rest d in decimal whole @ (if ds = [] then [] else ''.'' @ ds) @ unit_name)"

definition debug_duration :: "duration \<Rightarrow> string" where
  "debug_duration t =
     (let secs = t div 1000000000; nanos = t mod 1000000000 in
      if 0 < secs then fmt_decimal secs nanos 100000000 ''s''
      else if 1000000 \<le> nanos then fmt_decimal (nanos div 1000000) (nanos mod 1000000) 100000 ''ms''
      else if 1000 \<le> nanos then fmt_decimal (nanos div 1000) (nanos mod 1000) 100 [CHR 0xC2, CHR 0xB5, CHR ''s'']
      else fmt_decimal nanos 0 1 ''ns'')"

section \<open>The implementations\<close>

definition locked_bytes_debug :: "locked_bytes \<Rightarrow> string" where
  "locked_bytes_debug b = debug_struct_more ''LockedBytes''
     [(''len'', decimal (lb_len b)), (''locked'', debug_bool (lb_locked b)), (''bytes'', debug_str ''<redacted>'')]"

definition guarded_region_debug :: "guarded_region \<Rightarrow> string" where
  "guarded_region_debug g = debug_struct_more ''GuardedRegion''
     [(''len'', decimal (used_len g)), (''locked'', debug_bool (locked g)), (''bytes'', debug_str ''<redacted>'')]"

definition static_codex_debug :: "static_codex \<Rightarrow> string" where
  "static_codex_debug c = debug_struct ''StaticCodex'' [(''table'', debug_str ''<redacted>'')]"

definition dynamic_codex_debug :: "dynamic_codex \<Rightarrow> string" where
  "dynamic_codex_debug c = debug_struct ''DynamicCodex'' [(''table'', debug_str ''<redacted>'')]"

text \<open>\<^verbatim>\<open>Fragments\<close>: the shape, read off the handle and not off the pages.\<close>

fun storage_chunk_count :: "storage \<Rightarrow> nat" where
  "storage_chunk_count (storage.Heap fr) = length (chunks fr)"
| "storage_chunk_count (Region r sizes l n) = length sizes"

definition fragments_debug :: "storage \<Rightarrow> string" where
  "fragments_debug st = debug_struct_more ''Fragments''
     [(''chunks'', decimal (storage_chunk_count st)), (''total_len'', decimal (storage_total_len st)),
      (''contents'', debug_str ''<opaque>'')]"

definition standard_fragmenter_debug :: "'w standard_fragmenter \<Rightarrow> string" where
  "standard_fragmenter_debug f = debug_struct ''StandardFragmenter''
     [(''min_chunk'', decimal (sf_min_chunk f)), (''max_chunk'', decimal (sf_max_chunk f)),
      (''decoy'', debug_option (\<lambda>d. debug_str (dc_describe d)) (sf_decoy f))]"

definition layered_fragmenter_debug :: "'w layered_fragmenter \<Rightarrow> string" where
  "layered_fragmenter_debug f = debug_struct ''LayeredFragmenter''
     [(''sub_strategies'', debug_list (map (\<lambda>x. debug_str (st_describe x)) (sub_strategies f)))]"

definition composite_debug :: "'m monitor list \<Rightarrow> string" where
  "composite_debug ms = debug_struct ''CompositeMonitor'' [(''inner_count'', decimal (composite_len ms))]"

text \<open>\<^verbatim>\<open>VaultConfig\<close> derives its implementation.\<close>

definition vault_config_debug :: "vault_config \<Rightarrow> string" where
  "vault_config_debug c = debug_struct ''VaultConfig''
     [(''key_normalization'', debug_bool (key_normalization c)),
      (''keyed_normalization'', debug_bool (keyed_normalization c)),
      (''max_failures_before_lockout'', decimal (max_failures_before_lockout c)),
      (''failure_window'', debug_duration (failure_window c)),
      (''key_lockout_threshold'', decimal (key_lockout_threshold c)),
      (''key_lockout_window'', debug_duration (key_lockout_window c)),
      (''key_lockout_duration'', debug_option debug_duration (key_lockout_duration c)),
      (''master_backoff_base'', debug_duration (master_backoff_base c)),
      (''master_backoff_max'', debug_duration (master_backoff_max c)),
      (''page_protection'', debug_bool (page_protection c))]"

definition key_vault_debug :: "'w vault \<Rightarrow> 'w vstate \<Rightarrow> string" where
  "key_vault_debug v s = debug_struct ''KeyVault''
     [(''locked_out'', debug_bool (is_locked_out s)), (''keys_locked_out'', decimal (unat (key_locks_active s))),
      (''fragmenter'', debug_str (fragmenter_describe (v_fragmenter v))),
      (''decoy_ignored'', debug_bool (v_decoy_ignored v)), (''config'', vault_config_debug (v_config v))]"

definition builder_debug :: "('w, 'm, 'a) builder \<Rightarrow> string" where
  "builder_debug b = debug_struct_more ''KeyVaultBuilder''
     [(''config'', vault_config_debug (b_config b)),
      (''fragmenter'', debug_str (case b_fragmenter b of BStandard f \<Rightarrow> ''standard'' | BCustom c \<Rightarrow> st_describe c)),
      (''decoy_ignored'', debug_bool (decoy_ignored b)),
      (''codex'', debug_option (\<lambda>x. debug_str ''<set>'') (b_codex b)),
      (''monitor'', debug_option (\<lambda>x. debug_str ''<set>'') (b_monitor b)),
      (''audit'', debug_option (\<lambda>x. debug_str ''<set>'') (b_audit b)),
      (''master_key'', debug_option (\<lambda>x. debug_str ''<set>'') (b_master b))]"

section \<open>The property\<close>

lemma debug_store_only: "store_only s s' \<Longrightarrow> key_vault_debug v s' = key_vault_debug v s"
  by (simp add: key_vault_debug_def store_only_def is_locked_out_def)

lemma rotate_debug:
  "key_vault_debug v (snd (rotate E v h new1 s)) = key_vault_debug v (snd (rotate E v h new2 s))"
proof -
  have r: "key_vault_debug v (snd (rotate E v h k s)) =
      (if is_locked_out s then key_vault_debug v s
       else case kv_get (handle_id h) (keys s) of None \<Rightarrow> key_vault_debug v s
            | Some e \<Rightarrow> key_vault_debug v (snd (key_locked E (ke_name e) s)))" for k
  proof -
    have "store_only s1 (snd (rbind (fragment_for_registry E v k) (\<lambda>st s2.
        let (t, s3) = clock_unix_time E s2 in rotate_install E v h st (key_metadata_new t (length k) None) s3) s1))" for s1
      by (intro store_only_rbind store_only_for_registry store_only_rotate_rest)
    then show ?thesis
      by (simp add: rotate_def debug_store_only split: option.split prod.split bool.split)
  qed
  show ?thesis
    unfolding r ..
qed

lemma builder_debug_master: "builder_debug (fst (with_master_key E m1 b w)) = builder_debug (fst (with_master_key E m2 b w))"
  by (simp add: with_master_key_def builder_debug_def decoy_ignored_def debug_option_def split: prod.split sum.split)

lemma finish_debug:
  "key_vault_debug (fst (finish E b ic w)) (snd (finish E b ic w)) =
   debug_struct ''KeyVault''
     [(''locked_out'', ''false''), (''keys_locked_out'', decimal 0),
      (''fragmenter'', debug_str (case b_fragmenter b of BStandard f \<Rightarrow> ''standard'' | BCustom c \<Rightarrow> st_describe c)),
      (''decoy_ignored'', debug_bool (decoy_ignored b)), (''config'', vault_config_debug (b_config b))]"
  by (simp add: finish_def Let_def split_beta key_vault_debug_def is_locked_out_def debug_bool_def
      split: builder_fragmenter.split)

text \<open>(C39) \<^verbatim>\<open>{:?}\<close> output carries no key: the text of a vault is the same after a registration or a removal, failed
  or not, whatever the key bytes, the texts after rotating to two different keys are the same, and so
  are those of builders, and of the vaults built from them, that differ in the master credential or the normalization
  key only; a \<^verbatim>\<open>RawKey\<close> shows its length, fragments show the number of chunks and the length, protected or not, and
  regions and codices nothing of their bytes.\<close>

theorem debug_hides_keys:
  "key_vault_debug v (snd (register E v n keya s)) = key_vault_debug v s \<and>
   key_vault_debug v (snd (unregister E v h s)) = key_vault_debug v s \<and>
   key_vault_debug v (snd (rotate E v h keya s)) = key_vault_debug v (snd (rotate E v h keyb s)) \<and>
   builder_debug (fst (with_master_key E keya b w)) = builder_debug (fst (with_master_key E keyb b w)) \<and>
   builder_debug (with_normalization_key b3 keya b) = builder_debug (with_normalization_key b3 keyb b) \<and>
   (case (with_master_key E keya b w, with_master_key E keyb b w) of
      ((b1, w1), (b2, w2)) \<Rightarrow>
        key_vault_debug (fst (finish E b1 ic w1)) (snd (finish E b1 ic w1)) =
        key_vault_debug (fst (finish E b2 ic w2)) (snd (finish E b2 ic w2))) \<and>
   (case (finish E (with_normalization_key b3 keya b) ic w, finish E (with_normalization_key b3 keyb b) ic w) of
      ((v1, s1), (v2, s2)) \<Rightarrow> key_vault_debug v1 s1 = key_vault_debug v2 s2) \<and>
   (length keya = length keyb \<longrightarrow> raw_key_debug keya = raw_key_debug keyb) \<and>
   (map length csa = map length csb \<longrightarrow>
      fragments_debug (storage.Heap (from_parts csa lya k)) = fragments_debug (storage.Heap (from_parts csb lyb k))) \<and>
   (into_protected os i rs fr w = (Inr (st, rs'), w') \<longrightarrow> fragments_debug st = fragments_debug (storage.Heap fr)) \<and>
   guarded_region_debug (g\<lparr>mem := keya\<rparr>) = guarded_region_debug (g\<lparr>mem := keyb\<rparr>) \<and>
   static_codex_debug c1 = static_codex_debug c2 \<and> dynamic_codex_debug d1 = dynamic_codex_debug d2"
proof (intro conjI impI)
  show "key_vault_debug v (snd (register E v n keya s)) = key_vault_debug v s"
    by (rule debug_store_only [OF store_only_register])
  show "key_vault_debug v (snd (unregister E v h s)) = key_vault_debug v s"
    by (rule debug_store_only [OF store_only_unregister])
  show "builder_debug (with_normalization_key b3 keya b) = builder_debug (with_normalization_key b3 keyb b)"
    by (simp add: with_normalization_key_def builder_debug_def decoy_ignored_def)
  show "case (with_master_key E keya b w, with_master_key E keyb b w) of
      ((b1, w1), (b2, w2)) \<Rightarrow>
        key_vault_debug (fst (finish E b1 ic w1)) (snd (finish E b1 ic w1)) =
        key_vault_debug (fst (finish E b2 ic w2)) (snd (finish E b2 ic w2))"
    by (simp add: finish_debug with_master_key_def decoy_ignored_def split: prod.split sum.split)
  show "case (finish E (with_normalization_key b3 keya b) ic w, finish E (with_normalization_key b3 keyb b) ic w) of
      ((v1, s1), (v2, s2)) \<Rightarrow> key_vault_debug v1 s1 = key_vault_debug v2 s2"
    using finish_debug [of E "with_normalization_key b3 keya b" ic w] finish_debug [of E "with_normalization_key b3 keyb b" ic w]
    by (simp add: split_beta with_normalization_key_def decoy_ignored_def)
  show "fragments_debug (storage.Heap (from_parts csa lya k)) = fragments_debug (storage.Heap (from_parts csb lyb k))"
    if "map length csa = map length csb"
    using map_eq_imp_length_eq [OF that] by (simp add: fragments_debug_def from_parts_def)
  show "fragments_debug st = fragments_debug (storage.Heap fr)" if "into_protected os i rs fr w = (Inr (st, rs'), w')"
    using into_protected_region [OF that] by (auto simp: fragments_debug_def)
qed (rule rotate_debug builder_debug_master | simp add: raw_key_debug_def guarded_region_debug_def static_codex_debug_def
    dynamic_codex_debug_def)+

theorem debug_hides_keys_witness:
  "raw_key_debug [1, 2] = raw_key_debug [3, 4] \<and>
   fragments_debug (storage.Heap (from_parts [[1]] [9] 1)) = fragments_debug (storage.Heap (from_parts [[2]] [8, 8] 1)) \<and>
   fragments_debug (storage.Heap (from_parts [[1]] [9] 1)) =
     ''Fragments { chunks: 1, total_len: 1, contents: '' @ debug_str ''<opaque>'' @ '', .. }'' \<and>
   debug_duration 1500000000 = ''1.5s''"
proof -
  have "fragments_debug (storage.Heap (from_parts [[1]] [9] 1)) =
     ''Fragments { chunks: 1, total_len: 1, contents: '' @ debug_str ''<opaque>'' @ '', .. }''"
    by (simp add: fragments_debug_def debug_struct_more_def debug_fields_def from_parts_def decimal.simps char_of_def bit_0)
  moreover have "fraction_digits 9 500000000 100000000 = ''5''"
    using fraction_digits.simps(2) [of 8 500000000 100000000] fraction_digits.simps(2) [of 7 0 10000000]
    by (simp add: char_of_def bit_0)
  then have "debug_duration 1500000000 = ''1.5s''"
    by (simp add: debug_duration_def fmt_decimal_def decimal.simps char_of_def bit_0)
  moreover have "length [1, 2 :: u8] = length [3, 4 :: u8]" "map length [[1 :: u8]] = map length [[2 :: u8]]"
    by simp_all
  note eq = this
  note d = debug_hides_keys [where keya = "[1, 2]" and keyb = "[3, 4]" and csa = "[[1]]" and csb = "[[2]]"
      and lya = "[9]" and lyb = "[8, 8]" and k = 1, THEN conjunct2, THEN conjunct2, THEN conjunct2, THEN conjunct2,
      THEN conjunct2, THEN conjunct2, THEN conjunct2]
  have "raw_key_debug [1, 2] = raw_key_debug [3, 4]"
    by (rule d [THEN conjunct1, THEN mp, OF eq(1)])
  moreover have "fragments_debug (storage.Heap (from_parts [[1]] [9] 1)) = fragments_debug (storage.Heap (from_parts [[2]] [8, 8] 1))"
    by (rule d [THEN conjunct2, THEN conjunct1, THEN mp, OF eq(2)])
  ultimately show ?thesis
    by blast
qed

end
