(* ===== verification/Guessing.thy ===== *)
theory Guessing
  imports Service Threads
begin

text \<open>
  Parallel guesses at the master credential: \<^verbatim>\<open>unlock_with_master\<close> of \<^verbatim>\<open>src/src/vault/mod.rs\<close> called from any
  number of threads. An attempt holds the mutex of the backoff from before it reads the clock until it has written
  the backoff back; the steps in between, and the passing of time, interleave with the steps of the others. What
  follows the mutex (the audit event, the lockouts) is in \<open>Master\<close>.
\<close>

section \<open>Attempts as steps\<close>

text \<open>The clock, the backoff behind its mutex, the owner of the mutex; as a ghost, the attempts that were compared
  with the verifier, each with the time it read and whether it matched.\<close>

record guess_state =
  gs_now :: duration
  gs_backoff :: backoff
  gs_owner :: "nat option"
  gs_log :: "(duration \<times> bool) list"

datatype guess_outcome = Limited duration | Broken fault | Compared bool

datatype guess_pc =
    GIdle
  | GWaiting bytes
  | GLocked bytes
  | GChecked bytes duration
  | GLeaving guess_outcome
  | GDone guess_outcome

text \<open>\<open>broken\<close> is a verifier that is not available or that cannot be read: the attempt ends without a comparison
  and without touching the backoff.\<close>

inductive guess_step :: "'w vault \<Rightarrow> blake3 \<Rightarrow> bytes \<Rightarrow> nat \<Rightarrow> guess_state \<times> guess_pc \<Rightarrow> guess_state \<times> guess_pc \<Rightarrow> bool"
  for v b3 stored t where
  call: "guess_step v b3 stored t (s, GIdle) (s, GWaiting attempt)"
| lock: "gs_owner s = None \<Longrightarrow> guess_step v b3 stored t (s, GWaiting attempt) (s\<lparr>gs_owner := Some t\<rparr>, GLocked attempt)"
| limited: "gs_now s < next_allowed (gs_backoff s) \<Longrightarrow>
    guess_step v b3 stored t (s, GLocked attempt) (s, GLeaving (Limited (next_allowed (gs_backoff s) - gs_now s)))"
| allowed: "\<not> gs_now s < next_allowed (gs_backoff s) \<Longrightarrow>
    guess_step v b3 stored t (s, GLocked attempt) (s, GChecked attempt (gs_now s))"
| broken: "guess_step v b3 stored t (s, GChecked attempt now) (s, GLeaving (Broken e))"
| compare: "m = master_matches b3 attempt stored \<Longrightarrow>
    guess_step v b3 stored t (s, GChecked attempt now)
      (s\<lparr>gs_backoff := backoff_after v now m (gs_backoff s), gs_log := gs_log s @ [(now, m)]\<rparr>, GLeaving (Compared m))"
| unlock: "guess_step v b3 stored t (s, GLeaving out) (s\<lparr>gs_owner := None\<rparr>, GDone out)"
| return: "guess_step v b3 stored t (s, GDone out) (s, GIdle)"
| tick: "gs_now s \<le> now \<Longrightarrow> guess_step v b3 stored t (s, p) (s\<lparr>gs_now := now\<rparr>, p)"

definition guess_start :: "guess_state \<Rightarrow> bool" where
  "guess_start s \<longleftrightarrow> gs_backoff s = backoff_default \<and> gs_owner s = None \<and> gs_log s = []"

section \<open>Specification\<close>

text \<open>One comparison after the other, each when the backoff that the earlier ones left allows it.\<close>

fun attempts_ok :: "'w vault \<Rightarrow> backoff \<Rightarrow> (duration \<times> bool) list \<Rightarrow> bool" where
  "attempts_ok v b [] \<longleftrightarrow> True"
| "attempts_ok v b ((t, m) # l) \<longleftrightarrow> next_allowed b \<le> t \<and> attempts_ok v (backoff_after v t m b) l"

definition backoff_of :: "'w vault \<Rightarrow> backoff \<Rightarrow> (duration \<times> bool) list \<Rightarrow> backoff" where
  "backoff_of v b l = foldl (\<lambda>b (t, m). backoff_after v t m b) b l"

lemma attempts_ok_append: "attempts_ok v b (xs @ ys) \<longleftrightarrow> attempts_ok v b xs \<and> attempts_ok v (backoff_of v b xs) ys"
  by (induction v b xs rule: attempts_ok.induct) (auto simp: backoff_of_def)

lemma backoff_of_snoc: "backoff_of v b (l @ [(t, m)]) = backoff_after v t m (backoff_of v b l)"
  by (simp add: backoff_of_def)

text \<open>The delay after the first failure, the second and so on.\<close>

definition doubled :: "vault_config \<Rightarrow> nat \<Rightarrow> duration" where
  "doubled c i = min (master_backoff_base c * 2 ^ min i 31) (master_backoff_max c)"

lemma delay_doubled:
  assumes "master_backoff_max (v_config v) \<le> duration_max" "min i 31 < n"
  shows "doubled (v_config v) i \<le> backoff_delay v n"
proof -
  have "(2::nat) ^ min i 31 \<le> 2 ^ (min n 32 - 1)"
    using assms(2) by (intro power_increasing) auto
  then have "master_backoff_base (v_config v) * 2 ^ min i 31 \<le> master_backoff_base (v_config v) * 2 ^ (min n 32 - 1)"
    by (rule mult_left_mono) simp
  moreover have "1 \<le> n" using assms(2) by simp
  ultimately show ?thesis
    unfolding doubled_def backoff_delay_eq [OF assms(1) \<open>1 \<le> n\<close>] by (intro min.mono order_refl)
qed

text \<open>After a failure at \<open>t\<close> the next comparison is at least the delay later.\<close>

lemma failure_spacing:
  assumes "t + master_backoff_max (v_config v) \<le> duration_max" "min i 31 \<le> failures b"
  shows "t + doubled (v_config v) i \<le> next_allowed (backoff_after v t False b)"
    "min (Suc i) 31 \<le> failures (backoff_after v t False b)"
proof -
  let ?n = "if failures b < u32_max then failures b + 1 else u32_max"
  have i: "min i 31 < ?n" "min (Suc i) 31 \<le> ?n"
    using assms(2) by (auto simp: u32_max_def)
  have "doubled (v_config v) i \<le> backoff_delay v ?n"
    by (rule delay_doubled) (use assms(1) i in simp_all)
  then show "t + doubled (v_config v) i \<le> next_allowed (backoff_after v t False b)"
    using assms(1) backoff_delay_le [of v ?n] by (simp add: backoff_after_def Let_def dur_saturating_add_def)
  show "min (Suc i) 31 \<le> failures (backoff_after v t False b)"
    using i(2) by (simp add: backoff_after_def Let_def)
qed

lemma failures_spread:
  assumes "attempts_ok v b l" "\<forall>(t, m)\<in>set l. \<not> m \<and> t + master_backoff_max (v_config v) \<le> duration_max"
    and "min k 31 \<le> failures b" "l \<noteq> []"
  shows "fst (hd l) + (\<Sum>i<length l - 1. doubled (v_config v) (k + i)) \<le> fst (last l)"
  using assms
proof (induction l arbitrary: b k)
  case (Cons x l)
  obtain t where x: "x = (t, False)"
    using Cons.prems(2) by (cases x) auto
  note sp = failure_spacing [of t v k b]
  have t: "t + master_backoff_max (v_config v) \<le> duration_max"
    using Cons.prems(2) x by simp
  show ?case
  proof (cases l)
    case (Cons y l')
    have first: "t + doubled (v_config v) k \<le> fst y"
      using Cons.prems(1) sp(1) [OF t] Cons.prems(3) x Cons by (cases y) auto
    have rest: "fst (hd l) + (\<Sum>i<length l - 1. doubled (v_config v) (Suc k + i)) \<le> fst (last l)"
      by (rule Cons.IH [where b = "backoff_after v t False b"])
         (use Cons.prems x Cons sp(2) [OF t] in simp_all)
    have "(\<Sum>i<length (x # l) - 1. doubled (v_config v) (k + i)) =
        doubled (v_config v) k + (\<Sum>i<length l - 1. doubled (v_config v) (Suc k + i))"
      using Cons sum.lessThan_Suc_shift [of "\<lambda>i. doubled (v_config v) (k + i)" "length l'"] by simp
    then show ?thesis
      using first rest x Cons by simp
  qed (simp add: x)
qed simp

section \<open>The invariant\<close>

definition guess_inv :: "'w vault \<Rightarrow> guess_state \<Rightarrow> bool" where
  "guess_inv v s \<longleftrightarrow> gs_backoff s = backoff_of v backoff_default (gs_log s) \<and>
     attempts_ok v backoff_default (gs_log s) \<and> (\<forall>(t, m)\<in>set (gs_log s). t \<le> gs_now s)"

primrec guess_ok :: "guess_state \<Rightarrow> nat \<Rightarrow> guess_pc \<Rightarrow> bool" where
  "guess_ok s t GIdle \<longleftrightarrow> True"
| "guess_ok s t (GWaiting a) \<longleftrightarrow> True"
| "guess_ok s t (GLocked a) \<longleftrightarrow> gs_owner s = Some t"
| "guess_ok s t (GChecked a now) \<longleftrightarrow> gs_owner s = Some t \<and> next_allowed (gs_backoff s) \<le> now \<and> now \<le> gs_now s"
| "guess_ok s t (GLeaving out) \<longleftrightarrow> gs_owner s = Some t"
| "guess_ok s t (GDone out) \<longleftrightarrow> True"

inductive_cases guess_stepE: "guess_step v b3 stored t (s, p) (s', q)"

lemma guess_step_inv:
  assumes "guess_inv v s" "guess_ok s t p" "guess_step v b3 stored t (s, p) (s', q)"
  shows "guess_inv v s' \<and> guess_ok s' t q"
  using assms(3,1,2)
  by (elim guess_stepE; cases p) (auto simp: guess_inv_def backoff_of_snoc attempts_ok_append)

lemma guess_step_others:
  assumes "guess_ok s t p" "guess_ok s u r" "u \<noteq> t" "guess_step v b3 stored t (s, p) (s', q)"
  shows "guess_ok s' u r"
  using assms(4,1-3) by (elim guess_stepE) (cases r; auto)+

interpretation guess: thread_invariant guess_start GIdle "guess_step v b3 stored" "guess_inv v" guess_ok
  for v :: "'w vault" and b3 stored
proof
  show "guess_inv v s" if "guess_start s" for s
    using that by (simp add: guess_start_def guess_inv_def backoff_of_def)
  show "guess_inv v s' \<and> guess_ok s' t q"
    if "guess_inv v s" "guess_ok s t p" "guess_step v b3 stored t (s, p) (s', q)" for s t p s' q
    using that by (rule guess_step_inv)
  show "guess_ok s' u r"
    if "guess_inv v s" "guess_ok s t p" "guess_ok s u r" "u \<noteq> t" "guess_step v b3 stored t (s, p) (s', q)" for s t p s' q u r
    using that(2-) by (rule guess_step_others)
qed simp

section \<open>The property\<close>

text \<open>(C19) Parallel guesses do not beat the backoff. However many threads try master credentials at once, the
  attempts that are compared with the verifier happen one at a time, each no earlier than the backoff left by those
  before it allows, and the stored backoff is the one they add up to. So in any series of failing comparisons, by
  whichever threads, the time from the first to the last is at least the base delay for the second, twice that for
  the third and so on, each capped at the maximum and doubled at most 31 times; and between a comparison and the next
  no thread is past the check.\<close>

theorem parallel_guesses_limited:
  assumes "threads_run guess_start GIdle (guess_step v b3 stored) s p"
    and "gs_now s + master_backoff_max (v_config v) \<le> duration_max"
  shows "attempts_ok v backoff_default (gs_log s) \<and> gs_backoff s = backoff_of v backoff_default (gs_log s) \<and>
    (\<forall>xs l ys. gs_log s = xs @ l @ ys \<longrightarrow> l \<noteq> [] \<longrightarrow> (\<forall>(t, m)\<in>set l. \<not> m) \<longrightarrow>
       fst (hd l) + (\<Sum>i<length l - 1. doubled (v_config v) i) \<le> fst (last l)) \<and>
    (\<forall>t u a now a' now'. p t = GChecked a now \<longrightarrow> p u = GChecked a' now' \<longrightarrow> t = u)"
proof (intro conjI allI impI)
  have inv: "guess_inv v s" and ok: "guess_ok s t (p t)" for t
    using guess.run_inv [OF assms(1)] by blast+
  show a: "attempts_ok v backoff_default (gs_log s)" and "gs_backoff s = backoff_of v backoff_default (gs_log s)"
    using inv by (simp_all add: guess_inv_def)
  show "fst (hd l) + (\<Sum>i<length l - 1. doubled (v_config v) i) \<le> fst (last l)"
    if "gs_log s = xs @ l @ ys" "l \<noteq> []" "\<forall>(t, m)\<in>set l. \<not> m" for xs l ys
  proof -
    have "\<forall>(t, m)\<in>set l. \<not> m \<and> t + master_backoff_max (v_config v) \<le> duration_max"
    proof (clarify, intro conjI)
      fix t m assume m: "(t, m) \<in> set l"
      then have "(t, m) \<in> set (gs_log s)" unfolding that(1) by simp
      then have "t \<le> gs_now s" using inv by (auto simp: guess_inv_def)
      then show "t + master_backoff_max (v_config v) \<le> duration_max" using assms(2) by simp
      show "\<not> m" using that(3) m by blast
    qed
    moreover have "attempts_ok v (backoff_of v backoff_default xs) l"
      using a that(1) by (simp add: attempts_ok_append)
    ultimately show ?thesis
      using failures_spread [of v _ l 0] that(2) by simp
  qed
  show "t = u" if "p t = GChecked a now" "p u = GChecked a' now'" for t u a now a' now'
    using ok [of t] ok [of u] that by simp
qed

text \<open>One whole attempt with a credential that does not match.\<close>

lemma failing_attempt:
  assumes "threads_run guess_start GIdle (guess_step v b3 []) s p" "p t = GIdle" "gs_owner s = None"
    and "next_allowed (gs_backoff s) \<le> gs_now s"
  shows "threads_run guess_start GIdle (guess_step v b3 [])
    (s\<lparr>gs_backoff := backoff_after v (gs_now s) False (gs_backoff s), gs_log := gs_log s @ [(gs_now s, False)]\<rparr>)
    (p(t := GDone (Compared False)))"
proof -
  let ?run = "threads_run guess_start GIdle (guess_step v b3 [])" and ?s1 = "s\<lparr>gs_owner := Some t\<rparr>"
  let ?s2 = "?s1\<lparr>gs_backoff := backoff_after v (gs_now s) False (gs_backoff s), gs_log := gs_log s @ [(gs_now s, False)]\<rparr>"
  have next_step: "?run r' (p(t := y))" if "?run r (p(t := x))" "guess_step v b3 [] t (r, x) (r', y)" for r r' x y
    using threads_run.step [OF that(1), of t r' y] that(2) by simp
  have "?run s (p(t := GIdle))"
    using assms(1,2) by (simp add: fun_upd_idem)
  then have "?run s (p(t := GWaiting []))"
    by (rule next_step) (rule guess_step.call)
  then have "?run ?s1 (p(t := GLocked []))"
    by (rule next_step) (rule guess_step.lock [OF assms(3)])
  then have "?run ?s1 (p(t := GChecked [] (gs_now ?s1)))"
    by (rule next_step) (rule guess_step.allowed, use assms(4) in simp)
  then have "?run (?s1\<lparr>gs_backoff := backoff_after v (gs_now ?s1) False (gs_backoff ?s1),
      gs_log := gs_log ?s1 @ [(gs_now ?s1, False)]\<rparr>) (p(t := GLeaving (Compared False)))"
    by (rule next_step) (rule guess_step.compare, simp add: master_matches_def)
  then have "?run ?s2 (p(t := GLeaving (Compared False)))"
    by simp
  then have "?run (?s2\<lparr>gs_owner := None\<rparr>) (p(t := GDone (Compared False)))"
    by (rule next_step) (rule guess_step.unlock)
  moreover have "?s2\<lparr>gs_owner := None\<rparr> =
      s\<lparr>gs_backoff := backoff_after v (gs_now s) False (gs_backoff s), gs_log := gs_log s @ [(gs_now s, False)]\<rparr>"
    using assms(3) by simp
  ultimately show ?thesis
    by simp
qed

text \<open>Two threads guess wrong, the second one as soon as it may.\<close>

theorem parallel_guesses_limited_witness:
  "\<exists>s p. threads_run guess_start GIdle
      (guess_step (demo_vault\<lparr>v_config := vault_config_new\<lparr>master_backoff_base := 5, master_backoff_max := 100\<rparr>\<rparr>) toy_blake3 []) s p \<and>
    gs_log s = [(0, False), (5, False)] \<and> fst (hd (gs_log s)) + 5 \<le> fst (last (gs_log s))"
proof -
  let ?v = "demo_vault\<lparr>v_config := vault_config_new\<lparr>master_backoff_base := 5, master_backoff_max := 100\<rparr>\<rparr>"
  let ?run = "threads_run guess_start GIdle (guess_step ?v toy_blake3 [])"
  let ?s0 = "\<lparr>gs_now = 0, gs_backoff = backoff_default, gs_owner = None, gs_log = []\<rparr>"
  have r0: "?run ?s0 (\<lambda>t. GIdle)"
    by (rule threads_run.first) (simp add: guess_start_def)
  let ?s1 = "?s0\<lparr>gs_backoff := backoff_after ?v 0 False backoff_default, gs_log := [(0, False)]\<rparr>"
  have r1: "?run ?s1 ((\<lambda>t. GIdle)(0 := GDone (Compared False)))"
    using failing_attempt [OF r0, of 0] by (simp add: backoff_default_def)
  have r2: "?run (?s1\<lparr>gs_now := 5\<rparr>) ((\<lambda>t. GIdle)(0 := GDone (Compared False)))"
    using threads_run.step [OF r1 guess_step.tick [of ?s1 5 ?v toy_blake3 "[]" 0]] by simp
  have b: "next_allowed (backoff_after ?v 0 False backoff_default) = 5"
    by (simp add: backoff_after_def backoff_default_def backoff_delay_def dur_checked_mul_def dur_saturating_add_def
        u32_max_def duration_max_def)
  have r3: "?run (?s1\<lparr>gs_now := 5, gs_backoff := backoff_after ?v 5 False (backoff_after ?v 0 False backoff_default),
      gs_log := [(0, False), (5, False)]\<rparr>) ((\<lambda>t. GIdle)(0 := GDone (Compared False), 1 := GDone (Compared False)))"
    (is "threads_run _ _ _ ?s3 _")
    using failing_attempt [OF r2, of 1] b by simp
  have "gs_now ?s3 + master_backoff_max (v_config ?v) \<le> duration_max"
    by (simp add: duration_max_def)
  note lim = parallel_guesses_limited [OF r3 this, THEN conjunct2, THEN conjunct2, THEN conjunct1, rule_format, of "[]" "[(0, False), (5, False)]" "[]"]
  have f: "fst (hd (gs_log ?s3)) + 5 \<le> fst (last (gs_log ?s3))"
    using lim by (simp add: doubled_def)
  show ?thesis
    by (intro exI conjI, rule r3, simp, rule f)
qed

end
