(* ===== verification/Tracking.thy ===== *)
theory Tracking
  imports Lockout Threads
begin

text \<open>
  Failures reported by several threads at once (\<^verbatim>\<open>record_failure\<close>, \<^verbatim>\<open>handle_failure\<close> and \<^verbatim>\<open>clear_lockout\<close> of
  \<^verbatim>\<open>src/src/vault/mod.rs\<close>). A report reads the clock before it waits for the mutex of the failure tracker, so the
  timestamps can arrive there out of order. The specification counts over everything recorded since the tracker was
  last cleared; the bound \<open>lag\<close> is how long a report may take from reading the clock to its turn.
\<close>

section \<open>The part under the mutex\<close>

definition tracker_push :: "vault_config \<Rightarrow> bool \<Rightarrow> duration \<Rightarrow> duration list \<Rightarrow> duration list" where
  "tracker_push c per_key now es =
     (let keep = (if per_key then max (failure_window c) (key_lockout_window c) else failure_window c)
      in dropWhile (\<lambda>front. keep < now - front) es @ [now])"

definition entries_of :: "(string \<rightharpoonup> duration list) \<Rightarrow> string \<Rightarrow> duration list" where
  "entries_of tr n = (case tr n of Some es \<Rightarrow> es | None \<Rightarrow> [])"

lemma record_failure_push:
  assumes "clock_now E s = (now, s1)" "record_failure E v n per_key s = (counts, s2)"
  shows "failure_tracker s2 = (failure_tracker s1)(n \<mapsto> tracker_push (v_config v) per_key now (entries_of (failure_tracker s1) n))"
    "in_window counts = count_within now (failure_window (v_config v))
       (tracker_push (v_config v) per_key now (entries_of (failure_tracker s1) n))"
  using assms by (auto simp: record_failure_def tracker_push_def entries_of_def Let_def)

section \<open>Reports as steps\<close>

text \<open>The clock, the tracker, the vault-wide flag; as a ghost, all that was recorded under a name since it was last
  forgotten.\<close>

record track_state =
  tk_now :: duration
  tk_tracker :: "string \<rightharpoonup> duration list"
  tk_locked :: bool
  tk_hist :: "string \<Rightarrow> duration list"

text \<open>With the clock read; with the failures counted (and, as a ghost, what had been recorded then); with the flag
  cleared and the tracker not yet.\<close>

datatype track_pc =
    TIdle
  | TStamped string bool duration
  | TCounted string duration nat "duration list"
  | TClearing

inductive track_step :: "vault_config \<Rightarrow> duration \<Rightarrow> nat \<Rightarrow> track_state \<times> track_pc \<Rightarrow> track_state \<times> track_pc \<Rightarrow> bool"
  for c lag t where
  stamp: "track_step c lag t (s, TIdle) (s, TStamped n per_key (tk_now s))"
| push: "tk_now s \<le> now + lag \<Longrightarrow> es = tracker_push c per_key now (entries_of (tk_tracker s) n) \<Longrightarrow>
    track_step c lag t (s, TStamped n per_key now)
      (s\<lparr>tk_tracker := (tk_tracker s)(n \<mapsto> es), tk_hist := (tk_hist s)(n := tk_hist s n @ [now])\<rparr>,
       TCounted n now (count_within now (failure_window c) es) (tk_hist s n @ [now]))"
| breach: "0 < max_failures_before_lockout c \<Longrightarrow> max_failures_before_lockout c \<le> k \<Longrightarrow>
    track_step c lag t (s, TCounted n now k h) (s\<lparr>tk_locked := True\<rparr>, TIdle)"
| quiet: "\<not> (0 < max_failures_before_lockout c \<and> max_failures_before_lockout c \<le> k) \<Longrightarrow>
    track_step c lag t (s, TCounted n now k h) (s, TIdle)"
| clear_flag: "track_step c lag t (s, TIdle) (s\<lparr>tk_locked := False\<rparr>, TClearing)"
| clear_tracker: "track_step c lag t (s, TClearing) (s\<lparr>tk_tracker := Map.empty, tk_hist := (\<lambda>n. [])\<rparr>, TIdle)"
| forget: "track_step c lag t (s, TIdle) (s\<lparr>tk_tracker := (tk_tracker s)(n := None), tk_hist := (tk_hist s)(n := [])\<rparr>, TIdle)"
| tick: "tk_now s \<le> now \<Longrightarrow> track_step c lag t (s, p) (s\<lparr>tk_now := now\<rparr>, p)"

definition track_start :: "track_state \<Rightarrow> bool" where
  "track_start s \<longleftrightarrow> tk_tracker s = Map.empty \<and> \<not> tk_locked s \<and> tk_hist s = (\<lambda>n. [])"

inductive_cases track_stepE: "track_step c lag t (s, p) (s', q)"

section \<open>The invariant\<close>

text \<open>What the tracker has lost of the record is out of the window by now.\<close>

definition tracked_within :: "duration \<Rightarrow> duration \<Rightarrow> duration list \<Rightarrow> duration list \<Rightarrow> bool" where
  "tracked_within w now es h \<longleftrightarrow> (\<exists>lost. mset h = mset es + lost \<and> (\<forall>t\<in>#lost. t + w < now))"

definition in_recent :: "duration \<Rightarrow> duration \<Rightarrow> duration \<Rightarrow> duration list \<Rightarrow> nat" where
  "in_recent now lag w h = length (filter (\<lambda>t. now - t + lag \<le> w) h)"

lemma tracked_later: "tracked_within w now es h \<Longrightarrow> now \<le> now' \<Longrightarrow> tracked_within w now' es h"
  by (fastforce simp: tracked_within_def)

lemma tracked_push:
  assumes "tracked_within (failure_window c) now es h" "stamp \<le> now"
  shows "tracked_within (failure_window c) now (tracker_push c per_key stamp es) (h @ [stamp])"
proof -
  obtain lost where l: "mset h = mset es + lost" "\<forall>t\<in>#lost. t + failure_window c < now"
    using assms(1) by (auto simp: tracked_within_def)
  define keep where "keep = (if per_key then max (failure_window c) (key_lockout_window c) else failure_window c)"
  let ?P = "\<lambda>front. keep < stamp - front"
  have "mset es = mset (takeWhile ?P es) + mset (dropWhile ?P es)"
    by (metis mset_append takeWhile_dropWhile_id)
  then have "mset (h @ [stamp]) = mset (tracker_push c per_key stamp es) + (lost + mset (takeWhile ?P es))"
    using l(1) by (simp add: tracker_push_def keep_def)
  moreover have "t + failure_window c < now" if "t \<in> set (takeWhile ?P es)" for t
    using set_takeWhileD [OF that] assms(2) by (auto simp: keep_def split: if_splits)
  ultimately show ?thesis
    unfolding tracked_within_def using l(2) by (intro exI [of _ "lost + mset (takeWhile ?P es)"]) auto
qed

text \<open>The count lies between those over the record, the lower one with the window cut by the lag.\<close>

lemma count_bounds:
  assumes "tracked_within w now es h" "now \<le> stamp + lag"
  shows "min (in_recent stamp lag w h) u32_max \<le> count_within stamp w es" "count_within stamp w es \<le> min (in_recent stamp 0 w h) u32_max"
proof -
  obtain lost where l: "mset h = mset es + lost" "\<forall>t\<in>#lost. t + w < now"
    using assms(1) by (auto simp: tracked_within_def)
  have size: "length (filter P h) = length (filter P es) + size (filter_mset P lost)" for P
    using arg_cong [OF l(1), of "\<lambda>m. size (filter_mset P m)"] by (simp flip: mset_filter)
  have "\<not> stamp - t + lag \<le> w" if "t \<in># lost" for t
    using l(2) assms(2) that by fastforce
  then have "filter_mset (\<lambda>t. stamp - t + lag \<le> w) lost = {#}"
    by (auto intro!: multiset_eqI simp: not_in_iff count_filter_mset count_eq_zero_iff)
  then have "in_recent stamp lag w h = length (filter (\<lambda>t. stamp - t + lag \<le> w) es)"
    by (simp add: in_recent_def size)
  also have "\<dots> \<le> length (filter (\<lambda>t. stamp - t \<le> w) es)"
    by (induction es) auto
  finally show "min (in_recent stamp lag w h) u32_max \<le> count_within stamp w es"
    by (auto simp: count_within_def Let_def)
  show "count_within stamp w es \<le> min (in_recent stamp 0 w h) u32_max"
    by (simp add: in_recent_def size count_within_def Let_def)
qed

definition track_inv :: "vault_config \<Rightarrow> track_state \<Rightarrow> bool" where
  "track_inv c s \<longleftrightarrow> (\<forall>n. tracked_within (failure_window c) (tk_now s) (entries_of (tk_tracker s) n) (tk_hist s n))"

primrec track_ok :: "vault_config \<Rightarrow> duration \<Rightarrow> track_state \<Rightarrow> nat \<Rightarrow> track_pc \<Rightarrow> bool" where
  "track_ok c lag s t TIdle \<longleftrightarrow> True"
| "track_ok c lag s t (TStamped n per_key now) \<longleftrightarrow> now \<le> tk_now s"
| "track_ok c lag s t (TCounted n now k h) \<longleftrightarrow>
     min (in_recent now lag (failure_window c) h) u32_max \<le> k \<and> k \<le> min (in_recent now 0 (failure_window c) h) u32_max"
| "track_ok c lag s t TClearing \<longleftrightarrow> True"

lemma track_step_inv:
  assumes "track_inv c s" "track_ok c lag s t p" "track_step c lag t (s, p) (s', q)"
  shows "track_inv c s' \<and> track_ok c lag s' t q"
  using assms(3)
proof cases
  case (push now es per_key n)
  have tr: "tracked_within (failure_window c) (tk_now s) es (tk_hist s n @ [now])"
    unfolding push(5) by (rule tracked_push) (use assms(1,2) push in \<open>simp_all add: track_inv_def\<close>)
  have "track_inv c s'"
    using assms(1) tr push(2) by (simp add: track_inv_def entries_of_def)
  moreover have "track_ok c lag s' t q"
    using count_bounds [OF tr push(4)] push(3) by simp
  ultimately show ?thesis ..
next
  case (tick now)
  have "track_inv c s'"
    using assms(1) tick tracked_later unfolding track_inv_def by simp blast
  moreover have "track_ok c lag s' t q"
    using assms(2) tick by (cases p) auto
  ultimately show ?thesis ..
qed (use assms(1) in \<open>simp_all add: track_inv_def entries_of_def tracked_within_def\<close>)

lemma track_step_others:
  assumes "track_ok c lag s u r" "track_step c lag t (s, p) (s', q)"
  shows "track_ok c lag s' u r"
  using assms(2,1) by (elim track_stepE) (cases r; auto)+

interpretation track: thread_invariant track_start TIdle "track_step c lag" "track_inv c" "track_ok c lag"
  for c lag
proof
  show "track_inv c s" if "track_start s" for s
    using that by (simp add: track_start_def track_inv_def entries_of_def tracked_within_def)
  show "track_inv c s' \<and> track_ok c lag s' t q"
    if "track_inv c s" "track_ok c lag s t p" "track_step c lag t (s, p) (s', q)" for s t p s' q
    using that by (rule track_step_inv)
  show "track_ok c lag s' u r"
    if "track_inv c s" "track_ok c lag s t p" "track_ok c lag s u r" "u \<noteq> t" "track_step c lag t (s, p) (s', q)" for s t p s' q u r
    using that(3,5) by (rule track_step_others)
qed simp

section \<open>Two runs with a report that stalls\<close>

text \<open>A whole report of one thread, and the two halves of one that stalls in between.\<close>

lemma run_stamp:
  assumes "threads_run track_start TIdle (track_step c lag) s p" "p t = TIdle"
  shows "threads_run track_start TIdle (track_step c lag) s (p(t := TStamped n per_key (tk_now s)))"
  using threads_run.step [OF assms(1), of t] assms(2) track_step.stamp by simp

lemma run_tick:
  assumes "threads_run track_start TIdle (track_step c lag) s p" "tk_now s \<le> now"
  shows "threads_run track_start TIdle (track_step c lag) (s\<lparr>tk_now := now\<rparr>) p"
  using threads_run.step [OF assms(1) track_step.tick [OF assms(2)], of 0] by simp

lemma run_push:
  assumes "threads_run track_start TIdle (track_step c lag) s p" "p t = TStamped n per_key now" "tk_now s \<le> now + lag"
    and "es = tracker_push c per_key now (entries_of (tk_tracker s) n)"
  shows "threads_run track_start TIdle (track_step c lag)
    (s\<lparr>tk_tracker := (tk_tracker s)(n \<mapsto> es), tk_hist := (tk_hist s)(n := tk_hist s n @ [now])\<rparr>)
    (p(t := TCounted n now (count_within now (failure_window c) es) (tk_hist s n @ [now])))"
  using threads_run.step [OF assms(1), of t] assms(2) track_step.push [OF assms(3,4)] by simp

lemma run_verdict:
  assumes "threads_run track_start TIdle (track_step c lag) s p" "p t = TCounted n now k h"
  shows "threads_run track_start TIdle (track_step c lag)
    (s\<lparr>tk_locked := (tk_locked s \<or> 0 < max_failures_before_lockout c \<and> max_failures_before_lockout c \<le> k)\<rparr>) (p(t := TIdle))"
proof (cases "0 < max_failures_before_lockout c \<and> max_failures_before_lockout c \<le> k")
  case True
  then show ?thesis
    using threads_run.step [OF assms(1), of t] assms(2) track_step.breach [of c k lag t s n now h] by simp
next
  case False
  then have "threads_run track_start TIdle (track_step c lag) s (p(t := TIdle))"
    using threads_run.step [OF assms(1), of t] assms(2) track_step.quiet [OF False] by simp
  moreover have "tk_locked s \<or> 0 < max_failures_before_lockout c \<and> max_failures_before_lockout c \<le> k \<longleftrightarrow> tk_locked s"
    using False by blast
  ultimately show ?thesis by simp
qed

lemma run_report:
  assumes "threads_run track_start TIdle (track_step c lag) s p" "p t = TIdle"
    and "es = tracker_push c False (tk_now s) (entries_of (tk_tracker s) n)"
  shows "threads_run track_start TIdle (track_step c lag)
    (s\<lparr>tk_tracker := (tk_tracker s)(n \<mapsto> es), tk_hist := (tk_hist s)(n := tk_hist s n @ [tk_now s]),
       tk_locked := (tk_locked s \<or> 0 < max_failures_before_lockout c \<and>
         max_failures_before_lockout c \<le> count_within (tk_now s) (failure_window c) es)\<rparr>) p"
proof -
  have "threads_run track_start TIdle (track_step c lag) s (p(t := TStamped n False (tk_now s)))"
    by (rule run_stamp [OF assms(1,2)])
  from run_verdict [OF run_push [OF this _ _ assms(3), where t = t], where t = t] show ?thesis
    using assms(2) by (simp add: fun_upd_idem)
qed

definition lag_config :: "nat \<Rightarrow> vault_config" where
  "lag_config th = vault_config_new\<lparr>max_failures_before_lockout := th, failure_window := 60\<rparr>"

lemmas lag_simps = lag_config_def tracker_push_def entries_of_def count_within_def u32_max_def

text \<open>The clock starts at zero with nothing recorded.\<close>

definition lag_first :: track_state where
  "lag_first = \<lparr>tk_now = 0, tk_tracker = Map.empty, tk_locked = False, tk_hist = (\<lambda>n. [])\<rparr>"

lemma lag_first_run: "threads_run track_start TIdle (track_step c lag) lag_first (\<lambda>t. TIdle)"
  by (rule threads_run.first) (simp add: lag_first_def track_start_def)

lemma missed_lockout:
  "\<exists>s. threads_run track_start TIdle (track_step (lag_config 3) 130) s (\<lambda>t. TIdle) \<and>
     tk_hist s ''k'' = [20, 21, 200, 70] \<and> \<not> tk_locked s"
proof -
  let ?run = "threads_run track_start TIdle (track_step (lag_config 3) 130)" and ?idle = "\<lambda>t::nat. TIdle"
  let ?s = "\<lambda>now es h. \<lparr>tk_now = now, tk_tracker = [''k'' \<mapsto> es], tk_locked = False, tk_hist = (\<lambda>n. [])(''k'' := h)\<rparr>"
  have "?run (lag_first\<lparr>tk_now := 20\<rparr>) ?idle"
    by (rule run_tick [OF lag_first_run]) (simp add: lag_first_def)
  from run_report [OF this _ refl, of "''k''"] have "?run (?s 20 [20] [20]) ?idle"
    by (simp add: lag_simps lag_first_def)
  from run_tick [OF this, of 21] have "?run (?s 21 [20] [20]) ?idle"
    by simp
  from run_report [OF this _ refl, of "''k''"] have "?run (?s 21 [20, 21] [20, 21]) ?idle"
    by (simp add: lag_simps)
  from run_tick [OF this, of 70] have "?run (?s 70 [20, 21] [20, 21]) ?idle"
    by simp
  from run_stamp [OF this, of 1 "''k''" False]
  have "?run (?s 70 [20, 21] [20, 21]) (?idle(1 := TStamped ''k'' False 70))"
    by simp
  from run_tick [OF this, of 200] have "?run (?s 200 [20, 21] [20, 21]) (?idle(1 := TStamped ''k'' False 70))"
    by simp
  from run_report [OF this, of 0 _ "''k''", OF _ refl]
  have "?run (?s 200 [200] [20, 21, 200]) (?idle(1 := TStamped ''k'' False 70))"
    by (simp add: lag_simps)
  from run_push [OF this, of 1 "''k''" False 70, OF _ _ refl]
  have "?run (?s 200 [200, 70] [20, 21, 200, 70]) (?idle(1 := TCounted ''k'' 70 2 [20, 21, 200, 70]))"
    by (simp add: lag_simps numeral_2_eq_2)
  from run_verdict [OF this, of 1 "''k''" 70 2 "[20, 21, 200, 70]"]
  have run: "?run (?s 200 [200, 70] [20, 21, 200, 70]) ?idle"
    by (simp add: lag_simps fun_upd_idem)
  show ?thesis
    by (intro exI conjI, rule run) simp_all
qed

lemma wrong_lockout:
  "\<exists>s. threads_run track_start TIdle (track_step (lag_config 2) 130) s (\<lambda>t. TIdle) \<and>
     tk_hist s ''k'' = [200, 70] \<and> tk_locked s"
proof -
  let ?run = "threads_run track_start TIdle (track_step (lag_config 2) 130)" and ?idle = "\<lambda>t::nat. TIdle"
  let ?s = "\<lambda>l es h. \<lparr>tk_now = 200, tk_tracker = [''k'' \<mapsto> es], tk_locked = l, tk_hist = (\<lambda>n. [])(''k'' := h)\<rparr>"
  have "?run (lag_first\<lparr>tk_now := 70\<rparr>) (?idle(1 := TStamped ''k'' False 70))"
    using run_stamp [OF run_tick [OF lag_first_run [of "lag_config 2" 130], of 70], of 1 "''k''" False]
    by (simp add: lag_first_def)
  from run_tick [OF this, of 200] have "?run (lag_first\<lparr>tk_now := 200\<rparr>) (?idle(1 := TStamped ''k'' False 70))"
    by (simp add: lag_first_def)
  from run_report [OF this, of 0 _ "''k''", OF _ refl]
  have "?run (?s False [200] [200]) (?idle(1 := TStamped ''k'' False 70))"
    by (simp add: lag_simps lag_first_def)
  from run_push [OF this, of 1 "''k''" False 70, OF _ _ refl]
  have "?run (?s False [200, 70] [200, 70]) (?idle(1 := TCounted ''k'' 70 2 [200, 70]))"
    by (simp add: lag_simps numeral_2_eq_2)
  from run_verdict [OF this, of 1 "''k''" 70 2 "[200, 70]"]
  have run: "?run (?s True [200, 70] [200, 70]) ?idle"
    by (simp add: lag_simps fun_upd_idem)
  show ?thesis
    by (intro exI conjI, rule run) simp_all
qed

section \<open>The property\<close>

text \<open>(C20) What a report counts when several threads report at once. Let every report get its turn at the tracker
  within \<open>lag\<close> of reading the clock. Then the number it compares with the threshold is at least the number of failures
  recorded under the name since the tracker was cleared whose age is at most the window less \<open>lag\<close>, and at most the
  number whose age is within the window, both capped at the largest \<^verbatim>\<open>u32\<close>. With no lag it is exactly the
  latter: evicting old entries from the front never loses one that counts. With a lag longer than the window the
  lockout can go wrong both ways. With a threshold of three failures in a window of 60, failures at 20, 21 and 70
  are recorded and one at 200 whose report overtakes the one of 70: every report has returned, nothing was cleared,
  and the vault is not locked. With a threshold of two, failures at 200 and 70 lock it although they are 130 apart,
  because a failure later than the reading of the clock counts as recent.\<close>

theorem lockout_with_lag:
  assumes "threads_run track_start TIdle (track_step c lag) s p" "p t = TCounted n now k h"
  shows "(min (in_recent now lag (failure_window c) h) u32_max \<le> k \<and> k \<le> min (in_recent now 0 (failure_window c) h) u32_max \<and>
      (lag = 0 \<longrightarrow> k = min (in_recent now 0 (failure_window c) h) u32_max)) \<and>
    (\<exists>s. threads_run track_start TIdle (track_step (lag_config 3) 130) s (\<lambda>t. TIdle) \<and>
      tk_hist s ''k'' = [20, 21, 200, 70] \<and> \<not> tk_locked s) \<and>
    (\<exists>s. threads_run track_start TIdle (track_step (lag_config 2) 130) s (\<lambda>t. TIdle) \<and>
      tk_hist s ''k'' = [200, 70] \<and> tk_locked s)"
proof (intro conjI [OF _ conjI [OF missed_lockout wrong_lockout]])
  have "track_ok c lag s t (p t)"
    using track.run_inv [OF assms(1)] by blast
  then show "min (in_recent now lag (failure_window c) h) u32_max \<le> k \<and> k \<le> min (in_recent now 0 (failure_window c) h) u32_max \<and>
      (lag = 0 \<longrightarrow> k = min (in_recent now 0 (failure_window c) h) u32_max)"
    unfolding assms(2) track_ok.simps by (auto intro: antisym)
qed

text \<open>The first report of all, at 20.\<close>

theorem lockout_with_lag_witness:
  "\<exists>s p. threads_run track_start TIdle (track_step (lag_config 3) 0) s p \<and> p 0 = TCounted ''k'' 20 1 [20] \<and>
     1 = min (in_recent 20 0 (failure_window (lag_config 3)) [20]) u32_max"
proof -
  let ?run = "threads_run track_start TIdle (track_step (lag_config 3) 0)"
  let ?p = "(\<lambda>t. TIdle)(0 := TCounted ''k'' 20 1 [20])"
  have "?run (lag_first\<lparr>tk_now := 20\<rparr>) (\<lambda>t. TIdle)"
    by (rule run_tick [OF lag_first_run]) (simp add: lag_first_def)
  from run_stamp [OF this, where t = 0 and n = "''k''" and per_key = False]
  have "?run (lag_first\<lparr>tk_now := 20\<rparr>) ((\<lambda>t. TIdle)(0 := TStamped ''k'' False 20))"
    by (simp add: lag_first_def)
  from run_push [OF this, of 0 "''k''" False 20, OF _ _ refl]
  have run: "?run (lag_first\<lparr>tk_now := 20, tk_tracker := [''k'' \<mapsto> [20]], tk_hist := (\<lambda>n. [])(''k'' := [20])\<rparr>)
      ?p"
    by (simp add: lag_simps lag_first_def)
  have p: "?p 0 = TCounted ''k'' 20 1 [20]"
    by simp
  show ?thesis
    by (intro exI conjI, rule run, rule p) (use lockout_with_lag [OF run p] in blast)
qed

end
