(* ===== verification/Ranges.thy ===== *)
theory Ranges
  imports Service
begin

text \<open>
  The numbers a vault keeps and hands out fit the types they have in \<^verbatim>\<open>src/src/vault/mod.rs\<close> and
  \<^verbatim>\<open>src/src/monitor/mod.rs\<close>. The model has natural numbers where the code has \<^verbatim>\<open>u32\<close> and \<^verbatim>\<open>Duration\<close>, with
  the saturating and checked operations written out; here no reachable state holds a number that the Rust type does
  not have, and what the monitor is told makes sense.
\<close>

section \<open>What is in range\<close>

definition clock_in_range :: "'w env \<Rightarrow> bool" where
  "clock_in_range E \<longleftrightarrow> (\<forall>w. fst (env_now E w) \<le> duration_max)"

fun event_in_range :: "vault_config \<Rightarrow> monitor_event \<Rightarrow> bool" where
  "event_in_range c (OnDecryptionFailure ctx) \<longleftrightarrow>
     1 \<le> consecutive_failures ctx \<and> consecutive_failures ctx \<le> u32_max \<and>
     window_elapsed ctx \<le> failure_window c \<and> window_elapsed ctx \<le> duration_max"
| "event_in_range c (OnAnomalousAccess ctx) \<longleftrightarrow> True"
| "event_in_range c (OnThresholdBreach ctx) \<longleftrightarrow> failures_in_window ctx \<le> u32_max \<and>
     (case scope ctx of
        VaultScope \<Rightarrow> 0 < max_failures_before_lockout c \<and> max_failures_before_lockout c \<le> failures_in_window ctx \<and>
          tc_window ctx = failure_window c
      | KeyScope \<Rightarrow> 0 < key_lockout_threshold c \<and> key_lockout_threshold c \<le> failures_in_window ctx \<and>
          tc_window ctx = key_lockout_window c)"

definition in_range :: "vault_config \<Rightarrow> 'w vstate \<Rightarrow> bool" where
  "in_range c s \<longleftrightarrow> failures (master_backoff s) \<le> u32_max \<and> next_allowed (master_backoff s) \<le> duration_max \<and>
     (\<forall>until\<in>ran (key_locks s). \<forall>d. until = Some d \<longrightarrow> d \<le> duration_max) \<and>
     (\<forall>es\<in>ran (failure_tracker s). es \<noteq> [] \<and> (\<forall>t\<in>set es. t \<le> duration_max)) \<and>
     (\<forall>e\<in>set (monitor_log s). event_in_range c e)"

section \<open>Operations that leave the numbers alone\<close>

definition same_numbers :: "'w vstate \<Rightarrow> 'w vstate \<Rightarrow> bool" where
  "same_numbers s s' \<longleftrightarrow> key_locks s' = key_locks s \<and> failure_tracker s' = failure_tracker s \<and>
     master_backoff s' = master_backoff s \<and> monitor_log s' = monitor_log s"

lemma in_range_same: "same_numbers s s' \<Longrightarrow> in_range c s' \<longleftrightarrow> in_range c s"
  by (simp add: same_numbers_def in_range_def)

lemma same_numbers_store_only: "store_only s s' \<Longrightarrow> same_numbers s s'"
  by (simp add: store_only_def same_numbers_def)

lemmas in_range_store_only = in_range_same [OF same_numbers_store_only]

lemma in_range_store_onlyI: "store_only s s' \<Longrightarrow> in_range c s \<Longrightarrow> in_range c s'"
  by (simp add: in_range_store_only)

lemma in_range_emit [simp]: "in_range c (emit_audit E v n kd nt s) \<longleftrightarrow> in_range c s"
  by (rule in_range_store_only [OF store_only_emit])

lemma reassemble_numbers: "reassemble E v st out s = (r, out', s') \<Longrightarrow> same_numbers s s'"
  by (auto simp: reassemble_def Let_def same_numbers_def split: if_splits sum.splits prod.splits option.splits)

lemma read_key_numbers:
  assumes "read_key E v st (pure_cb g) s = (r, s')" shows "same_numbers s s'"
proof -
  let ?n = "storage_total_len st"
  let ?buf = "ensure_len ?n (scratch s)"
  obtain x out s2 where re: "reassemble E v st (take ?n ?buf) (s\<lparr>scratch := ?buf, scratch_borrowed := True\<rparr>) = (x, out, s2)"
    by (metis prod_cases3)
  show ?thesis
    using assms re reassemble_numbers [OF re]
    by (auto simp: read_key_def Let_def pure_cb_def same_numbers_def end_read_def split: if_splits sum.splits option.splits)
qed

lemma clock_now_numbers: "clock_now E s = (now, s') \<Longrightarrow> same_numbers s s'"
  by (auto simp: clock_now_def same_numbers_def split: prod.splits)

lemma clock_now_range: "clock_in_range E \<Longrightarrow> clock_now E s = (now, s') \<Longrightarrow> now \<le> duration_max"
  by (auto simp: clock_in_range_def clock_now_def split: prod.splits) (metis fst_conv)

section \<open>Operations that change them\<close>

lemma ran_remove: "x \<in> ran (m(n := None)) \<Longrightarrow> x \<in> ran m"
  by (auto simp: ran_def split: if_splits)

lemma key_locked_range: "in_range c s \<Longrightarrow> in_range c (snd (key_locked E n s))"
  by (auto simp: key_locked_def key_locked_slow_def in_range_def clock_now_def
      dest!: ran_remove split: option.split prod.split)

lemma clear_range:
  "in_range c s \<Longrightarrow> in_range c (clear_lockout s)"
  "in_range c s \<Longrightarrow> in_range c (snd (clear_key_lockout n s))"
  by (auto simp: clear_lockout_def clear_key_lockout_def Let_def in_range_def dest!: ran_remove)

lemma backoff_after_range:
  "failures (backoff_after v now m b) \<le> u32_max" "next_allowed (backoff_after v now m b) \<le> duration_max"
  by (auto simp: backoff_after_def Let_def backoff_default_def dur_saturating_add_bound)

lemma count_within_le: "count_within now w es \<le> u32_max"
  by (simp add: count_within_def Let_def)

text \<open>The counts of \<^verbatim>\<open>record_failure\<close>.\<close>

definition counts_in_range :: "vault_config \<Rightarrow> failure_counts \<Rightarrow> bool" where
  "counts_in_range c counts \<longleftrightarrow> 1 \<le> in_window counts \<and> in_window counts \<le> u32_max \<and> in_key_window counts \<le> u32_max \<and>
     counts_window_elapsed counts \<le> failure_window c \<and> counts_window_elapsed counts \<le> duration_max"

lemma record_failure_range:
  assumes "clock_in_range E" "in_range (v_config v) s" "record_failure E v n p s = (counts, s')"
  shows "in_range (v_config v) s'" "counts_in_range (v_config v) counts"
proof -
  obtain now s1 where cl: "clock_now E s = (now, s1)" by fastforce
  have r1: "in_range (v_config v) s1" and now: "now \<le> duration_max"
    using assms(2) in_range_same [OF clock_now_numbers [OF cl]] clock_now_range [OF assms(1) cl] by blast+
  define es where "es = dropWhile (\<lambda>front. (if p then max (failure_window (v_config v)) (key_lockout_window (v_config v))
      else failure_window (v_config v)) < now - front) (case failure_tracker s1 n of Some es \<Rightarrow> es | None \<Rightarrow> []) @ [now]"
  have es: "t \<le> duration_max" if "t \<in> set es" for t
    using that now r1 by (auto simp: es_def in_range_def ran_def dest!: set_dropWhileD split: option.splits)
  have s': "s' = s1\<lparr>failure_tracker := (failure_tracker s1)(n \<mapsto> es)\<rparr>"
    and counts: "in_window counts = count_within now (failure_window (v_config v)) es"
      "in_key_window counts = (if p then count_within now (key_lockout_window (v_config v)) es else 0)"
      "counts_window_elapsed counts = now -
         (case List.find (\<lambda>t. now - t \<le> failure_window (v_config v)) es of Some t \<Rightarrow> t | None \<Rightarrow> now)"
    using assms(3) cl by (auto simp: record_failure_def Let_def es_def)
  have "es \<noteq> []" by (simp add: es_def)
  then show "in_range (v_config v) s'"
    using r1 es unfolding s' by (auto simp: in_range_def ran_def)
  have "1 \<le> length (filter (\<lambda>t. now - t \<le> failure_window (v_config v)) es)"
    by (simp add: es_def)
  then have "1 \<le> in_window counts"
    unfolding counts by (auto simp: count_within_def Let_def u32_max_def)
  moreover have "counts_window_elapsed counts \<le> failure_window (v_config v) \<and> counts_window_elapsed counts \<le> duration_max"
    unfolding counts using now by (auto dest: find_SomeD split: option.split)
  ultimately show "counts_in_range (v_config v) counts"
    by (simp add: counts_in_range_def counts(1,2) count_within_le)
qed

lemma vault_threshold_range:
  "in_range (v_config v) s \<Longrightarrow> counts_in_range (v_config v) counts \<Longrightarrow> in_range (v_config v) (vault_threshold v n counts s)"
  by (auto simp: vault_threshold_def Let_def in_range_def counts_in_range_def)

lemma key_threshold_range:
  assumes "in_range (v_config v) s" "counts_in_range (v_config v) counts" "k > 0 \<longrightarrow> k = key_lockout_threshold (v_config v)"
  shows "in_range (v_config v) (key_threshold_block E v n k counts s)"
proof -
  let ?breach = "\<lambda>b. OnThresholdBreach \<lparr>tc_key_name = n, failures_in_window = in_key_window counts,
      tc_window = key_lockout_window (v_config v), lockout_triggered = b, scope = KeyScope\<rparr>"
  let ?locked = "\<lambda>w until a b. s\<lparr>world := w, key_locks := (key_locks s)(n \<mapsto> until), key_locks_active := a,
      monitor_log := monitor_log s @ [?breach b]\<rparr>"
  have ok: "in_range (v_config v) (?locked w until a b)"
    if "k > 0" "k \<le> in_key_window counts" "\<forall>d. until = Some d \<longrightarrow> d \<le> duration_max" for w until a b
    using assms that by (auto simp: in_range_def counts_in_range_def ran_def split: if_splits)
  obtain now w where cl: "env_now E (world s) = (now, w)" by fastforce
  show ?thesis
  proof (cases "k > 0 \<and> k \<le> in_key_window counts")
    case True
    let ?a = "if key_locks s n = None then key_locks_active s + 1 else key_locks_active s"
    have "key_threshold_block E v n k counts s = (case key_lockout_duration (v_config v) of
        None \<Rightarrow> ?locked (world s) None ?a (key_locks s n = None)
      | Some d \<Rightarrow> ?locked w (Some (dur_saturating_add now d)) ?a (key_locks s n = None))"
      using True cl by (simp add: key_threshold_block_def clock_now_def Let_def split: option.split)
    then show ?thesis
      using True by (cases "key_lockout_duration (v_config v)")
        (simp_all only: option.case, (rule ok; simp add: dur_saturating_add_bound)+)
  next
    case False
    then show ?thesis
      using assms(1) by (auto simp: key_threshold_block_def Let_def)
  qed
qed

lemma handle_failure_range:
  assumes "clock_in_range E" "in_range (v_config v) s"
  shows "in_range (v_config v) (handle_failure E v n nt p s)"
proof -
  let ?kt = "if p then key_lockout_threshold (v_config v) else 0"
  obtain counts s1 where r: "record_failure E v n (?kt > 0) s = (counts, s1)" by fastforce
  note range = record_failure_range [OF assms r]
  let ?ctx = "\<lparr>fc_key_name = n, consecutive_failures = in_window counts, window_elapsed = counts_window_elapsed counts,
      fc_note = (case nt of Some x \<Rightarrow> x | None \<Rightarrow> [])\<rparr>"
  have "in_range (v_config v) (s1\<lparr>monitor_log := monitor_log s1 @ [OnDecryptionFailure ?ctx]\<rparr>)"
    using range by (simp add: in_range_def counts_in_range_def ball_Un)
  from key_threshold_range [OF vault_threshold_range [OF this range(2)] range(2), of ?kt]
  show ?thesis
    using r by (simp add: handle_failure_def Let_def)
qed

lemma unlock_range:
  assumes "clock_in_range E" "in_range (v_config v) s" "unlock_with_master E v attempt s = (r, s')"
  shows "in_range (v_config v) s'"
proof -
  obtain now s1 where cl: "clock_now E s = (now, s1)" by fastforce
  have r1: "in_range (v_config v) s1"
    using assms(2) in_range_same [OF clock_now_numbers [OF cl]] by blast
  have read: "in_range (v_config v) s2" if "secret_read E st g s1 = (x, s2)" for st g s2 and x :: "fault + bool"
    using r1 in_range_store_only [OF store_only_secret_read [of s1 E st g]] that by simp
  have bo: "in_range (v_config v) (s2\<lparr>master_backoff := backoff_after v now m (master_backoff s2)\<rparr>)"
    if "in_range (v_config v) s2" for s2 m
    using that by (simp add: in_range_def backoff_after_range)
  have ends: "in_range (v_config v) (clear_lockout (emit_audit E v x y z (s2\<lparr>master_backoff := backoff_after v now m (master_backoff s2)\<rparr>)))"
    "in_range (v_config v) (handle_failure E v n nt p (emit_audit E v x y z (s2\<lparr>master_backoff := backoff_after v now m (master_backoff s2)\<rparr>)))"
    if "in_range (v_config v) s2" for s2 m x y z n nt p
    by (intro clear_range(1) handle_failure_range [OF assms(1)], simp only: in_range_emit bo [OF that])+
  show ?thesis
    using assms(2,3) cl r1 read ends
    by (auto simp: unlock_with_master_def rbind_def Let_def split: option.splits if_splits master_verifier.splits sum.splits prod.splits)
qed

lemma rotate_range: "in_range c s \<Longrightarrow> in_range c (snd (rotate E v h key s))"
proof -
  assume r: "in_range c s"
  have "in_range c t \<Longrightarrow> in_range c (snd (rbind (fragment_for_registry E v key) (\<lambda>st s2.
      let (t, s3) = clock_unix_time E s2
      in rotate_install E v h st (key_metadata_new t (length key) None) s3) t))" for t
    by (rule in_range_store_onlyI [OF store_only_rbind [OF store_only_for_registry store_only_rotate_rest]])
  then show ?thesis
    using r key_locked_range [OF r, of E]
    by (auto simp: rotate_def split: option.split prod.split bool.split) (metis snd_conv)+
qed

lemma with_key_range:
  assumes "in_range c s" "with_key E v h (pure_cb g) s = (r, s')"
  shows "in_range c s'"
proof (cases "locked_out s \<or> kv_get (handle_id h) (keys s) = None \<or>
         (\<exists>e. kv_get (handle_id h) (keys s) = Some e \<and> fst (key_locked E (ke_name e) s))")
  case True
  from with_key_refused [OF assms(2) this] assms(1) show ?thesis
    by (auto intro: key_locked_range)
next
  case False
  then obtain e where e: "kv_get (handle_id h) (keys s) = Some e" "\<not> fst (key_locked E (ke_name e) s)" "\<not> locked_out s"
    by auto
  obtain s1 where kl: "key_locked E (ke_name e) s = (False, s1)"
    using e(2) by (cases "key_locked E (ke_name e) s") auto
  obtain r2 s2 where rk: "read_key E v (ke_fragments e) (pure_cb g) s1 = (r2, s2)"
    by fastforce
  have "in_range c s2"
    using key_locked_range [OF assms(1), of E "ke_name e"] kl in_range_same [OF read_key_numbers [OF rk]] by simp
  then show ?thesis
    using assms(2) rk unfolding with_key_entry [OF e(1,3) kl]
    by (auto simp: rbind_def split: sum.splits if_splits)
qed

section \<open>The property\<close>

lemma reach_range:
  assumes "clock_in_range E" "reach E v k s A"
  shows "in_range (v_config v) s"
  using assms(2)
proof (induction rule: reach.induct)
  case (built s)
  then show ?case by (simp add: in_range_def backoff_default_def)
next
  case (register_ok s A name key h s' md)
  then show ?case using in_range_store_onlyI [OF store_only_register, of _ s E v name key] by simp
next
  case (register_err s A name key e s')
  then show ?case using in_range_store_onlyI [OF store_only_register, of _ s E v name key] by simp
next
  case (rotate_ok s A h n old key s' md)
  then show ?case using rotate_range [of _ s E v h key] by simp
next
  case (rotate_err s A h key e s')
  then show ?case using rotate_range [of _ s E v h key] by simp
next
  case (unregister_ok s A h s')
  then show ?case using in_range_store_onlyI [OF store_only_unregister, of _ s E v h] by simp
next
  case (unregister_err s A h e s')
  then show ?case using in_range_store_onlyI [OF store_only_unregister, of _ s E v h] by simp
next
  case (with_key s A h g r s')
  then show ?case using with_key_range by blast
next
  case (fragment s A key r s')
  then show ?case using in_range_store_onlyI [OF store_only_fragment, of _ s E v key] by simp
next
  case (defragment s A fr r' s')
  then show ?case using in_range_store_onlyI [OF store_only_defragment, of _ s E v fr] by simp
next
  case (failure s A n nt)
  then show ?case using handle_failure_range [OF assms(1)] by (simp add: report_failure_def)
next
  case (key_locked_out s A h b s')
  then show ?case
    using key_locked_range [of _ s E] by (auto simp: is_key_locked_out_def split: option.splits) (metis snd_conv)
next
  case (clear_key s A n b s')
  then show ?case using clear_range(2) [of _ s n] by simp
next
  case (clear_all s A)
  then show ?case by (simp add: clear_range(1))
next
  case (unlock s A attempt u s')
  then show ?case using unlock_range [OF assms(1)] by blast
qed (simp_all add: in_range_def report_anomalous_access_def Let_def ball_Un)

text \<open>(C21) Every number in range. On a clock that returns a \<^verbatim>\<open>Duration\<close>, whatever sequence of operations has run since
  \<^verbatim>\<open>build\<close>: the number of failed unlocks fits its \<^verbatim>\<open>u32\<close>; the end of the backoff, the ends of the per-key lockouts
  and the tracked timestamps fit their \<^verbatim>\<open>Duration\<close>, and no tracked name has an empty list. Every failure the monitor
  was told of counts at least one and at most \<^verbatim>\<open>u32::MAX\<close> failures, over a time within the window. Every breach
  it was told of is of a threshold that is switched on and was reached, with the window of its scope.\<close>

theorem vault_values_in_range:
  assumes "clock_in_range E" "reach E v k s A"
  shows "failures (master_backoff s) \<le> u32_max \<and> next_allowed (master_backoff s) \<le> duration_max \<and>
    (\<forall>n d. key_locks s n = Some (Some d) \<longrightarrow> d \<le> duration_max) \<and>
    (\<forall>n es. failure_tracker s n = Some es \<longrightarrow> es \<noteq> [] \<and> (\<forall>t\<in>set es. t \<le> duration_max)) \<and>
    (\<forall>e\<in>set (monitor_log s). event_in_range (v_config v) e)"
  using reach_range [OF assms] by (auto simp: in_range_def ran_def)

text \<open>Two failures on the example vault, by a clock that shows 5: the second one breaches both thresholds.\<close>

definition still_env :: "nat env" where
  "still_env = demo_env\<lparr>env_now := (\<lambda>w. (5, w))\<rparr>"

lemma still_built: "\<exists>k. reach still_env demo_vault k demo_state Map.empty"
proof -
  have "finish still_env demo_builder 1 0 = (demo_vault, demo_state)"
    by (simp add: demo_vault_def demo_state_def finish_def make_normalizer_def make_master_def finish_audit_def
        demo_builder_def with_failure_threshold_def with_key_lockout_def with_codex_def with_audit_sink_def
        normalize_with_blake3_def builder_new_def vault_config_new_def decoy_ignored_def Let_def)
  from finish_reach [OF this] show ?thesis by blast
qed

lemma demo_monitor_log: "monitor_log demo_state = []"
  using demo_built by (simp add: demo_state_def finish_def split: prod.split)

theorem vault_values_in_range_witness:
  "\<exists>s. (\<exists>k. reach still_env demo_vault k s Map.empty) \<and> length (monitor_log s) = 4 \<and>
     (\<forall>e\<in>set (monitor_log s). event_in_range (v_config demo_vault) e)"
proof -
  obtain k where k: "reach still_env demo_vault k demo_state Map.empty"
    using still_built by blast
  let ?s = "report_failure still_env demo_vault ''api'' None (report_failure still_env demo_vault ''api'' None demo_state)"
  have r: "reach still_env demo_vault k ?s Map.empty"
    by (intro reach.failure k)
  have c: "clock_in_range still_env"
    by (simp add: clock_in_range_def still_env_def duration_max_def)
  have len: "length (monitor_log ?s) = 4"
    by (simp add: report_failure_def handle_failure_def record_failure_def vault_threshold_def key_threshold_block_def
        count_within_def clock_now_def still_env_def demo_monitor_log Let_def u32_max_def)
  show ?thesis
    by (intro exI conjI, rule r, rule len) (use vault_values_in_range [OF c r] in blast)
qed

end
