(* ===== verification/Wiping.thy ===== *)
theory Wiping
  imports Fetch Buffers
begin

text \<open>
  Growing buffers with key material on the heap: \<^verbatim>\<open>RawKey\<close> of \<^verbatim>\<open>src/src/fetcher/mod.rs\<close> and the reading loop of
  \<^verbatim>\<open>src/src/fetcher/file.rs\<close>, on the memory of \<open>Buffers\<close>. Elsewhere a \<^verbatim>\<open>RawKey\<close> is the list of its bytes; here it is a
  \<^verbatim>\<open>Vec\<close> with an address and a capacity, and the question is what stays behind in memory that was given back. The
  \<^verbatim>\<open>zeroize\<close> crate is a parameter, with its documented effect on a \<^verbatim>\<open>Vec\<close> as a law.
\<close>

section \<open>Vectors\<close>

record vec_buf =
  vb_ptr :: nat
  vb_len :: nat
  vb_cap :: nat

definition vec_block :: "vec_buf \<Rightarrow> nat set" where
  "vec_block v = {vb_ptr v..<vb_ptr v + vb_cap v}"

definition vec_bytes :: "vec_buf \<Rightarrow> 'w memory \<Rightarrow> bytes" where
  "vec_bytes v s = read_bytes (vb_ptr v) (vb_len v) (mem_bytes s)"

text \<open>How a call ends: with a value, with an error or a panic that unwinds, with the process gone because the
  allocator has no memory, or (out of fuel) not yet.\<close>

datatype 'a ending = Returns 'a | Fails fault | Aborts | Runs

text \<open>\<^verbatim>\<open>vec![0u8; n]\<close>.\<close>

definition vec_zeroed :: "'w heap \<Rightarrow> nat \<Rightarrow> 'w memory \<Rightarrow> vec_buf ending \<times> 'w memory" where
  "vec_zeroed hp n s =
     (if isize_max < n then (Fails Panic, s)
      else if n = 0 then (Returns \<lparr>vb_ptr = 1, vb_len = 0, vb_cap = 0\<rparr>, s)
      else case hp_alloc hp (mem_world s) n of
             (None, w) \<Rightarrow> (Aborts, s\<lparr>mem_world := w\<rparr>)
           | (Some a, w) \<Rightarrow>
               (Returns \<lparr>vb_ptr = a, vb_len = n, vb_cap = n\<rparr>, s\<lparr>mem_bytes := zero_bytes a n (mem_bytes s), mem_world := w\<rparr>))"

definition vec_dealloc :: "'w heap \<Rightarrow> vec_buf \<Rightarrow> 'w memory \<Rightarrow> 'w memory" where
  "vec_dealloc hp v s = (if vb_cap v = 0 then s else s\<lparr>mem_world := hp_free hp (mem_world s) (vb_ptr v) (vb_cap v)\<rparr>)"

text \<open>\<^verbatim>\<open>Vec::zeroize\<close>, a function on the memory, and the drop of a \<^verbatim>\<open>Zeroizing<Vec<u8>>\<close>.\<close>

type_synonym zeroize = "vec_buf \<Rightarrow> (nat \<Rightarrow> u8) \<Rightarrow> nat \<Rightarrow> u8"

definition zeroizing_drop :: "zeroize \<Rightarrow> 'w heap \<Rightarrow> vec_buf \<Rightarrow> 'w memory \<Rightarrow> 'w memory" where
  "zeroizing_drop z hp v s = vec_dealloc hp v (s\<lparr>mem_bytes := z v (mem_bytes s)\<rparr>)"

section \<open>Raw keys\<close>

record raw_key =
  rk_bytes :: vec_buf

definition raw_key_new :: "vec_buf \<Rightarrow> raw_key" where
  "raw_key_new bs = \<lparr>rk_bytes = bs\<rparr>"

definition raw_key_len :: "raw_key \<Rightarrow> nat" where
  "raw_key_len k = vb_len (rk_bytes k)"

definition raw_key_is_empty :: "raw_key \<Rightarrow> bool" where
  "raw_key_is_empty k \<longleftrightarrow> vb_len (rk_bytes k) = 0"

definition expose_secret :: "raw_key \<Rightarrow> 'w memory \<Rightarrow> bytes" where
  "expose_secret k s = vec_bytes (rk_bytes k) s"

definition raw_key_wipe :: "zeroize \<Rightarrow> raw_key \<Rightarrow> 'w memory \<Rightarrow> raw_key \<times> 'w memory" where
  "raw_key_wipe z k s =
     (k\<lparr>rk_bytes := (rk_bytes k)\<lparr>vb_len := 0\<rparr>\<rparr>, s\<lparr>mem_bytes := z (rk_bytes k) (mem_bytes s)\<rparr>)"

definition raw_key_drop :: "zeroize \<Rightarrow> 'w heap \<Rightarrow> raw_key \<Rightarrow> 'w memory \<Rightarrow> 'w memory" where
  "raw_key_drop z hp k s = (case raw_key_wipe z k s of (k', s1) \<Rightarrow> vec_dealloc hp (rk_bytes k') s1)"

section \<open>Reading a file\<close>

text \<open>The growth step: a larger buffer, the bytes copied, the old buffer zeroized when it is dropped. When the larger
  one is too large the panic unwinds through the old one.\<close>

definition wiping_grow :: "zeroize \<Rightarrow> 'w heap \<Rightarrow> vec_buf \<Rightarrow> nat \<Rightarrow> 'w memory \<Rightarrow> vec_buf ending \<times> 'w memory" where
  "wiping_grow z hp buf filled s =
     (if filled = vb_len buf
      then case vec_zeroed hp (max (usize_saturating_mul (vb_len buf) 2) 64) s of
             (Returns bigger, s1) \<Rightarrow>
               (Returns bigger, zeroizing_drop z hp buf
                  (s1\<lparr>mem_bytes := write_bytes (vb_ptr bigger) (read_bytes (vb_ptr buf) filled (mem_bytes s1)) (mem_bytes s1)\<rparr>))
           | (Fails e, s1) \<Rightarrow> (Fails e, zeroizing_drop z hp buf s1)
           | (r, s1) \<Rightarrow> (r, s1)
      else (Returns buf, s))"

primrec wiping_loop ::
  "nat \<Rightarrow> zeroize \<Rightarrow> 'w heap \<Rightarrow> 'f fs \<Rightarrow> nat \<Rightarrow> string \<Rightarrow> vec_buf \<Rightarrow> nat \<Rightarrow> 'w memory \<Rightarrow> 'f \<Rightarrow> raw_key ending \<times> 'w memory \<times> 'f" where
  "wiping_loop 0 z hp fs file p buf filled s f = (Runs, s, f)"
| "wiping_loop (Suc fuel) z hp fs file p buf filled s f =
     (case wiping_grow z hp buf filled s of
        (Returns buf, s) \<Rightarrow>
          if vb_len buf < filled then (Fails Panic, zeroizing_drop z hp buf s, f)
          else (case fs_read fs file (vb_len buf - filled) f of
             (Inl k, f') \<Rightarrow> (case k of
                Interrupted \<Rightarrow> wiping_loop fuel z hp fs file p buf filled s f'
              | IoKind e \<Rightarrow> (Fails (Err (io_error p k)), zeroizing_drop z hp buf s, f'))
           | (Inr bs, f') \<Rightarrow>
               if bs = [] then (Returns (raw_key_new (buf\<lparr>vb_len := filled\<rparr>)), s, f')
               else wiping_loop fuel z hp fs file p buf (filled + length bs)
                 (s\<lparr>mem_bytes := write_bytes (vb_ptr buf + filled) (take (vb_len buf - filled) bs) (mem_bytes s)\<rparr>) f')
      | (Fails e, s) \<Rightarrow> (Fails e, s, f)
      | (Aborts, s) \<Rightarrow> (Aborts, s, f)
      | (Runs, s) \<Rightarrow> (Runs, s, f))"

definition wiping_read ::
  "nat \<Rightarrow> zeroize \<Rightarrow> 'w heap \<Rightarrow> 'f fs \<Rightarrow> nat \<Rightarrow> nat \<Rightarrow> string \<Rightarrow> 'w memory \<Rightarrow> 'f \<Rightarrow> raw_key ending \<times> 'w memory \<times> 'f" where
  "wiping_read fuel z hp fs file hint p s f =
     (case vec_zeroed hp (usize_saturating_add hint 1) s of
        (Returns buf, s) \<Rightarrow> wiping_loop fuel z hp fs file p buf 0 s f
      | (Fails e, s) \<Rightarrow> (Fails e, s, f)
      | (Aborts, s) \<Rightarrow> (Aborts, s, f)
      | (Runs, s) \<Rightarrow> (Runs, s, f))"

section \<open>What the allocator and the wiping promise\<close>

definition alloc_law :: "'w heap \<Rightarrow> ('w \<Rightarrow> nat set) \<Rightarrow> bool" where
  "alloc_law hp owned \<longleftrightarrow>
     (\<forall>w n r w'. hp_alloc hp w n = (r, w') \<longrightarrow>
        (case r of None \<Rightarrow> owned w' = owned w
         | Some a \<Rightarrow> {a..<a + n} \<inter> owned w = {} \<and> owned w' = owned w \<union> {a..<a + n})) \<and>
     (\<forall>w a n. owned (hp_free hp w a n) = owned w - {a..<a + n})"

lemma heap_law_alloc: "heap_law os hp owned held \<Longrightarrow> alloc_law hp owned"
  unfolding alloc_law_def by (auto dest: heap_lawD simp: heap_lawD(4) split: option.split)

lemma alloc_lawD:
  assumes "alloc_law hp owned"
  shows "hp_alloc hp w n = (Some a, w') \<Longrightarrow> {a..<a + n} \<inter> owned w = {}"
    "hp_alloc hp w n = (Some a, w') \<Longrightarrow> owned w' = owned w \<union> {a..<a + n}"
    "owned (hp_free hp w a n) = owned w - {a..<a + n}"
  using assms [unfolded alloc_law_def, THEN conjunct1, rule_format, of w n "Some a" w']
    assms [unfolded alloc_law_def, THEN conjunct2, rule_format, of w a n] by simp_all

text \<open>The whole allocation is zero afterwards, the spare capacity included; nothing else changes.\<close>

definition zeroize_law :: "zeroize \<Rightarrow> bool" where
  "zeroize_law z \<longleftrightarrow> (\<forall>v m x. z v m x = (if x \<in> vec_block v then 0 else m x))"

lemma zeroizeD: "zeroize_law z \<Longrightarrow> z v m x = (if x \<in> vec_block v then 0 else m x)"
  by (simp add: zeroize_law_def)

section \<open>Nothing stays behind\<close>

text \<open>Compared with the memory \<open>m0\<close> of a moment when the allocations \<open>Own\<close> were out: \<open>Live\<close> came on top of them, they are
  untouched, and outside \<open>Live\<close> every byte is as it was or zero.\<close>

definition only_live :: "('w \<Rightarrow> nat set) \<Rightarrow> nat set \<Rightarrow> (nat \<Rightarrow> u8) \<Rightarrow> nat set \<Rightarrow> 'w memory \<Rightarrow> bool" where
  "only_live owned Own m0 Live s \<longleftrightarrow> owned (mem_world s) = Own \<union> Live \<and> Own \<inter> Live = {} \<and>
     (\<forall>x\<in>Own. mem_bytes s x = m0 x) \<and> (\<forall>x. x \<notin> Live \<longrightarrow> mem_bytes s x = m0 x \<or> mem_bytes s x = 0)"

lemma only_live_start: "only_live owned (owned (mem_world s)) (mem_bytes s) {} s"
  by (simp add: only_live_def)

lemma only_live_write:
  assumes "only_live owned Own m0 Live s" "\<And>x. x \<notin> Live \<Longrightarrow> m x = mem_bytes s x"
  shows "only_live owned Own m0 Live (s\<lparr>mem_bytes := m\<rparr>)"
proof -
  have "x \<notin> Live" if "x \<in> Own" for x
    using assms(1) that by (auto simp: only_live_def)
  then show ?thesis
    using assms by (simp add: only_live_def)
qed

lemma only_live_alloc:
  assumes "alloc_law hp owned" "only_live owned Own m0 Live s" "vec_zeroed hp n s = (Returns v, s')"
  shows "only_live owned Own m0 (Live \<union> vec_block v) s'" "Live \<inter> vec_block v = {}" "vb_len v = n" "vb_cap v = n"
    "vec_bytes v s' = replicate n 0" "\<And>x. x \<in> Live \<Longrightarrow> mem_bytes s' x = mem_bytes s x"
proof -
  have "only_live owned Own m0 (Live \<union> vec_block v) s' \<and> Live \<inter> vec_block v = {} \<and> vb_len v = n \<and> vb_cap v = n \<and>
    vec_bytes v s' = replicate n 0 \<and> (\<forall>x\<in>Live. mem_bytes s' x = mem_bytes s x)"
  proof (cases "n = 0")
    case True
    then show ?thesis
      using assms(2,3) by (auto simp: vec_zeroed_def vec_block_def vec_bytes_def read_bytes_def)
  next
    case False
    then obtain a w where a: "hp_alloc hp (mem_world s) n = (Some a, w)" "v = \<lparr>vb_ptr = a, vb_len = n, vb_cap = n\<rparr>"
      "s' = s\<lparr>mem_bytes := zero_bytes a n (mem_bytes s), mem_world := w\<rparr>"
      using assms(3) by (auto simp: vec_zeroed_def split: if_splits option.splits prod.splits)
    have own: "owned w = owned (mem_world s) \<union> {a..<a + n}" "{a..<a + n} \<inter> owned (mem_world s) = {}"
      using alloc_lawD [OF assms(1)] a(1) by blast+
    have blk: "vec_block v = {a..<a + n}"
      using a(2) by (simp add: vec_block_def)
    have fresh: "x \<notin> vec_block v" if "x \<in> Own \<union> Live" for x
      using assms(2) own(2) that unfolding blk only_live_def by blast
    have z: "mem_bytes s' x = (if x \<in> vec_block v then 0 else mem_bytes s x)" for x
      using a(3) by (simp add: blk zero_bytes_def)
    have "only_live owned Own m0 (Live \<union> vec_block v) s'"
      using assms(2) fresh a(3) own(1) unfolding only_live_def z by (auto simp: blk)
    moreover have "vec_bytes v s' = replicate n 0"
      using a(2) by (auto simp: vec_bytes_def read_bytes_def z vec_block_def list_eq_iff_nth_eq)
    ultimately show ?thesis
      using fresh a(2) z by auto
  qed
  then show "only_live owned Own m0 (Live \<union> vec_block v) s'" "Live \<inter> vec_block v = {}" "vb_len v = n" "vb_cap v = n"
    "vec_bytes v s' = replicate n 0" "\<And>x. x \<in> Live \<Longrightarrow> mem_bytes s' x = mem_bytes s x"
    by blast+
qed

lemma only_live_drop:
  assumes "alloc_law hp owned" "zeroize_law z" "only_live owned Own m0 (Live \<union> vec_block v) s" "Live \<inter> vec_block v = {}"
  shows "only_live owned Own m0 Live (zeroizing_drop z hp v s)"
    "\<And>x. x \<in> Live \<Longrightarrow> mem_bytes (zeroizing_drop z hp v s) x = mem_bytes s x"
proof -
  have m: "mem_bytes (zeroizing_drop z hp v s) x = (if x \<in> vec_block v then 0 else mem_bytes s x)" for x
    by (simp add: zeroizing_drop_def vec_dealloc_def zeroizeD [OF assms(2)])
  have w: "owned (mem_world (zeroizing_drop z hp v s)) = owned (mem_world s) - vec_block v"
    by (simp add: zeroizing_drop_def vec_dealloc_def vec_block_def alloc_lawD(3) [OF assms(1)])
  have "Own \<inter> vec_block v = {}"
    using assms(3) by (auto simp: only_live_def)
  then show "only_live owned Own m0 Live (zeroizing_drop z hp v s)"
    using assms(3,4) unfolding only_live_def m w by auto
  show "mem_bytes (zeroizing_drop z hp v s) x = mem_bytes s x" if "x \<in> Live" for x
    using assms(4) that by (auto simp: m)
qed

lemma raw_key_drop_eq: "raw_key_drop z hp k s = zeroizing_drop z hp (rk_bytes k) s"
  by (simp add: raw_key_drop_def raw_key_wipe_def zeroizing_drop_def vec_dealloc_def)

section \<open>The reading loop\<close>

text \<open>The buffer of the loop: full length, and the only thing on top of what was there.\<close>

definition reading :: "('w \<Rightarrow> nat set) \<Rightarrow> nat set \<Rightarrow> (nat \<Rightarrow> u8) \<Rightarrow> vec_buf \<Rightarrow> 'w memory \<Rightarrow> bool" where
  "reading owned Own m0 v s \<longleftrightarrow> only_live owned Own m0 (vec_block v) s \<and> vb_len v = vb_cap v"

lemma length_vec_bytes [simp]: "length (vec_bytes v s) = vb_len v"
  by (simp add: vec_bytes_def read_bytes_def)

lemma vec_bytes_same:
  "vb_len v \<le> vb_cap v \<Longrightarrow> (\<And>x. x \<in> vec_block v \<Longrightarrow> mem_bytes s' x = mem_bytes s x) \<Longrightarrow> vec_bytes v s' = vec_bytes v s"
  by (simp add: vec_bytes_def read_bytes_def vec_block_def)

lemma vec_zeroed_zero_vec:
  "fst (vec_zeroed hp n s) = Fails e \<Longrightarrow> zero_vec n = Inl e \<and> snd (vec_zeroed hp n s) = s"
  "fst (vec_zeroed hp n s) = Returns v \<Longrightarrow> zero_vec n = Inr (replicate n 0)"
  "fst (vec_zeroed hp n s) \<noteq> Runs"
  "fst (vec_zeroed hp n s) = Aborts \<Longrightarrow> \<exists>w n. fst (hp_alloc hp w n) = None"
  by (auto simp: vec_zeroed_def zero_vec_def split: if_splits option.splits prod.splits) (metis fst_conv)

lemma wiping_grow_returns:
  assumes "alloc_law hp owned" "zeroize_law z" "reading owned Own m0 v s" "wiping_grow z hp v filled s = (Returns v', s')"
  shows "reading owned Own m0 v' s'" "grow_full (vec_bytes v s) filled = Inr (vec_bytes v' s')"
proof -
  have "reading owned Own m0 v' s' \<and> grow_full (vec_bytes v s) filled = Inr (vec_bytes v' s')"
  proof (cases "filled = vb_len v")
    case False
    then show ?thesis
      using assms(3,4) by (simp add: wiping_grow_def grow_full_def)
  next
    case True
    let ?n = "max (usize_saturating_mul (vb_len v) 2) 64"
    obtain s1 where z: "vec_zeroed hp ?n s = (Returns v', s1)"
      and s': "s' = zeroizing_drop z hp v (s1\<lparr>mem_bytes := write_bytes (vb_ptr v') (vec_bytes v s1) (mem_bytes s1)\<rparr>)"
      using assms(4) True by (auto simp: wiping_grow_def vec_bytes_def split: prod.splits ending.splits)
    have lv: "only_live owned Own m0 (vec_block v) s" and cap: "vb_len v = vb_cap v"
      using assms(3) by (simp_all add: reading_def)
    note al = only_live_alloc [OF assms(1) lv z]
    let ?s2 = "s1\<lparr>mem_bytes := write_bytes (vb_ptr v') (vec_bytes v s1) (mem_bytes s1)\<rparr>"
    have "?n \<le> isize_max"
      using z by (auto simp: vec_zeroed_def split: if_splits)
    then have fits: "vb_len v \<le> vb_len v'"
      using al(3) by (auto simp: usize_saturating_mul_def usize_max_def isize_max_def)
    have old: "vec_bytes v s1 = vec_bytes v s"
      using al(6) cap by (intro vec_bytes_same) auto
    have "only_live owned Own m0 (vec_block v' \<union> vec_block v) ?s2"
      using al(1) fits al(3,4) by (intro only_live_write) (auto simp: Un_commute write_bytes_def vec_block_def)
    note dr = only_live_drop [OF assms(1,2) this] 
    have disj: "vec_block v' \<inter> vec_block v = {}"
      using al(2) by blast
    have "vec_bytes v' s' = vec_bytes v' ?s2"
      unfolding s' using dr(2) [OF disj] al(3,4) by (intro vec_bytes_same) auto
    also have "\<dots> = vec_bytes v s @ drop (vb_len v) (vec_bytes v' s1)"
      using fits unfolding old by (intro nth_equalityI) (auto simp: vec_bytes_def read_bytes_def write_bytes_def nth_append)
    finally have "vec_bytes v' s' = vec_bytes v s @ drop (vb_len v) (replicate ?n 0)"
      using al(5) by simp
    moreover have "zero_vec ?n = Inr (replicate ?n 0)"
      using vec_zeroed_zero_vec(2) [of hp ?n s v'] by (simp add: z)
    ultimately show ?thesis
      using dr(1) [OF disj] al(3,4) True s' by (simp add: reading_def grow_full_def ebind_def)
  qed
  then show "reading owned Own m0 v' s'" "grow_full (vec_bytes v s) filled = Inr (vec_bytes v' s')"
    by blast+
qed

lemma wiping_grow_fails:
  assumes "alloc_law hp owned" "zeroize_law z" "reading owned Own m0 v s" "wiping_grow z hp v filled s = (Fails e, s')"
  shows "only_live owned Own m0 {} s'" "grow_full (vec_bytes v s) filled = Inl e"
proof -
  let ?n = "max (usize_saturating_mul (vb_len v) 2) 64"
  obtain s1 where filled: "filled = vb_len v" and z: "vec_zeroed hp ?n s = (Fails e, s1)" and s': "s' = zeroizing_drop z hp v s1"
    using assms(4) by (auto simp: wiping_grow_def split: if_splits prod.splits ending.splits)
  note zv = vec_zeroed_zero_vec(1) [of hp ?n s e]
  show "only_live owned Own m0 {} s'"
    using only_live_drop(1) [OF assms(1,2), of Own m0 "{}" v s] assms(3) zv z s' by (simp add: reading_def)
  show "grow_full (vec_bytes v s) filled = Inl e"
    using zv z filled by (simp add: grow_full_def ebind_def)
qed

lemma wiping_grow_aborts:
  "wiping_grow z hp v filled s = (Aborts, s') \<Longrightarrow> \<exists>w n. fst (hp_alloc hp w n) = None"
  "wiping_grow z hp v filled s \<noteq> (Runs, s')"
proof -
  let ?n = "max (usize_saturating_mul (vb_len v) 2) 64"
  show "wiping_grow z hp v filled s = (Aborts, s') \<Longrightarrow> \<exists>w n. fst (hp_alloc hp w n) = None"
    using vec_zeroed_zero_vec(4) [of hp ?n s] by (auto simp: wiping_grow_def split: if_splits prod.splits ending.splits)
  show "wiping_grow z hp v filled s \<noteq> (Runs, s')"
    using vec_zeroed_zero_vec(3) [of hp ?n s] by (auto simp: wiping_grow_def split: if_splits prod.splits ending.splits)
qed

text \<open>What reading into the rest of the buffer does to its bytes.\<close>

lemma reading_write:
  fixes bs :: bytes
  assumes "reading owned Own m0 v s" "filled \<le> vb_len v"
  defines "s' \<equiv> s\<lparr>mem_bytes := write_bytes (vb_ptr v + filled) (take (vb_len v - filled) bs) (mem_bytes s)\<rparr>"
  shows "reading owned Own m0 v s'"
    "vec_bytes v s' = take (vb_len v) (take filled (vec_bytes v s) @ bs @ drop (filled + length bs) (vec_bytes v s))"
proof -
  show "reading owned Own m0 v s'"
    using assms(1,2) unfolding s'_def reading_def
    by (intro conjI only_live_write) (auto simp: write_bytes_def vec_block_def)
  show "vec_bytes v s' = take (vb_len v) (take filled (vec_bytes v s) @ bs @ drop (filled + length bs) (vec_bytes v s))"
    using assms(2) unfolding s'_def
    by (intro nth_equalityI) (auto simp: vec_bytes_def read_bytes_def write_bytes_def nth_append min_def)
qed

text \<open>How the reading loop in memory ends, against the loop on lists of bytes.\<close>

definition read_ends ::
  "zeroize \<Rightarrow> 'w heap \<Rightarrow> ('w \<Rightarrow> nat set) \<Rightarrow> nat set \<Rightarrow> (nat \<Rightarrow> u8) \<Rightarrow> bytes result \<times> 'f \<Rightarrow> raw_key ending \<times> 'w memory \<times> 'f \<Rightarrow> bool" where
  "read_ends z hp owned Own m0 spec out \<longleftrightarrow> (case out of (r, s', f') \<Rightarrow>
     (case r of
        Returns k \<Rightarrow> spec = (Inr (expose_secret k s'), f') \<and> only_live owned Own m0 (vec_block (rk_bytes k)) s' \<and>
          only_live owned Own m0 {} (raw_key_drop z hp k s')
      | Fails e \<Rightarrow> spec = (Inl e, f') \<and> only_live owned Own m0 {} s'
      | Runs \<Rightarrow> spec = (Inl Diverge, f')
      | Aborts \<Rightarrow> \<exists>w n. fst (hp_alloc hp w n) = None))"

lemma reading_drop:
  assumes "alloc_law hp owned" "zeroize_law z" "reading owned Own m0 v s"
  shows "only_live owned Own m0 {} (zeroizing_drop z hp v s)"
  using only_live_drop(1) [OF assms(1,2), of Own m0 "{}" v s] assms(3) by (simp add: reading_def)

lemma vec_block_len [simp]: "vec_block (v\<lparr>vb_len := n\<rparr>) = vec_block v"
  by (simp add: vec_block_def)

lemma reading_done:
  assumes "alloc_law hp owned" "zeroize_law z" "reading owned Own m0 v s" "filled \<le> vb_len v"
  shows "expose_secret (raw_key_new (v\<lparr>vb_len := filled\<rparr>)) s = take filled (vec_bytes v s)"
    "only_live owned Own m0 {} (raw_key_drop z hp (raw_key_new (v\<lparr>vb_len := filled\<rparr>)) s)"
proof -
  show "expose_secret (raw_key_new (v\<lparr>vb_len := filled\<rparr>)) s = take filled (vec_bytes v s)"
    using assms(4) by (simp add: expose_secret_def raw_key_new_def vec_bytes_def read_bytes_def take_map min_def)
  have "only_live owned Own m0 ({} \<union> vec_block (v\<lparr>vb_len := filled\<rparr>)) s"
    using assms(3) by (simp add: reading_def)
  from only_live_drop(1) [OF assms(1,2) this]
  show "only_live owned Own m0 {} (raw_key_drop z hp (raw_key_new (v\<lparr>vb_len := filled\<rparr>)) s)"
    by (simp add: raw_key_drop_eq raw_key_new_def)
qed

text \<open>One pass that reads: both loops go on with the same buffer, or end with the bytes read so far.\<close>

lemma wiping_loop_pass:
  assumes "alloc_law hp owned" "zeroize_law z" "reading owned Own m0 v s" "wiping_grow z hp v filled s = (Returns v1, s1)"
    and "filled \<le> vb_len v1" "fs_read fs file (vb_len v1 - filled) f = (Inr bs, f')"
    and "\<And>v s filled f. reading owned Own m0 v s \<Longrightarrow>
      read_ends z hp owned Own m0 (read_loop fuel fs file p (vec_bytes v s) filled f) (wiping_loop fuel z hp fs file p v filled s f)"
  shows "read_ends z hp owned Own m0 (read_loop (Suc fuel) fs file p (vec_bytes v s) filled f)
    (wiping_loop (Suc fuel) z hp fs file p v filled s f)"
proof -
  note gr = wiping_grow_returns [OF assms(1-4)]
  let ?s2 = "s1\<lparr>mem_bytes := write_bytes (vb_ptr v1 + filled) (take (vb_len v1 - filled) bs) (mem_bytes s1)\<rparr>"
  have w: "take (vb_len v1) (take filled (vec_bytes v1 s1) @ bs @ drop (filled + length bs) (vec_bytes v1 s1)) = vec_bytes v1 ?s2"
    by (rule reading_write(2) [OF gr(1) assms(5), symmetric])
  have spec: "read_loop (Suc fuel) fs file p (vec_bytes v s) filled f =
      (if bs = [] then (Inr (take filled (vec_bytes v1 s1)), f')
       else read_loop fuel fs file p (vec_bytes v1 ?s2) (filled + length bs) f')"
    using gr(2) assms(5,6) unfolding w [symmetric] by simp
  have impl: "wiping_loop (Suc fuel) z hp fs file p v filled s f =
      (if bs = [] then (Returns (raw_key_new (v1\<lparr>vb_len := filled\<rparr>)), s1, f')
       else wiping_loop fuel z hp fs file p v1 (filled + length bs) ?s2 f')"
    using assms(4-6) by simp
  show ?thesis
  proof (cases "bs = []")
    case True
    then show ?thesis
      using reading_done [OF assms(1,2) gr(1) assms(5)] gr(1) unfolding spec impl
      by (simp add: read_ends_def reading_def raw_key_new_def)
  next
    case False
    then show ?thesis
      using assms(7) [OF reading_write(1) [OF gr(1) assms(5), of bs], of "filled + length bs" f'] unfolding spec impl by simp
  qed
qed

lemma wiping_loop_ends:
  assumes "alloc_law hp owned" "zeroize_law z" "reading owned Own m0 v s"
  shows "read_ends z hp owned Own m0 (read_loop fuel fs file p (vec_bytes v s) filled f)
    (wiping_loop fuel z hp fs file p v filled s f)"
  using assms(3)
proof (induction fuel arbitrary: v filled s f)
  case 0
  then show ?case by (simp add: read_ends_def)
next
  case (Suc fuel)
  obtain r s1 where g: "wiping_grow z hp v filled s = (r, s1)" by fastforce
  show ?case
  proof (cases r)
    case (Fails e)
    then show ?thesis
      using wiping_grow_fails [OF assms(1,2) Suc.prems] g by (simp add: read_ends_def)
  next
    case Aborts
    then show ?thesis
      using wiping_grow_aborts(1) g by (auto simp: read_ends_def)
  next
    case Runs
    then show ?thesis
      using wiping_grow_aborts(2) g by blast
  next
    case (Returns v1)
    note gr = wiping_grow_returns [OF assms(1,2) Suc.prems g [unfolded Returns]]
    obtain x f' where x: "fs_read fs file (vb_len v1 - filled) f = (x, f')" by fastforce
    consider "vb_len v1 < filled" | e where "filled \<le> vb_len v1" "x = Inl e" | bs where "filled \<le> vb_len v1" "x = Inr bs"
      by (metis not_less sum.exhaust)
    then show ?thesis
    proof cases
      case 1
      then show ?thesis
        using gr g Returns reading_drop [OF assms(1,2) gr(1)] by (simp add: read_ends_def)
    next
      case 2
      then show ?thesis
        using gr g Returns x Suc.IH [OF gr(1), of filled f'] reading_drop [OF assms(1,2) gr(1)]
        by (cases e) (simp_all add: read_ends_def)
    next
      case 3
      show ?thesis
        by (rule wiping_loop_pass [OF assms(1,2) Suc.prems g [unfolded Returns] 3(1) x [unfolded 3(2)] Suc.IH])
    qed
  qed
qed

lemma wiping_read_ends:
  assumes "alloc_law hp owned" "zeroize_law z"
  shows "read_ends z hp owned (owned (mem_world s)) (mem_bytes s) (read_wiping fuel fs file hint p f)
    (wiping_read fuel z hp fs file hint p s f)"
proof -
  let ?n = "usize_saturating_add hint 1"
  obtain r s1 where z: "vec_zeroed hp ?n s = (r, s1)" by fastforce
  note zv = vec_zeroed_zero_vec [of hp ?n s]
  show ?thesis
  proof (cases r)
    case (Returns v)
    note al = only_live_alloc [OF assms(1) only_live_start [of owned s] z [unfolded Returns]]
    have "reading owned (owned (mem_world s)) (mem_bytes s) v s1"
      using al(1,3,4) by (simp add: reading_def)
    from wiping_loop_ends [OF assms this, of fuel fs "file" p 0 f] show ?thesis
      using zv(2) z Returns al(5) by (simp add: wiping_read_def read_wiping_def rbind_def rlift_def)
  next
    case (Fails e)
    then show ?thesis
      using zv(1) z only_live_start [of owned s]
      by (simp add: wiping_read_def read_wiping_def rbind_def rlift_def read_ends_def)
  next
    case Aborts
    then show ?thesis
      using zv(4) z by (simp add: wiping_read_def read_ends_def)
  next
    case Runs
    then show ?thesis
      using zv(3) z by simp
  qed
qed

section \<open>The property\<close>

text \<open>(C26) A key read from a file leaves nothing behind. On any allocator that hands out fresh memory, with a \<^verbatim>\<open>zeroize\<close>
  that does what it documents, the reading loop in memory returns what the loop on lists of bytes returns. When it
  returns a key, memory of others is untouched and every byte outside the key's allocation is as it was before the
  call or zero, whatever buffers were used and given back on the way; after the key is dropped this holds of every
  byte, and every allocation has been given back. When it returns an error or panics this holds at once. The process
  stops only when the allocator has no memory.\<close>

theorem file_key_leaves_no_trace:
  assumes "alloc_law hp owned" "zeroize_law z" "wiping_read fuel z hp fs file hint p s f = (r, s', f')"
  shows "case r of
      Returns k \<Rightarrow> read_wiping fuel fs file hint p f = (Inr (expose_secret k s'), f') \<and>
        (\<forall>x\<in>owned (mem_world s). mem_bytes s' x = mem_bytes s x) \<and>
        (\<forall>x. x \<notin> vec_block (rk_bytes k) \<longrightarrow> mem_bytes s' x = mem_bytes s x \<or> mem_bytes s' x = 0) \<and>
        (\<forall>x. mem_bytes (raw_key_drop z hp k s') x = mem_bytes s x \<or> mem_bytes (raw_key_drop z hp k s') x = 0) \<and>
        owned (mem_world (raw_key_drop z hp k s')) = owned (mem_world s)
    | Fails e \<Rightarrow> read_wiping fuel fs file hint p f = (Inl e, f') \<and>
        (\<forall>x\<in>owned (mem_world s). mem_bytes s' x = mem_bytes s x) \<and>
        (\<forall>x. mem_bytes s' x = mem_bytes s x \<or> mem_bytes s' x = 0) \<and> owned (mem_world s') = owned (mem_world s)
    | Runs \<Rightarrow> read_wiping fuel fs file hint p f = (Inl Diverge, f')
    | Aborts \<Rightarrow> \<exists>w n. fst (hp_alloc hp w n) = None"
  using wiping_read_ends [OF assms(1,2), of s fuel fs "file" hint p f] unfolding assms(3) read_ends_def only_live_def
  by (cases r) auto

definition zero_wipe :: zeroize where
  "zero_wipe v m = (\<lambda>x. if x \<in> vec_block v then 0 else m x)"

lemma zero_wipe_law: "zeroize_law zero_wipe"
  by (simp add: zeroize_law_def zero_wipe_def)

lemma space_alloc_law: "alloc_law space_heap (\<lambda>w. fst (snd w))"
  using space_example_law heap_law_alloc unfolding space_law_def by blast

theorem file_key_leaves_no_trace_witness:
  "\<exists>k s' f'. wiping_read (Suc (Suc 0)) zero_wipe space_heap one_file 0 2 ''k'' space_start [7, 8] = (Returns k, s', f') \<and>
     expose_secret k s' = [7, 8] \<and> (\<forall>x. mem_bytes (raw_key_drop zero_wipe space_heap k s') x \<in> {255, 0})"
proof -
  have n: "usize_saturating_add 2 1 = 3"
    by (simp add: usize_saturating_add_def usize_max_def)
  obtain s1 where z: "vec_zeroed space_heap 3 space_start = (Returns \<lparr>vb_ptr = 0, vb_len = 3, vb_cap = 3\<rparr>, s1)"
    by (simp add: vec_zeroed_def space_heap_def space_take_def space_start_def isize_max_def)
  obtain k s' f' where
    r: "wiping_read (Suc (Suc 0)) zero_wipe space_heap one_file 0 2 ''k'' space_start [7, 8] = (Returns k, s', f')"
    unfolding wiping_read_def n z by (simp add: wiping_grow_def one_file_def)
  have "read_wiping (Suc (Suc 0)) one_file 0 2 ''k'' [7, 8] = (Inr [7, 8], [])"
    unfolding read_wiping_def n by (simp add: zero_vec_def grow_full_def one_file_def rbind_def rlift_def isize_max_def numeral_3_eq_3)
  with file_key_leaves_no_trace [OF space_alloc_law zero_wipe_law r] r show ?thesis
    by (auto simp: space_start_def)
qed

end
