(* ===== verification/Residue.thy ===== *)
theory Residue
  imports Wiping Layered
begin

text \<open>
  The temporary copies of the layout that the four strategies of \<^verbatim>\<open>src/src/fragment/\<close> build: a \<^verbatim>\<open>Zeroizing<Vec<u8>>\<close>
  that is filled piece by piece, copied into a \<^verbatim>\<open>LockedBytes\<close> and dropped. Three of them allocate the whole capacity
  first; the scattering strategy starts with an empty vector, which moves as it grows.
\<close>

section \<open>Vectors that grow\<close>

text \<open>\<^verbatim>\<open>Vec::new()\<close> allocates nothing; \<^verbatim>\<open>Vec::with_capacity(n)\<close> leaves in its memory what was there.\<close>

definition vec_new :: vec_buf where
  "vec_new = \<lparr>vb_ptr = 1, vb_len = 0, vb_cap = 0\<rparr>"

definition vec_with_capacity :: "'w heap \<Rightarrow> nat \<Rightarrow> 'w memory \<Rightarrow> vec_buf ending \<times> 'w memory" where
  "vec_with_capacity hp n s =
     (if isize_max < n then (Fails Panic, s)
      else if n = 0 then (Returns vec_new, s)
      else case hp_alloc hp (mem_world s) n of
             (None, w) \<Rightarrow> (Aborts, s\<lparr>mem_world := w\<rparr>)
           | (Some a, w) \<Rightarrow> (Returns \<lparr>vb_ptr = a, vb_len = 0, vb_cap = n\<rparr>, s\<lparr>mem_world := w\<rparr>))"

text \<open>\<^verbatim>\<open>extend_from_slice\<close>. Without room the capacity is doubled at least, and 8 at least; reallocating is what
  \<^verbatim>\<open>GlobalAlloc::realloc\<close> does by default: allocate, copy, deallocate.\<close>

definition vec_extend :: "'w heap \<Rightarrow> bytes \<Rightarrow> vec_buf \<Rightarrow> 'w memory \<Rightarrow> unit ending \<times> vec_buf \<times> 'w memory" where
  "vec_extend hp bs v s =
     (let len = vb_len v + length bs in
      if len \<le> vb_cap v
      then (Returns (), v\<lparr>vb_len := len\<rparr>, s\<lparr>mem_bytes := write_bytes (vb_ptr v + vb_len v) bs (mem_bytes s)\<rparr>)
      else
        let c = max 8 (max (vb_cap v * 2) len) in
        if isize_max < c then (Fails Panic, v, s)
        else case hp_alloc hp (mem_world s) c of
               (None, w) \<Rightarrow> (Aborts, v, s\<lparr>mem_world := w\<rparr>)
             | (Some a, w) \<Rightarrow>
                 (Returns (), \<lparr>vb_ptr = a, vb_len = len, vb_cap = c\<rparr>,
                  vec_dealloc hp v (s\<lparr>mem_bytes := write_bytes a (vec_bytes v s @ bs) (mem_bytes s), mem_world := w\<rparr>)))"

primrec vec_extend_all :: "'w heap \<Rightarrow> bytes list \<Rightarrow> vec_buf \<Rightarrow> 'w memory \<Rightarrow> unit ending \<times> vec_buf \<times> 'w memory" where
  "vec_extend_all hp [] v s = (Returns (), v, s)"
| "vec_extend_all hp (bs # pieces) v s =
     (case vec_extend hp bs v s of
        (Returns u, v', s') \<Rightarrow> vec_extend_all hp pieces v' s'
      | (r, v', s') \<Rightarrow> (r, v', s'))"

text \<open>The temporary layout: allocated, filled, read by \<^verbatim>\<open>LockedBytes::from_slice\<close>, dropped.\<close>

definition layout_write ::
  "zeroize \<Rightarrow> 'w heap \<Rightarrow> nat \<Rightarrow> bytes list \<Rightarrow> 'w memory \<Rightarrow> bytes ending \<times> 'w memory" where
  "layout_write z hp cap pieces s =
     (case vec_with_capacity hp cap s of
        (Returns v, s1) \<Rightarrow>
          (case vec_extend_all hp pieces v s1 of
             (Returns u, v', s2) \<Rightarrow> (Returns (vec_bytes v' s2), zeroizing_drop z hp v' s2)
           | (Fails e, v', s2) \<Rightarrow> (Fails e, zeroizing_drop z hp v' s2)
           | (Aborts, v', s2) \<Rightarrow> (Aborts, s2)
           | (Runs, v', s2) \<Rightarrow> (Runs, s2))
      | (Fails e, s1) \<Rightarrow> (Fails e, s1)
      | (Aborts, s1) \<Rightarrow> (Aborts, s1)
      | (Runs, s1) \<Rightarrow> (Runs, s1))"

text \<open>The capacity each strategy asks for and the pieces it appends.\<close>

definition standard_layout :: "zeroize \<Rightarrow> 'w heap \<Rightarrow> u32 list \<Rightarrow> 'w memory \<Rightarrow> bytes ending \<times> 'w memory" where
  "standard_layout z hp offsets = layout_write z hp (length offsets * 4) (map u32_to_le_bytes offsets)"

definition interleaved_layout :: "zeroize \<Rightarrow> 'w heap \<Rightarrow> nat \<Rightarrow> u32 list \<Rightarrow> 'w memory \<Rightarrow> bytes ending \<times> 'w memory" where
  "interleaved_layout z hp pool_size positions =
     layout_write z hp (4 + length positions * 4) (u32_to_le_bytes (as_u32 pool_size) # map u32_to_le_bytes positions)"

definition layered_layout :: "zeroize \<Rightarrow> 'w heap \<Rightarrow> nat \<Rightarrow> bytes \<Rightarrow> 'w memory \<Rightarrow> bytes ending \<times> 'w memory" where
  "layered_layout z hp pick sub = layout_write z hp (4 + length sub) [u32_to_le_bytes (as_u32 pick), sub]"

definition random_layout :: "zeroize \<Rightarrow> 'w heap \<Rightarrow> u32 list list \<Rightarrow> 'w memory \<Rightarrow> bytes ending \<times> 'w memory" where
  "random_layout z hp groups =
     layout_write z hp 0 (concat (map (\<lambda>ps. u32_to_le_bytes (as_u32 (length ps)) # map u32_to_le_bytes ps) groups))"

section \<open>With the capacity in advance\<close>

lemma only_live_capacity:
  assumes "alloc_law hp owned" "only_live owned Own m0 {} s" "vec_with_capacity hp n s = (Returns v, s')"
  shows "only_live owned Own m0 (vec_block v) s'" "vb_len v = 0" "vb_cap v = n"
proof -
  have "only_live owned Own m0 (vec_block v) s' \<and> vb_len v = 0 \<and> vb_cap v = n"
  proof (cases "n = 0")
    case True
    then show ?thesis
      using assms(2,3) by (auto simp: vec_with_capacity_def vec_new_def vec_block_def)
  next
    case False
    then obtain a w where a: "hp_alloc hp (mem_world s) n = (Some a, w)" "v = \<lparr>vb_ptr = a, vb_len = 0, vb_cap = n\<rparr>"
      "s' = s\<lparr>mem_world := w\<rparr>"
      using assms(3) by (auto simp: vec_with_capacity_def split: if_splits option.splits prod.splits)
    have "owned w = owned (mem_world s) \<union> {a..<a + n}" "{a..<a + n} \<inter> owned (mem_world s) = {}"
      using alloc_lawD [OF assms(1)] a(1) by blast+
    then show ?thesis
      using assms(2) a(2,3) by (auto simp: only_live_def vec_block_def)
  qed
  then show "only_live owned Own m0 (vec_block v) s'" "vb_len v = 0" "vb_cap v = n"
    by blast+
qed

text \<open>Pieces that fit are appended in place.\<close>

lemma extend_in_place:
  assumes "only_live owned Own m0 (vec_block v) s" "vb_len v + length (concat pieces) \<le> vb_cap v"
  shows "\<exists>s'. vec_extend_all hp pieces v s = (Returns (), v\<lparr>vb_len := vb_len v + length (concat pieces)\<rparr>, s') \<and>
    only_live owned Own m0 (vec_block v) s' \<and>
    vec_bytes (v\<lparr>vb_len := vb_len v + length (concat pieces)\<rparr>) s' = vec_bytes v s @ concat pieces"
  using assms
proof (induction pieces arbitrary: v s)
  case Nil
  then show ?case by simp
next
  case (Cons bs pieces)
  let ?v = "v\<lparr>vb_len := vb_len v + length bs\<rparr>"
  let ?s = "s\<lparr>mem_bytes := write_bytes (vb_ptr v + vb_len v) bs (mem_bytes s)\<rparr>"
  have e: "vec_extend hp bs v s = (Returns (), ?v, ?s)"
    using Cons.prems(2) by (simp add: vec_extend_def Let_def)
  have l: "only_live owned Own m0 (vec_block ?v) ?s"
    using Cons.prems by (auto intro!: only_live_write simp: write_bytes_def vec_block_def)
  have b: "vec_bytes ?v ?s = vec_bytes v s @ bs"
    by (intro nth_equalityI) (auto simp: vec_bytes_def read_bytes_def write_bytes_def nth_append)
  obtain s' where s': "vec_extend_all hp pieces ?v ?s = (Returns (), ?v\<lparr>vb_len := vb_len ?v + length (concat pieces)\<rparr>, s')"
    "only_live owned Own m0 (vec_block ?v) s'"
    "vec_bytes (?v\<lparr>vb_len := vb_len ?v + length (concat pieces)\<rparr>) s' = vec_bytes ?v ?s @ concat pieces"
    using Cons.IH [OF l] Cons.prems(2) by auto
  show ?case
    using s' by (intro exI [of _ s']) (simp add: e b add.assoc)
qed

text \<open>Everything is given back, and what is not zero is as it was.\<close>

definition copy_wiped :: "'w heap \<Rightarrow> ('w \<Rightarrow> nat set) \<Rightarrow> bytes \<Rightarrow> 'w memory \<Rightarrow> bytes ending \<times> 'w memory \<Rightarrow> bool" where
  "copy_wiped hp owned bs s out \<longleftrightarrow> (case out of (r, s') \<Rightarrow>
     (case r of Returns bs' \<Rightarrow> bs' = bs | Fails e \<Rightarrow> e = Panic | Aborts \<Rightarrow> \<exists>w n. fst (hp_alloc hp w n) = None | Runs \<Rightarrow> False) \<and>
     owned (mem_world s') = owned (mem_world s) \<and> (\<forall>x\<in>owned (mem_world s). mem_bytes s' x = mem_bytes s x) \<and>
     (\<forall>x. mem_bytes s' x = mem_bytes s x \<or> mem_bytes s' x = 0))"

lemma layout_write_wiped:
  assumes "alloc_law hp owned" "zeroize_law z" "length (concat pieces) \<le> cap"
  shows "copy_wiped hp owned (concat pieces) s (layout_write z hp cap pieces s)"
proof -
  obtain r s1 where c: "vec_with_capacity hp cap s = (r, s1)" by fastforce
  consider v where "r = Returns v" | "r = Fails Panic" "s1 = s" |
    w where "r = Aborts" "s1 = s\<lparr>mem_world := w\<rparr>" "hp_alloc hp (mem_world s) cap = (None, w)"
    using c by (auto simp: vec_with_capacity_def split: if_splits option.splits prod.splits)
  then show ?thesis
  proof cases
    case (1 v)
    note cap = only_live_capacity [OF assms(1) only_live_start [of owned s] c [unfolded 1]]
    obtain s2 where e: "vec_extend_all hp pieces v s1 = (Returns (), v\<lparr>vb_len := length (concat pieces)\<rparr>, s2)"
      "only_live owned (owned (mem_world s)) (mem_bytes s) (vec_block v) s2"
      "vec_bytes (v\<lparr>vb_len := length (concat pieces)\<rparr>) s2 = vec_bytes v s1 @ concat pieces"
      using extend_in_place [OF cap(1), of pieces] cap(2,3) assms(3) by auto
    have "only_live owned (owned (mem_world s)) (mem_bytes s) {} (zeroizing_drop z hp (v\<lparr>vb_len := length (concat pieces)\<rparr>) s2)"
      by (rule only_live_drop(1) [OF assms(1,2)]) (use e(2) in simp_all)
    moreover have "vec_bytes v s1 = []"
      using cap(2) by (simp add: vec_bytes_def read_bytes_def)
    ultimately show ?thesis
      using c 1 e(1,3) by (simp add: layout_write_def copy_wiped_def only_live_def)
  next
    case 2
    then show ?thesis
      using c by (simp add: layout_write_def copy_wiped_def)
  next
    case (3 w)
    have "owned w = owned (mem_world s)"
      using assms(1) [unfolded alloc_law_def, THEN conjunct1, rule_format, OF 3(3)] by simp
    moreover have "\<exists>w n. fst (hp_alloc hp w n) = None"
      using 3(3) by (metis fst_conv)
    ultimately show ?thesis
      using c 3 by (simp add: layout_write_def copy_wiped_def)
  qed
qed

lemma length_concat_u32: "length (concat (map u32_to_le_bytes ws)) = length ws * 4"
  by (induction ws) simp_all

section \<open>Growing by reallocation\<close>

lemma extend_bytes:
  assumes "vec_extend hp bs v s = (Returns u, v', s')"
  shows "vec_bytes v' s' = vec_bytes v s @ bs" "vb_len v' = vb_len v + length bs"
proof -
  have written: "vec_bytes \<lparr>vb_ptr = a, vb_len = vb_len v + length bs, vb_cap = c\<rparr>
      (s\<lparr>mem_bytes := write_bytes a (vec_bytes v s @ bs) (mem_bytes s), mem_world := w\<rparr>) = vec_bytes v s @ bs" for a c w
    by (intro nth_equalityI) (simp_all add: vec_bytes_def read_bytes_def write_bytes_def)
  have same: "vec_bytes v (vec_dealloc hp u t) = vec_bytes v t" for v u and t :: "'a memory"
    by (simp add: vec_bytes_def vec_dealloc_def)
  have "vec_bytes v' s' = vec_bytes v s @ bs \<and> vb_len v' = vb_len v + length bs"
  proof (cases "vb_len v + length bs \<le> vb_cap v")
    case True
    then have "v' = v\<lparr>vb_len := vb_len v + length bs\<rparr>"
      "s' = s\<lparr>mem_bytes := write_bytes (vb_ptr v + vb_len v) bs (mem_bytes s)\<rparr>"
      using assms by (simp_all add: vec_extend_def Let_def)
    moreover have "vec_bytes (v\<lparr>vb_len := vb_len v + length bs\<rparr>)
        (s\<lparr>mem_bytes := write_bytes (vb_ptr v + vb_len v) bs (mem_bytes s)\<rparr>) = vec_bytes v s @ bs"
      by (intro nth_equalityI) (auto simp: vec_bytes_def read_bytes_def write_bytes_def nth_append)
    ultimately show ?thesis by simp
  next
    case False
    then show ?thesis
      using assms written
      by (auto simp: vec_extend_def Let_def same split: if_splits option.splits prod.splits)
  qed
  then show "vec_bytes v' s' = vec_bytes v s @ bs" "vb_len v' = vb_len v + length bs"
    by blast+
qed

text \<open>The allocator of the examples hands out one address after the other and never one twice.\<close>

definition bump :: "vec_buf \<Rightarrow> (nat \<times> nat set \<times> nat set) memory \<Rightarrow> bool" where
  "bump v s \<longleftrightarrow> fst (mem_world s) \<le> 2 * vb_cap v \<and> fst (snd (mem_world s)) \<subseteq> {..<fst (mem_world s)} \<and>
     vb_cap v \<le> 2 * vb_len v + 8"

lemma space_heap_simps:
  "hp_alloc space_heap (a, own, lk) n = (if a + n \<le> 2 ^ 64 \<and> {a..<a + n} \<inter> own = {} then (Some a, a + n, own \<union> {a..<a + n}, lk) else (None, a, own, lk))"
  "hp_free space_heap (a, own, lk) b n = (a, own - {b..<b + n}, lk)"
  by (simp_all add: space_heap_def space_take_def)

text \<open>A piece of four bytes is appended, in place or in a vector at the next free address.\<close>

lemma bump_extend:
  assumes "bump v s" "length bs = 4" "vb_len v < 2 ^ 40" "mem_world s = (a, own, lk)"
  shows "\<exists>v' s'. vec_extend space_heap bs v s = (Returns (), v', s') \<and> bump v' s' \<and>
    (if vb_len v + 4 \<le> vb_cap v
     then v' = v\<lparr>vb_len := vb_len v + 4\<rparr> \<and> mem_world s' = mem_world s \<and>
       mem_bytes s' = write_bytes (vb_ptr v + vb_len v) bs (mem_bytes s)
     else vb_ptr v' = a \<and> vb_cap v' = max 8 (max (vb_cap v * 2) (vb_len v + 4)) \<and> mem_world s' = (a + vb_cap v', own \<union> {a..<a + vb_cap v'} - vec_block v, lk) \<and>
       mem_bytes s' = write_bytes a (vec_bytes v s @ bs) (mem_bytes s))"
proof (cases "vb_len v + 4 \<le> vb_cap v")
  case True
  then show ?thesis
    using assms by (auto simp: vec_extend_def bump_def Let_def)
next
  case False
  let ?c = "max 8 (max (vb_cap v * 2) (vb_len v + 4))"
  have c: "2 * vb_cap v \<le> ?c" "?c \<le> 2 * (vb_len v + 4) + 8" "8 \<le> ?c"
    using False by auto
  have room: "a + ?c \<le> 2 ^ 64" "\<not> isize_max < ?c" "{a..<a + ?c} \<inter> own = {}"
    using assms(1,3,4) c(1,2) by (auto simp: bump_def isize_max_def)
  let ?w = "(a + ?c, own \<union> {a..<a + ?c}, lk)"
  let ?v = "\<lparr>vb_ptr = a, vb_len = vb_len v + 4, vb_cap = ?c\<rparr>"
  let ?s = "vec_dealloc space_heap v (s\<lparr>mem_bytes := write_bytes a (vec_bytes v s @ bs) (mem_bytes s), mem_world := ?w\<rparr>)"
  have "hp_alloc space_heap (mem_world s) ?c = (Some a, ?w)"
    unfolding assms(4) space_heap_simps using room by (simp only: if_True simp_thms)
  then have e: "vec_extend space_heap bs v s = (Returns (), ?v, ?s)"
    using False room(2) assms(2) by (simp add: vec_extend_def Let_def)
  have w: "mem_world ?s = (a + ?c, own \<union> {a..<a + ?c} - vec_block v, lk)"
    by (auto simp: vec_dealloc_def vec_block_def space_heap_simps)
  have "bump ?v ?s"
    using assms(1,4) c unfolding bump_def w by auto
  moreover have "mem_bytes ?s = write_bytes a (vec_bytes v s @ bs) (mem_bytes s)"
    by (simp add: vec_dealloc_def)
  ultimately show ?thesis
    using e w False by (intro exI [of _ ?v] exI [of _ ?s]) simp
qed

text \<open>Once the vector lies beyond address 8, what is at the first eight addresses stays there.\<close>

definition moved :: "bytes \<Rightarrow> vec_buf \<Rightarrow> (nat \<times> nat set \<times> nat set) memory \<Rightarrow> bool" where
  "moved b v s \<longleftrightarrow> bump v s \<and> 8 \<le> vb_ptr v \<and> 8 \<le> fst (mem_world s) \<and> {0..<8} \<inter> fst (snd (mem_world s)) = {} \<and>
     (\<forall>i<8. mem_bytes s i = b ! i)"

lemma moved_extend:
  assumes "moved b v s" "length bs = 4" "vb_len v < 2 ^ 40"
  shows "\<exists>v' s'. vec_extend space_heap bs v s = (Returns (), v', s') \<and> moved b v' s'"
proof -
  obtain a own lk where w: "mem_world s = (a, own, lk)" by (rule prod_cases3)
  have "bump v s" using assms(1) by (simp add: moved_def)
  from bump_extend [OF this assms(2,3) w] obtain v' s' where e: "vec_extend space_heap bs v s = (Returns (), v', s')" "bump v' s'"
    "if vb_len v + 4 \<le> vb_cap v
     then v' = v\<lparr>vb_len := vb_len v + 4\<rparr> \<and> mem_world s' = mem_world s \<and>
       mem_bytes s' = write_bytes (vb_ptr v + vb_len v) bs (mem_bytes s)
     else vb_ptr v' = a \<and> vb_cap v' = max 8 (max (vb_cap v * 2) (vb_len v + 4)) \<and> mem_world s' = (a + vb_cap v', own \<union> {a..<a + vb_cap v'} - vec_block v, lk) \<and>
       mem_bytes s' = write_bytes a (vec_bytes v s @ bs) (mem_bytes s)"
    by blast
  have "moved b v' s'"
    using assms(1) e(2,3) w by (auto simp: moved_def write_bytes_def split: if_splits)
  with e(1) show ?thesis by blast
qed

lemma moved_extend_all:
  assumes "moved b v s" "\<forall>p\<in>set pieces. length p = 4" "vb_len v + length (concat pieces) \<le> 2 ^ 40"
  shows "\<exists>v' s'. vec_extend_all space_heap pieces v s = (Returns (), v', s') \<and> moved b v' s' \<and>
    vec_bytes v' s' = vec_bytes v s @ concat pieces"
  using assms
proof (induction pieces arbitrary: v s)
  case (Cons p pieces)
  obtain v1 s1 where e: "vec_extend space_heap p v s = (Returns (), v1, s1)" "moved b v1 s1"
    using moved_extend [OF Cons.prems(1), of p] Cons.prems(2,3) by auto
  note eb = extend_bytes [OF e(1)]
  obtain v' s' where "vec_extend_all space_heap pieces v1 s1 = (Returns (), v', s')" "moved b v' s'"
    "vec_bytes v' s' = vec_bytes v1 s1 @ concat pieces"
    using Cons.IH [OF e(2)] Cons.prems(2,3) eb by auto
  then show ?case
    using e(1) eb by simp
qed simp

lemma moved_drop: "moved b v s \<Longrightarrow> moved b v (zeroizing_drop zero_wipe space_heap v s)"
  unfolding moved_def bump_def zeroizing_drop_def vec_dealloc_def
  by (cases "mem_world s") (auto simp: space_heap_simps zero_wipe_def vec_block_def)

text \<open>A memory of zeros with nothing allocated.\<close>

definition blank :: "(nat \<times> nat set \<times> nat set) memory" where
  "blank = space_start\<lparr>mem_bytes := (\<lambda>x. 0)\<rparr>"

lemma third_piece_moves:
  assumes "length p = 4" "length q = 4" "length r = 4"
  shows "\<exists>v s. vec_extend_all space_heap (p # q # r # rest) vec_new blank = vec_extend_all space_heap rest v s \<and>
    moved (p @ q) v s \<and> vec_bytes v s = p @ q @ r"
proof -
  have b0: "bump vec_new blank" and w0: "mem_world blank = (0, {}, {})" and len: "vb_len vec_new = 0" "vb_cap vec_new = 0"
    and none: "vec_block vec_new = {}" "vec_bytes vec_new blank = []"
    by (simp_all add: bump_def vec_new_def blank_def space_start_def vec_block_def vec_bytes_def read_bytes_def)
  obtain v1 s1 where e1: "vec_extend space_heap p vec_new blank = (Returns (), v1, s1)" "bump v1 s1" "vb_ptr v1 = 0" "vb_cap v1 = 8"
    "mem_world s1 = (8, {0..<8}, {})" "mem_bytes s1 = write_bytes 0 p (mem_bytes blank)"
    using bump_extend [OF b0 assms(1) _ w0] len none by auto
  note x1 = extend_bytes [OF e1(1)]
  obtain v2 s2 where e2: "vec_extend space_heap q v1 s1 = (Returns (), v2, s2)" "bump v2 s2" "v2 = v1\<lparr>vb_len := 8\<rparr>"
    "mem_world s2 = (8, {0..<8}, {})" "mem_bytes s2 = write_bytes 4 q (mem_bytes s1)"
    using bump_extend [OF e1(2) assms(2) _ e1(5)] e1(3-5) x1(2) len assms(1) by auto
  note x2 = extend_bytes [OF e2(1)]
  obtain v3 s3 where e3: "vec_extend space_heap r v2 s2 = (Returns (), v3, s3)" "bump v3 s3" "vb_ptr v3 = 8"
    "mem_world s3 = (24, {0..<8} \<union> {8..<24} - {0..<8}, {})" "mem_bytes s3 = write_bytes 8 (vec_bytes v2 s2 @ r) (mem_bytes s2)"
    using bump_extend [OF e2(2) assms(3) _ e2(4)] e1(3,4) e2(3) by (auto simp: vec_block_def)
  note x3 = extend_bytes [OF e3(1)]
  have "mem_bytes s3 i = (p @ q) ! i" if "i < 8" for i
    using that assms(1,2) by (auto simp: e3(5) e2(5) e1(6) write_bytes_def nth_append)
  then have "moved (p @ q) v3 s3"
    using e3(2-4) by (auto simp: moved_def)
  then show ?thesis
    using e1(1) e2(1) e3(1) x1(1) x2(1) x3(1) none(2) by (intro exI [of _ v3] exI [of _ s3]) simp
qed

section \<open>The property\<close>

lemma standard_layout_wiped:
  assumes "alloc_law hp owned" "zeroize_law z" "standard_fragment gr sf key g = (Inr fr, g')"
  shows "\<exists>offsets. length offsets = chunk_count fr \<and> copy_wiped hp owned (layout_bytes fr) s (standard_layout z hp offsets s)"
proof -
  obtain es where fr: "fr = from_parts (map snd es) (concat (map (\<lambda>e. u32_to_le_bytes (fst e)) es)) (length key)"
    using standard_fragment_Inr [OF assms(3)] by metis
  have "copy_wiped hp owned (concat (map u32_to_le_bytes (map fst es))) s (standard_layout z hp (map fst es) s)"
    unfolding standard_layout_def by (rule layout_write_wiped [OF assms(1,2)]) (simp only: length_concat_u32 order_refl)
  then show ?thesis
    using fr by (intro exI [of _ "map fst es"]) (simp add: chunk_count_def o_def)
qed

lemma interleaved_layout_wiped:
  assumes "alloc_law hp owned" "zeroize_law z" "interleaved_fragment gr iself key g = (Inr fr, g')"
  shows "\<exists>positions. length positions = length key \<and>
    copy_wiped hp owned (layout_bytes fr) s (interleaved_layout z hp (length key * pool_factor iself) positions s)"
proof -
  obtain pool ps where
    fr: "fr = from_parts [pool] (u32_to_le_bytes (as_u32 (length pool)) @ concat (map u32_to_le_bytes ps)) (length key)"
    and ps: "length ps = length key" "length pool = length key * pool_factor iself"
    using interleaved_fragment_Inr [OF assms(3)] by metis
  have "copy_wiped hp owned (concat (u32_to_le_bytes (as_u32 (length pool)) # map u32_to_le_bytes ps)) s
      (interleaved_layout z hp (length pool) ps s)"
    unfolding interleaved_layout_def by (rule layout_write_wiped [OF assms(1,2)]) (simp add: length_concat_u32)
  then show ?thesis
    using fr ps by (intro exI [of _ ps]) simp
qed

lemma layered_layout_wiped:
  assumes "alloc_law hp owned" "zeroize_law z" "layered_fragment gr lself key g = (Inr fr, g')"
  shows "\<exists>pick sub. pick < length (sub_strategies lself) \<and> copy_wiped hp owned (layout_bytes fr) s (layered_layout z hp pick sub s)"
proof -
  obtain pick sub where p: "pick < length (sub_strategies lself)"
    and fr: "fr = from_parts (chunks sub) (u32_to_le_bytes (as_u32 pick) @ layout_bytes sub) (total_len sub)"
    using layered_fragment_Inr [OF assms(3)] by metis
  have "copy_wiped hp owned (concat [u32_to_le_bytes (as_u32 pick), layout_bytes sub]) s (layered_layout z hp pick (layout_bytes sub) s)"
    unfolding layered_layout_def by (rule layout_write_wiped [OF assms(1,2)]) simp
  then show ?thesis
    using fr p by (intro exI [of _ pick] exI [of _ "layout_bytes sub"]) simp
qed

lemma pieces_group_layout:
  "concat (concat (map (\<lambda>ps. u32_to_le_bytes (as_u32 (length ps)) # map u32_to_le_bytes ps) groups)) = concat (map group_layout groups)"
  by (induction groups) (simp_all add: group_layout_def)

text \<open>At most one group per position, each with a header.\<close>

lemma random_loop_layout_length:
  "random_loop fuel gr self key positions cursor cs ly g = (Inr (cs', ly'), g') \<Longrightarrow>
     length ly' \<le> length ly + 4 * fuel + 4 * (length positions - cursor)"
proof (induction fuel arbitrary: cursor cs ly g)
  case 0
  then show ?case by (auto split: if_splits)
next
  case (Suc fuel)
  show ?case
  proof (cases "cursor < length positions")
    case True
    then obtain hi grp c g1 where grp: "subslice positions cursor hi = Inr grp"
      and l: "random_loop fuel gr self key positions hi (cs @ [c]) (ly @ group_layout grp) g1 = (Inr (cs', ly'), g')"
      using Suc.prems by (auto simp: result_simps Let_def split: if_splits)
    have "length (group_layout grp) = 4 + 4 * (hi - cursor)" "cursor \<le> hi" "hi \<le> length positions"
      using grp by (auto simp: subslice_def group_layout_def length_concat_u32 split: if_splits)
    then show ?thesis
      using Suc.IH [OF l] by simp
  next
    case False
    then show ?thesis using Suc.prems by simp
  qed
qed

lemma random_layout_length:
  assumes "random_fragment gr self key g = (Inr fr, g')"
  shows "length (layout_bytes fr) \<le> 2 ^ 40"
proof -
  have key: "length key \<le> u32_max"
    using assms by (auto simp: random_fragment_def split: if_splits)
  with assms obtain positions g1 cs ly where
    p: "fisher_yates gr (map as_u32 [0..<length key]) g = (Inr positions, g1)" and
    l: "random_loop (length positions) gr self key positions 0 [] [] g1 = (Inr (cs, ly), g')" and
    fr: "fr = from_parts cs ly (length key)"
    by (auto simp: random_fragment_def result_simps split: if_splits)
  show ?thesis
    using random_loop_layout_length [OF l] shuffled_positions(2) [OF p key] key fr by (simp add: u32_max_def)
qed

lemma random_layout_residue:
  assumes "random_fragment gr self key g = (Inr fr, g')" "2 \<le> length key"
  shows "\<exists>groups s'. concat (map group_layout groups) = layout_bytes fr \<and>
    random_layout zero_wipe space_heap groups blank = (Returns (layout_bytes fr), s') \<and>
    (\<forall>i<8. mem_bytes s' i = layout_bytes fr ! i) \<and> {0..<8} \<inter> fst (snd (mem_world s')) = {}"
proof -
  obtain groups where "fr = from_parts (map (map (\<lambda>pos. key ! unat pos)) groups) (concat (map group_layout groups)) (length key)"
    and n: "length (concat groups) = length key"
    using random_fragment_Inr [OF assms(1)] by metis
  then have fr: "layout_bytes fr = concat (map group_layout groups)"
    by simp
  define pieces where
    "pieces = concat (map (\<lambda>ps. u32_to_le_bytes (as_u32 (length ps)) # map u32_to_le_bytes ps) groups)"
  have all4: "\<forall>p\<in>set pieces. length p = 4"
    by (auto simp: pieces_def)
  have "groups \<noteq> []"
    using n assms(2) by auto
  moreover have "length pieces = length groups + length (concat groups)"
    unfolding pieces_def by (induction groups) simp_all
  ultimately have "3 \<le> length pieces"
    using n assms(2) by (cases groups) auto
  then obtain p q r rest where ps: "pieces = p # q # r # rest"
    by (metis Suc_le_length_iff numeral_3_eq_3)
  have bytes: "concat pieces = layout_bytes fr"
    using fr by (simp add: pieces_def pieces_group_layout)
  obtain v s where m: "vec_extend_all space_heap pieces vec_new blank = vec_extend_all space_heap rest v s"
    "moved (p @ q) v s" "vec_bytes v s = p @ q @ r"
    using third_piece_moves [of p q r rest] all4 unfolding ps by auto
  have len: "vb_len v + length (concat rest) \<le> 2 ^ 40"
    using random_layout_length [OF assms(1)] m(3) length_vec_bytes [of v s] unfolding bytes [symmetric] ps by simp
  obtain v' s' where e: "vec_extend_all space_heap rest v s = (Returns (), v', s')" "moved (p @ q) v' s'"
    "vec_bytes v' s' = vec_bytes v s @ concat rest"
    using moved_extend_all [OF m(2) _ len] all4 unfolding ps by auto
  have all: "vec_bytes v' s' = layout_bytes fr" "\<forall>i<8. layout_bytes fr ! i = (p @ q) ! i"
    using e(3) m(3) all4 unfolding bytes [symmetric] ps by (auto simp: nth_append)
  let ?s = "zeroizing_drop zero_wipe space_heap v' s'"
  have "random_layout zero_wipe space_heap groups blank = (Returns (layout_bytes fr), ?s)"
    using m(1) e(1) all(1) by (simp add: random_layout_def layout_write_def vec_with_capacity_def pieces_def)
  moreover have "moved (p @ q) v' ?s"
    by (rule moved_drop [OF e(2)])
  ultimately show ?thesis
    using fr all(2) by (intro exI [of _ groups] exI [of _ ?s]) (auto simp: moved_def)
qed

text \<open>(C27) The temporary copies of the layout. On any allocator that hands out fresh memory, with a \<^verbatim>\<open>zeroize\<close> that does
  what it documents, the copies that the standard, interleaving and layered strategies make hold exactly the layout of
  the fragments they return, and after them every allocation is given back, memory of others is untouched, and every
  other byte is as it was or zero. The scattering strategy starts with an empty vector: on an allocator that never hands
  out an address twice, for every key of at least two bytes, the first eight bytes of the layout are in memory that was
  given back after the copy has been wiped and dropped.\<close>

theorem layout_copies:
  assumes "alloc_law hp owned" "zeroize_law z"
  shows "(standard_fragment gr sf key g = (Inr fr, g') \<longrightarrow>
      (\<exists>offsets. length offsets = chunk_count fr \<and> copy_wiped hp owned (layout_bytes fr) s (standard_layout z hp offsets s))) \<and>
    (interleaved_fragment gr iself key g = (Inr fr, g') \<longrightarrow>
      (\<exists>positions. length positions = length key \<and>
        copy_wiped hp owned (layout_bytes fr) s (interleaved_layout z hp (length key * pool_factor iself) positions s))) \<and>
    (layered_fragment gr lself key g = (Inr fr, g') \<longrightarrow>
      (\<exists>pick sub. pick < length (sub_strategies lself) \<and> copy_wiped hp owned (layout_bytes fr) s (layered_layout z hp pick sub s))) \<and>
    (random_fragment gr rf key g = (Inr fr, g') \<longrightarrow> 2 \<le> length key \<longrightarrow>
      (\<exists>groups s'. concat (map group_layout groups) = layout_bytes fr \<and>
        random_layout zero_wipe space_heap groups blank = (Returns (layout_bytes fr), s') \<and>
        (\<forall>i<8. mem_bytes s' i = layout_bytes fr ! i) \<and> {0..<8} \<inter> fst (snd (mem_world s')) = {}))"
  by (intro conjI impI standard_layout_wiped [OF assms] interleaved_layout_wiped [OF assms] layered_layout_wiped [OF assms]
      random_layout_residue)

theorem layout_copies_witness:
  "\<exists>fr g' groups s'. random_fragment counter_rng random_new [1, 2, 3, 4, 5, 6] 0 = (Inr fr, g') \<and>
     random_layout zero_wipe space_heap groups blank = (Returns (layout_bytes fr), s') \<and>
     (\<forall>i<8. mem_bytes s' i = layout_bytes fr ! i)"
proof -
  have "returns_ok (random_fragment counter_rng random_new [1, 2, 3, 4, 5, 6])"
    by (rule random_fragment_ok)
       (simp_all add: counter_rng_total random_new_def RANDOM_DEFAULT_MIN_CHUNK_def RANDOM_DEFAULT_MAX_CHUNK_def
         usize_max_def u32_max_def)
  then obtain fr g' where fr: "random_fragment counter_rng random_new [1, 2, 3, 4, 5, 6] 0 = (Inr fr, g')"
    by (rule returns_okE)
  have len: "2 \<le> length [1, 2, 3, 4, 5, 6 :: u8]"
    by simp
  note layout_copies [OF space_alloc_law zero_wipe_law, THEN conjunct2, THEN conjunct2, THEN conjunct2, rule_format, OF fr len]
  with fr show ?thesis
    by blast
qed

end
