(* ===== verification/Locking.thy ===== *)
theory Locking
  imports Threads
begin

text \<open>
  Which locks a piece of code takes, and threads that run such code. The skeleton of a function keeps its critical
  sections, its early returns, the places where it runs code of the application, and what is dropped on the way out;
  every other decision is a free choice. The threads run skeletons step by step on a table of lock owners; a thread
  that wants a lock somebody holds, also itself, waits. The locale \<open>lock_order\<close> is the contract under which such
  threads never deadlock: the classes of locks are ranked, and no code takes a lock while it holds one of the same or
  of a higher rank.
\<close>

section \<open>Skeletons\<close>

text \<open>
  \<open>Guard c p\<close> is a block that holds a lock of class \<open>c\<close> while it runs \<open>p\<close>, \<open>Finally p d\<close> runs \<open>p\<close> and then, however
  it ends, the destructor \<open>d\<close>; \<open>Leave\<close> is an early return from the enclosing \<open>Proc\<close>, \<open>Raise\<close> a panic. \<open>User\<close> is code
  of the application: any number of calls of the library, then it returns or panics.
\<close>

datatype 'c code =
    Skip
  | Leave
  | Raise
  | User
  | Guard 'c "'c code"
  | Seq "'c code" "'c code"
  | Choice "'c code" "'c code"
  | Repeat "'c code"
  | Finally "'c code" "'c code"
  | Proc "'c code"

definition steps :: "'c code list \<Rightarrow> 'c code" where
  "steps ps = foldr Seq ps Skip"

definition maybe :: "'c code \<Rightarrow> 'c code" where
  "maybe p = Choice Skip p"

text \<open>A lock is one of the instances of its class: every vault has its own locks, every region its own counter.\<close>

datatype 'c lock = Lock (lock_class: 'c) (lock_instance: nat)

type_synonym 'c owners = "'c lock \<Rightarrow> nat option"

text \<open>
  What a thread still has to do, innermost first. \<open>Want\<close> is a call of \<^verbatim>\<open>lock\<close> that has not returned, \<open>Unlock\<close> the drop of
  a guard, \<open>Drop\<close> another destructor, \<open>EndProc\<close> the end of a function, \<open>Unwind\<close> a return (\<open>False\<close>) or a panic (\<open>True\<close>) on
  its way out.
\<close>

datatype 'c frame =
    Do "'c code"
  | Want "'c lock" "'c code"
  | Unlock "'c lock"
  | Drop "'c code"
  | EndProc
  | Unwind bool

inductive lock_step :: "'c code list \<Rightarrow> nat \<Rightarrow> 'c owners \<times> 'c frame list \<Rightarrow> 'c owners \<times> 'c frame list \<Rightarrow> bool"
  for calls t where
  skip: "lock_step calls t (s, Do Skip # k) (s, k)"
| leave: "lock_step calls t (s, Do Leave # k) (s, Unwind False # k)"
| raise: "lock_step calls t (s, Do Raise # k) (s, Unwind True # k)"
| seq: "lock_step calls t (s, Do (Seq p q) # k) (s, Do p # Do q # k)"
| choice_left: "lock_step calls t (s, Do (Choice p q) # k) (s, Do p # k)"
| choice_right: "lock_step calls t (s, Do (Choice p q) # k) (s, Do q # k)"
| repeat_stop: "lock_step calls t (s, Do (Repeat p) # k) (s, k)"
| repeat_again: "lock_step calls t (s, Do (Repeat p) # k) (s, Do p # Do (Repeat p) # k)"
| enter_finally: "lock_step calls t (s, Do (Finally p d) # k) (s, Do p # Drop d # k)"
| enter_proc: "lock_step calls t (s, Do (Proc p) # k) (s, Do p # EndProc # k)"
| user_return: "lock_step calls t (s, Do User # k) (s, k)"
| user_call: "p \<in> set calls \<Longrightarrow> lock_step calls t (s, Do User # k) (s, Do p # Do User # k)"
| user_panic: "lock_step calls t (s, Do User # k) (s, Unwind True # k)"
| call_lock: "lock_step calls t (s, Do (Guard c p) # k) (s, Want (Lock c i) p # k)"
| acquire: "s l = None \<Longrightarrow> lock_step calls t (s, Want l p # k) (s(l := Some t), Do p # Unlock l # k)"
| release: "lock_step calls t (s, Unlock l # k) (s(l := None), k)"
| drop: "lock_step calls t (s, Drop d # k) (s, Do d # k)"
| end_proc: "lock_step calls t (s, EndProc # k) (s, k)"
| unwind_code: "lock_step calls t (s, Unwind b # Do p # k) (s, Unwind b # k)"
| unwind_caught: "lock_step calls t (s, Unwind True # Do User # k) (s, Do User # k)"
| unwind_unlock: "lock_step calls t (s, Unwind b # Unlock l # k) (s(l := None), Unwind b # k)"
| unwind_drop: "lock_step calls t (s, Unwind b # Drop d # k) (s, Do d # Unwind b # k)"
| unwind_returns: "lock_step calls t (s, Unwind False # EndProc # k) (s, k)"
| unwind_panics: "lock_step calls t (s, Unwind True # EndProc # k) (s, Unwind True # k)"
| unwind_nested: "lock_step calls t (s, Unwind b # Unwind c # k) (s, Unwind (b \<or> c) # k)"
| unwind_end: "lock_step calls t (s, [Unwind b]) (s, [])"

text \<open>All threads start in code of the application, with no lock taken.\<close>

definition all_free :: "'c owners \<Rightarrow> bool" where
  "all_free s \<longleftrightarrow> s = (\<lambda>l. None)"

abbreviation "code_run calls \<equiv> threads_run all_free [Do User] (lock_step calls)"

section \<open>Who holds what\<close>

fun held_locks :: "'c frame list \<Rightarrow> 'c lock list" where
  "held_locks [] = []"
| "held_locks (Unlock l # k) = l # held_locks k"
| "held_locks (f # k) = held_locks k"

definition owned_by :: "'c owners \<Rightarrow> nat \<Rightarrow> 'c lock set" where
  "owned_by s t = {l. s l = Some t}"

lemma owned_by_update [simp]:
  "owned_by (s(l := None)) t = owned_by s t - {l}"
  "owned_by (s(l := Some u)) t = (if u = t then insert l (owned_by s t) else owned_by s t - {l})"
  by (auto simp: owned_by_def split: if_splits)

lemma owned_by_iff: "l \<in> owned_by s t \<longleftrightarrow> s l = Some t"
  by (simp add: owned_by_def)

text \<open>Whatever the code does, the table names exactly the guards a thread has still to drop, each once.\<close>

definition owns :: "'c owners \<Rightarrow> nat \<Rightarrow> 'c frame list \<Rightarrow> bool" where
  "owns s t k \<longleftrightarrow> distinct (held_locks k) \<and> owned_by s t = set (held_locks k)"

lemma owns_free: "owns s t k \<Longrightarrow> s l = None \<Longrightarrow> l \<notin> set (held_locks k)"
  by (metis owns_def owned_by_iff option.distinct(1))

lemma owns_step:
  assumes "lock_step calls t (s, k) (s', k')" "owns s t k"
  shows "owns s' t k'"
  using assms(1)
proof cases
  case (acquire l p r)
  then show ?thesis
    using assms(2) owns_free [OF assms(2), of l] by (simp add: owns_def)
qed (use assms(2) in \<open>auto simp: owns_def\<close>)

lemma owns_interference:
  assumes "lock_step calls t (s, k) (s', k')" "owns s t k" "owns s u r" "u \<noteq> t"
  shows "owns s' u r"
proof -
  have other: "l \<notin> owned_by s u" if "s l = None \<or> s l = Some t" for l
    using that assms(4) by (auto simp: owned_by_def)
  have mine: "s l = Some t" if "l \<in> set (held_locks k)" for l
    using that assms(2) by (simp add: owns_def flip: owned_by_iff)
  from assms(1) have "owned_by s' u = owned_by s u"
    by cases (use assms(4) other mine in auto)
  then show ?thesis
    using assms(3) by (simp add: owns_def)
qed

lemma owns_idle: "all_free s \<Longrightarrow> owns s t [Do User]"
  by (simp add: owns_def owned_by_def all_free_def)

interpretation holders: thread_invariant all_free "[Do User]" "lock_step calls" "\<lambda>s. True" owns for calls
  by unfold_locales (blast intro: owns_idle owns_step owns_interference)+

text \<open>A thread that wants a lock it holds itself never gets it, whatever the others do.\<close>

lemma self_deadlock:
  assumes "threads_reach (lock_step calls) s p s' p'" "\<And>u. owns s u (p u)" "p t = Want l q # k" "s l = Some t"
  shows "p' t = p t \<and> s' l = Some t"
  using assms
proof (induction rule: threads_reach.induct)
  case (onward u s p s1 r s' p')
  have "u \<noteq> t"
    using onward.hyps(1) onward.prems(2,3) by (auto elim: lock_step.cases)
  then have owns: "owns s1 v ((p(u := r)) v)" for v
    using owns_step [OF onward.hyps(1) onward.prems(1)] owns_interference [OF onward.hyps(1) onward.prems(1) onward.prems(1)]
    by (cases "v = u") auto
  then have "s1 l = Some t"
    using onward.prems \<open>u \<noteq> t\<close> by (metis fun_upd_other owned_by_iff owns_def)
  then show ?case
    using onward.IH [OF owns] onward.prems \<open>u \<noteq> t\<close> by simp
qed simp

section \<open>Ranked locks\<close>

text \<open>Code that may run while every lock its thread holds has a rank below \<open>n\<close>. Code of the application calls the
  library, so it may only run without any lock.\<close>

primrec fits :: "('c \<Rightarrow> nat) \<Rightarrow> nat \<Rightarrow> 'c code \<Rightarrow> bool" where
  "fits rank n Skip \<longleftrightarrow> True"
| "fits rank n Leave \<longleftrightarrow> True"
| "fits rank n Raise \<longleftrightarrow> True"
| "fits rank n User \<longleftrightarrow> n = 0"
| "fits rank n (Guard c p) \<longleftrightarrow> n \<le> rank c \<and> fits rank (Suc (rank c)) p"
| "fits rank n (Seq p q) \<longleftrightarrow> fits rank n p \<and> fits rank n q"
| "fits rank n (Choice p q) \<longleftrightarrow> fits rank n p \<and> fits rank n q"
| "fits rank n (Repeat p) \<longleftrightarrow> fits rank n p"
| "fits rank n (Finally p d) \<longleftrightarrow> fits rank n p \<and> fits rank n d"
| "fits rank n (Proc p) \<longleftrightarrow> fits rank n p"

lemma fits_less: "fits rank n p \<Longrightarrow> m \<le> n \<Longrightarrow> fits rank m p"
  by (induction p) auto

lemma fits_steps [simp]: "fits rank n (steps ps) \<longleftrightarrow> (\<forall>p\<in>set ps. fits rank n p)"
  by (induction ps) (auto simp: steps_def)

lemma fits_maybe [simp]: "fits rank n (maybe p) \<longleftrightarrow> fits rank n p"
  by (simp add: maybe_def)

fun lock_level :: "('c \<Rightarrow> nat) \<Rightarrow> 'c frame list \<Rightarrow> nat" where
  "lock_level rank [] = 0"
| "lock_level rank (Unlock l # k) = Suc (rank (lock_class l))"
| "lock_level rank (f # k) = lock_level rank k"

fun frame_fits :: "('c \<Rightarrow> nat) \<Rightarrow> nat \<Rightarrow> 'c frame \<Rightarrow> bool" where
  "frame_fits rank n (Do p) \<longleftrightarrow> fits rank n p"
| "frame_fits rank n (Want l p) \<longleftrightarrow> n \<le> rank (lock_class l) \<and> fits rank (Suc (rank (lock_class l))) p"
| "frame_fits rank n (Unlock l) \<longleftrightarrow> n \<le> rank (lock_class l)"
| "frame_fits rank n (Drop d) \<longleftrightarrow> fits rank n d"
| "frame_fits rank n EndProc \<longleftrightarrow> True"
| "frame_fits rank n (Unwind b) \<longleftrightarrow> True"

fun stack_fits :: "('c \<Rightarrow> nat) \<Rightarrow> 'c frame list \<Rightarrow> bool" where
  "stack_fits rank [] \<longleftrightarrow> True"
| "stack_fits rank (f # k) \<longleftrightarrow>
     frame_fits rank (lock_level rank k) f \<and> (\<forall>l p. Want l p \<notin> set k) \<and> stack_fits rank k"

lemma held_below:
  "stack_fits rank k \<Longrightarrow> l \<in> set (held_locks k) \<Longrightarrow> rank (lock_class l) < lock_level rank k"
proof (induction k)
  case (Cons f k)
  then show ?case
    by (cases f) (auto dest: order_less_le_trans)
qed simp

lemma level_free: "lock_level rank k = 0 \<Longrightarrow> held_locks k = []"
proof (induction k)
  case (Cons f k)
  then show ?case
    by (cases f) auto
qed simp

text \<open>The work left if every choice is made in favour of the end: loops stop, code of the application returns.\<close>

primrec code_work :: "'c code \<Rightarrow> nat" where
  "code_work Skip = 1"
| "code_work Leave = 2"
| "code_work Raise = 2"
| "code_work User = 1"
| "code_work (Guard c p) = code_work p + 4"
| "code_work (Seq p q) = code_work p + code_work q + 1"
| "code_work (Choice p q) = code_work p + code_work q + 1"
| "code_work (Repeat p) = 1"
| "code_work (Finally p d) = code_work p + code_work d + 2"
| "code_work (Proc p) = code_work p + 2"

primrec frame_work :: "'c frame \<Rightarrow> nat" where
  "frame_work (Do p) = code_work p"
| "frame_work (Want l p) = code_work p + 2"
| "frame_work (Unlock l) = 1"
| "frame_work (Drop d) = code_work d + 1"
| "frame_work EndProc = 1"
| "frame_work (Unwind b) = 1"

definition work_left :: "'c frame list \<Rightarrow> nat" where
  "work_left k = sum_list (map frame_work k)"

lemma work_left_simps [simp]: "work_left [] = 0" "work_left (f # k) = frame_work f + work_left k"
  by (simp_all add: work_left_def)

lemma code_work_pos: "0 < code_work p"
  by (cases p) auto

text \<open>A thread that waits: its next lock has an owner.\<close>

fun waits_for :: "'c frame list \<Rightarrow> 'c lock option" where
  "waits_for (Want l p # k) = Some l"
| "waits_for k = None"

definition blocked :: "'c owners \<Rightarrow> 'c frame list \<Rightarrow> bool" where
  "blocked s k \<longleftrightarrow> (\<exists>l. waits_for k = Some l \<and> s l \<noteq> None)"

lemma advance:
  assumes "stack_fits rank k" "k \<noteq> []" "\<not> blocked s k"
  shows "\<exists>s' k'. lock_step calls t (s, k) (s', k') \<and> work_left k' < work_left k"
proof -
  obtain f r where k: "k = f # r"
    using assms(2) by (cases k) auto
  show ?thesis
  proof (cases f)
    case (Do p)
    then show ?thesis
      using k by (cases p) (fastforce intro: lock_step.intros)+
  next
    case (Want l p)
    then have "s l = None"
      using assms(3) k by (auto simp: blocked_def)
    then show ?thesis
      using k Want by (fastforce intro: lock_step.acquire)
  next
    case (Unwind b)
    then show ?thesis
      using k assms(1) code_work_pos
      by (cases r; cases "hd r"; cases b) (fastforce intro: lock_step.intros)+
  qed (use k in \<open>fastforce intro: lock_step.intros\<close>)+
qed

section \<open>The contract\<close>

locale lock_order =
  fixes rank :: "'c \<Rightarrow> nat" and top :: nat and calls :: "'c code list"
  assumes rank_top: "rank c < top"
    and calls_fit: "p \<in> set calls \<Longrightarrow> fits rank 0 p"
begin

lemma stack_fits_step:
  assumes "lock_step calls t (s, k) (s', k')" "stack_fits rank k"
  shows "stack_fits rank k'"
  using assms(1)
proof cases
  case (user_call p r)
  then show ?thesis
    using assms(2) calls_fit by simp
qed (use assms(2) in auto)

end

sublocale lock_order \<subseteq> ordered: thread_invariant all_free "[Do User]" "lock_step calls" "\<lambda>s. True"
    "\<lambda>s t k. owns s t k \<and> stack_fits rank k"
  by unfold_locales (auto intro: owns_idle owns_step owns_interference stack_fits_step)

context lock_order
begin

text \<open>The owner of the lock a thread waits for holds a lock below every lock it waits for itself.\<close>

lemma owner_rank:
  assumes "owns s u k" "stack_fits rank k" "s l = Some u" "waits_for k = Some m"
  shows "rank (lock_class l) < rank (lock_class m)"
proof -
  obtain p r where k: "k = Want m p # r"
    using assms(4) by (cases k rule: waits_for.cases) auto
  then have "l \<in> set (held_locks r)"
    using assms(1,3) by (simp add: owns_def flip: owned_by_iff)
  then show ?thesis
    using held_below [of rank r l] assms(2) k by simp
qed

text \<open>Along the chain of owners the ranks grow, so the chain ends in a thread that can go on.\<close>

lemma chain_ends:
  assumes "\<And>u. owns s u (p u) \<and> stack_fits rank (p u)" "waits_for (p t) = Some l" "s l = Some u"
  shows "\<exists>w. p w \<noteq> [] \<and> \<not> blocked s (p w) \<and> owned_by s w \<noteq> {}"
  using assms(2,3)
proof (induction "top - rank (lock_class l)" arbitrary: t l u rule: less_induct)
  case less
  show ?case
  proof (cases "blocked s (p u)")
    case False
    then show ?thesis
      using less.prems(2) assms(1) [of u] by (auto simp: owns_def owned_by_def intro!: exI [of _ u])
  next
    case True
    then obtain m w where m: "waits_for (p u) = Some m" "s m = Some w"
      by (auto simp: blocked_def)
    then have "rank (lock_class l) < rank (lock_class m)"
      using owner_rank assms(1) less.prems(2) by blast
    then have "top - rank (lock_class m) < top - rank (lock_class l)"
      using rank_top [of "lock_class m"] by linarith
    then show ?thesis
      using less.hyps m by blast
  qed
qed

lemma never_stuck:
  assumes "\<And>u. owns s u (p u) \<and> stack_fits rank (p u)" "p t \<noteq> []"
  shows "\<exists>w. (w = t \<or> owned_by s w \<noteq> {}) \<and>
    (\<exists>s' k'. lock_step calls w (s, p w) (s', k') \<and> work_left k' < work_left (p w))"
proof -
  obtain w where w: "w = t \<or> owned_by s w \<noteq> {}" "p w \<noteq> []" "\<not> blocked s (p w)"
  proof (cases "blocked s (p t)")
    case True
    then obtain l u where "waits_for (p t) = Some l" "s l = Some u"
      by (auto simp: blocked_def)
    from chain_ends [of s p, OF assms(1) this] show thesis
      using that by blast
  qed (use assms(2) in blast)
  then show ?thesis
    using advance [of rank "p w" s calls w] assms(1) [of w] by blast
qed

text \<open>
  From every state the threads of a finite set, if no other thread holds a lock, can all be run to their end, and
  then no lock is taken.
\<close>

lemma all_finish:
  assumes "finite A" "\<And>u. owns s u (p u) \<and> stack_fits rank (p u)" "\<And>u. u \<notin> A \<Longrightarrow> owned_by s u = {}"
  shows "\<exists>s' p'. threads_reach (lock_step calls) s p s' p' \<and> all_free s' \<and>
    (\<forall>u. p' u = (if u \<in> A then [] else p u))"
  using assms(2,3)
proof (induction "\<Sum>u\<in>A. work_left (p u)" arbitrary: s p rule: less_induct)
  case less
  show ?case
  proof (cases "\<exists>t\<in>A. p t \<noteq> []")
    case True
    then obtain w s1 q where w: "w \<in> A" "lock_step calls w (s, p w) (s1, q)" "work_left q < work_left (p w)"
      using never_stuck [OF less.prems(1)] less.prems(2) by blast
    let ?p = "p(w := q)"
    have ok: "owns s1 u (?p u) \<and> stack_fits rank (?p u)" for u
      using less.prems(1) [of u] less.prems(1) [of w] ordered.step_inv [of s w "p w" s1 q]
        ordered.interference [of s w "p w" u "p u" s1 q] w(2) by (cases "u = w") auto
    have none: "owned_by s1 u = {}" if "u \<notin> A" for u
      using ok [of u] less.prems(1) [of u] less.prems(2) that w(1) by (auto simp: owns_def)
    have "(\<Sum>u\<in>A. work_left (?p u)) < (\<Sum>u\<in>A. work_left (p u))"
      using assms(1) w by (auto intro!: sum_strict_mono_ex1)
    from less.hyps [OF this ok none] obtain s' p' where
      r: "threads_reach (lock_step calls) s1 ?p s' p'" "all_free s'" "\<forall>u. p' u = (if u \<in> A then [] else ?p u)"
      by blast
    then have "\<forall>u. p' u = (if u \<in> A then [] else p u)"
      using w(1) by auto
    then show ?thesis
      using threads_reach.onward [OF w(2) r(1)] r(2) by blast
  next
    case False
    have "owned_by s u = {}" for u
      using less.prems(1) [of u] less.prems(2) [of u] False by (cases "u \<in> A") (auto simp: owns_def)
    then have "all_free s"
      by (auto simp: all_free_def owned_by_def fun_eq_iff) (metis not_None_eq)
    then show ?thesis
      using False by (auto intro!: exI [of _ s] exI [of _ p] threads_reach.here)
  qed
qed

text \<open>What every run has: code of the application holds no lock; a thread that has not finished can go on, or somebody it
  waits for can; and all the threads that have started can be run to their end.\<close>

lemma user_holds_nothing:
  assumes "code_run calls s p" "p t = Do User # k"
  shows "owned_by s t = {}"
  using ordered.run_inv [OF assms(1)] assms(2) level_free [of rank k] by (auto simp: owns_def dest!: spec [of _ t])

lemma run_goes_on:
  assumes "code_run calls s p" "p t \<noteq> []"
  shows "\<exists>w s' k'. (w = t \<or> owned_by s w \<noteq> {}) \<and> lock_step calls w (s, p w) (s', k')"
  using never_stuck [of s p t] ordered.run_inv [OF assms(1)] assms(2) by blast

lemma run_can_end:
  assumes "code_run calls s p"
  shows "\<exists>s' p'. threads_reach (lock_step calls) s p s' p' \<and> all_free s' \<and>
    (\<forall>u. p' u = (if p u = [Do User] then [Do User] else []))"
proof -
  have "owned_by s u = {}" if "u \<notin> {u. p u \<noteq> [Do User]}" for u
    using user_holds_nothing [OF assms, of u] that by auto
  moreover have "owns s u (p u) \<and> stack_fits rank (p u)" for u
    using ordered.run_inv [OF assms] by blast
  ultimately obtain s' p' where
    "threads_reach (lock_step calls) s p s' p'" "all_free s'" "\<forall>u. p' u = (if u \<in> {u. p u \<noteq> [Do User]} then [] else p u)"
    using all_finish [OF threads_run_finite [OF assms], of s p] by blast
  then show ?thesis
    by (intro exI [of _ s'] exI [of _ p']) auto
qed

end

end
