(* ===== verification/Deadlock.thy ===== *)
theory Deadlock
  imports Locking
begin

text \<open>
  The locks of the library and the order in which its functions take them: the critical sections of
  \<^verbatim>\<open>src/src/vault/mod.rs\<close>, \<^verbatim>\<open>memory/\<close>, \<^verbatim>\<open>sync.rs\<close> and \<^verbatim>\<open>handle.rs\<close>, with the places where each function returns early, runs code of
  the application (callback, monitor, audit sink, codex, fragment strategy, clock) and drops what it owns. The values a
  decision depends on are left open, so every function has at least the behaviours of the code. What depends on
  the build or the target (the \<^verbatim>\<open>ArcSwap\<close> of \<^verbatim>\<open>std\<close> builds takes no lock, page protection, 64-bit atomics) is a choice too.
\<close>

section \<open>The locks\<close>

datatype lock_kind =
    Backoff_Lock
  | Writer_Lock
  | Key_Locks
  | Tracker_Lock
  | Readers_Lock
  | Cell_Lock
  | Pool_Lock
  | Pages_Lock
  | Ids_Lock
  | Clock_Lock

type_synonym vault_code = "lock_kind code"

section \<open>Memory\<close>

definition pool_alloc_locks :: vault_code where
  "pool_alloc_locks = Proc (steps [maybe Leave, Guard Pool_Lock (maybe Leave)])"

definition pool_free_locks :: vault_code where
  "pool_free_locks = Guard Pool_Lock Skip"

definition acquire_region_locks :: vault_code where
  "acquire_region_locks = Guard Pages_Lock Skip"

definition release_region_locks :: vault_code where
  "release_region_locks = Guard Pages_Lock Skip"

definition from_slice_locks :: vault_code where
  "from_slice_locks = Proc (steps [pool_alloc_locks, maybe Leave, maybe acquire_region_locks])"

definition locked_bytes_drop_locks :: vault_code where
  "locked_bytes_drop_locks = Choice Skip (Choice pool_free_locks (maybe release_region_locks))"

text \<open>The chunks and the layout of a storage; the region behind a protected one frees its mapping without a lock.\<close>

definition storage_drop_locks :: vault_code where
  "storage_drop_locks = Repeat locked_bytes_drop_locks"

text \<open>The owner of a reference gives it up; the last one frees what it refers to.\<close>

definition fragments_drop_locks :: vault_code where
  "fragments_drop_locks = maybe storage_drop_locks"

definition map_drop_locks :: vault_code where
  "map_drop_locks = maybe (Repeat fragments_drop_locks)"

definition guarded_open_locks :: vault_code where
  "guarded_open_locks = Guard Readers_Lock Skip"

definition region_access_drop_locks :: vault_code where
  "region_access_drop_locks = Guard Readers_Lock Skip"

text \<open>Code that runs with the storage open: not protected; the system refuses; open until the guard is dropped.\<close>

definition opened_locks :: "vault_code \<Rightarrow> vault_code" where
  "opened_locks p = Choice p (steps [guarded_open_locks, maybe Leave, Finally p region_access_drop_locks])"

definition secret_read_locks :: "vault_code \<Rightarrow> vault_code" where
  "secret_read_locks p = Proc (opened_locks p)"

definition into_protected_locks :: vault_code where
  "into_protected_locks = Proc (Finally (steps [maybe Leave, maybe Leave, maybe Leave]) fragments_drop_locks)"

definition cell_access_locks :: vault_code where
  "cell_access_locks = maybe (Guard Cell_Lock Skip)"

definition next_raw_locks :: vault_code where
  "next_raw_locks = maybe (Guard Ids_Lock Skip)"

definition ensure_len_locks :: vault_code where
  "ensure_len_locks = Proc (steps [maybe Leave, maybe acquire_region_locks, maybe release_region_locks])"

section \<open>The vault\<close>

text \<open>The built-in strategies only create and drop locked buffers; any other strategy is code of the application.\<close>

definition strategy_fragment_locks :: vault_code where
  "strategy_fragment_locks =
     Finally (Repeat (Choice User (Choice from_slice_locks locked_bytes_drop_locks))) (Repeat locked_bytes_drop_locks)"

definition fragment_pipeline_locks :: vault_code where
  "fragment_pipeline_locks =
     Proc (steps [Choice Leave (maybe (steps [secret_read_locks Skip, maybe Leave])), maybe User, strategy_fragment_locks])"

definition fragment_for_registry_locks :: vault_code where
  "fragment_for_registry_locks = Proc (steps [fragment_pipeline_locks, maybe Leave, maybe into_protected_locks])"

definition emit_audit_locks :: vault_code where
  "emit_audit_locks = Proc (steps [User, maybe Leave, User, User])"

definition clear_key_lockout_locks :: vault_code where
  "clear_key_lockout_locks = Proc (steps [Guard Key_Locks Skip, Guard Tracker_Lock Skip])"

definition clear_lockout_locks :: vault_code where
  "clear_lockout_locks = Proc (steps [Guard Key_Locks Skip, Guard Tracker_Lock Skip])"

text \<open>\<open>now\<close> is the reading of the clock, code that the application may have supplied.\<close>

definition record_failure_locks :: "vault_code \<Rightarrow> vault_code" where
  "record_failure_locks now = Proc (steps [now, Guard Tracker_Lock Skip])"

definition handle_failure_locks :: "vault_code \<Rightarrow> vault_code" where
  "handle_failure_locks now =
     Proc (steps [record_failure_locks now, User, maybe User, maybe (steps [maybe now, Guard Key_Locks Skip, User])])"

definition key_locked_slow_locks :: "vault_code \<Rightarrow> vault_code" where
  "key_locked_slow_locks now =
     Proc (Guard Key_Locks (steps [maybe Leave, now, maybe Leave, Guard Tracker_Lock Skip]))"

definition key_locked_locks :: "vault_code \<Rightarrow> vault_code" where
  "key_locked_locks now = Proc (steps [maybe Leave, key_locked_slow_locks now])"

definition is_key_locked_out_locks :: "vault_code \<Rightarrow> vault_code" where
  "is_key_locked_out_locks now = Proc (steps [cell_access_locks, Finally (maybe (key_locked_locks now)) map_drop_locks])"

definition snapshot_locks :: vault_code where
  "snapshot_locks = Proc (steps [cell_access_locks, map_drop_locks])"

definition vault_fragment_locks :: vault_code where
  "vault_fragment_locks =
     Proc (steps [maybe Leave, fragment_pipeline_locks, Finally (maybe emit_audit_locks) fragments_drop_locks])"

definition vault_defragment_locks :: vault_code where
  "vault_defragment_locks = Proc (steps [maybe Leave, User, maybe Leave, maybe User, emit_audit_locks])"

text \<open>The critical section of the writers: load the map, refuse or swap in the changed copy, drop the loaded one.\<close>

definition update_locks :: vault_code where
  "update_locks = Guard Writer_Lock
     (steps [cell_access_locks, Finally (steps [maybe Leave, fragments_drop_locks, cell_access_locks]) map_drop_locks])"

definition register_locks :: vault_code where
  "register_locks =
     Proc (steps [maybe Leave, User, snapshot_locks, maybe Leave, fragment_for_registry_locks, maybe Leave,
       Finally (steps [next_raw_locks, User, update_locks]) fragments_drop_locks, map_drop_locks, emit_audit_locks])"

definition unregister_locks :: vault_code where
  "unregister_locks = Proc (steps [update_locks, map_drop_locks, emit_audit_locks])"

definition rotate_locks :: "vault_code \<Rightarrow> vault_code" where
  "rotate_locks now =
     Proc (steps [maybe Leave,
       cell_access_locks, Finally (steps [maybe Leave, key_locked_locks now, maybe Leave]) map_drop_locks,
       fragment_for_registry_locks, maybe Leave,
       Finally (steps [User, update_locks]) fragments_drop_locks, map_drop_locks, emit_audit_locks])"

definition reassemble_locks :: vault_code where
  "reassemble_locks = Proc (steps [opened_locks (steps [User, maybe Leave]), maybe User])"

text \<open>The per-thread scratch buffer, whose borrow panics in a nested call, or the buffer of the call.\<close>

definition read_key_locks :: vault_code where
  "read_key_locks =
     Proc (Choice (steps [maybe Raise, ensure_len_locks, reassemble_locks, maybe Leave, User])
       (steps [maybe acquire_region_locks,
          Finally (steps [reassemble_locks, maybe Leave, User]) (maybe release_region_locks)]))"

definition with_key_locks :: "vault_code \<Rightarrow> vault_code" where
  "with_key_locks now =
     Proc (steps [maybe Leave, cell_access_locks,
       Finally (steps [maybe Leave, key_locked_locks now, maybe Leave, User]) map_drop_locks,
       Finally (steps [read_key_locks, maybe Leave, maybe emit_audit_locks]) fragments_drop_locks])"

definition unlock_with_master_locks :: "vault_code \<Rightarrow> vault_code" where
  "unlock_with_master_locks now =
     Proc (steps [maybe Leave,
       Guard Backoff_Lock (steps [now, maybe Leave, maybe Leave, secret_read_locks Skip, maybe Leave]),
       emit_audit_locks, Choice clear_lockout_locks (handle_failure_locks now)])"

text \<open>Building and dropping: the builder makes locked copies of its secrets and moves them into the vault; a codex with a
  table has a locked copy of it; the end of a thread releases its scratch buffer.\<close>

definition secret_new_locks :: vault_code where
  "secret_new_locks = Proc (steps [from_slice_locks, from_slice_locks, maybe into_protected_locks])"

definition scratch_release_locks :: vault_code where
  "scratch_release_locks = maybe release_region_locks"

definition vault_drop_locks :: vault_code where
  "vault_drop_locks = maybe (steps [map_drop_locks, Repeat (Choice User fragments_drop_locks)])"

definition std_clock_now_locks :: vault_code where
  "std_clock_now_locks = maybe (Guard Clock_Lock Skip)"

text \<open>What code of the application can call.\<close>

definition vault_calls :: "vault_code \<Rightarrow> vault_code list" where
  "vault_calls now =
     [is_key_locked_out_locks now, clear_key_lockout_locks, clear_lockout_locks, handle_failure_locks now, User,
      vault_fragment_locks, vault_defragment_locks, register_locks, unregister_locks, with_key_locks now,
      rotate_locks now, snapshot_locks, unlock_with_master_locks now, secret_new_locks, from_slice_locks,
      locked_bytes_drop_locks, fragments_drop_locks, strategy_fragment_locks, scratch_release_locks, vault_drop_locks]"

section \<open>The order\<close>

primrec lock_rank :: "lock_kind \<Rightarrow> nat" where
  "lock_rank Backoff_Lock = 0"
| "lock_rank Writer_Lock = 1"
| "lock_rank Key_Locks = 2"
| "lock_rank Tracker_Lock = 3"
| "lock_rank Readers_Lock = 4"
| "lock_rank Cell_Lock = 5"
| "lock_rank Pool_Lock = 6"
| "lock_rank Pages_Lock = 7"
| "lock_rank Ids_Lock = 8"
| "lock_rank Clock_Lock = 9"

lemma lock_rank_top: "lock_rank c < 10"
  by (cases c) simp_all

lemmas memory_locks_defs = pool_alloc_locks_def pool_free_locks_def acquire_region_locks_def release_region_locks_def
  from_slice_locks_def locked_bytes_drop_locks_def storage_drop_locks_def fragments_drop_locks_def map_drop_locks_def
  guarded_open_locks_def region_access_drop_locks_def opened_locks_def secret_read_locks_def into_protected_locks_def
  cell_access_locks_def next_raw_locks_def ensure_len_locks_def secret_new_locks_def scratch_release_locks_def

lemmas vault_locks_defs = strategy_fragment_locks_def fragment_pipeline_locks_def fragment_for_registry_locks_def
  emit_audit_locks_def clear_key_lockout_locks_def clear_lockout_locks_def record_failure_locks_def
  handle_failure_locks_def key_locked_slow_locks_def key_locked_locks_def is_key_locked_out_locks_def snapshot_locks_def
  vault_fragment_locks_def vault_defragment_locks_def update_locks_def register_locks_def unregister_locks_def
  rotate_locks_def reassemble_locks_def read_key_locks_def with_key_locks_def unlock_with_master_locks_def vault_drop_locks_def

text \<open>A clock that takes at most a lock of its own.\<close>

definition clock_apart :: "vault_code \<Rightarrow> bool" where
  "clock_apart now \<longleftrightarrow> fits lock_rank (lock_rank Clock_Lock) now"

lemma clock_apart_fits: "clock_apart now \<Longrightarrow> n \<le> 9 \<Longrightarrow> fits lock_rank n now"
  by (simp add: clock_apart_def fits_less)

lemma vault_calls_fit: "clock_apart now \<Longrightarrow> p \<in> set (vault_calls now) \<Longrightarrow> fits lock_rank 0 p"
  by (auto simp: vault_calls_def vault_locks_defs memory_locks_defs clock_apart_fits)

lemma vault_lock_order: "clock_apart now \<Longrightarrow> lock_order lock_rank 10 (vault_calls now)"
  by unfold_locales (auto simp: lock_rank_top intro: vault_calls_fit)

locale apart_clock =
  fixes now :: vault_code
  assumes apart: "clock_apart now"

sublocale apart_clock \<subseteq> lock_order lock_rank 10 "vault_calls now"
  by (rule vault_lock_order [OF apart])

text \<open>The clock of the standard library, and one that only reads a counter.\<close>

interpretation std_clock: apart_clock std_clock_now_locks
  by unfold_locales (simp add: clock_apart_def std_clock_now_locks_def)

interpretation counter_clock: apart_clock Skip
  by unfold_locales (simp add: clock_apart_def)

section \<open>Properties\<close>

lemmas run_one_step = converse_rtranclp_into_rtranclp [where r = "lock_step calls t" for calls t]
lemmas run_user_call = run_one_step [OF lock_step.user_call]
lemmas run_skip = run_one_step [OF lock_step.skip]
lemmas run_seq = run_one_step [OF lock_step.seq]
lemmas run_left = run_one_step [OF lock_step.choice_left]
lemmas run_right = run_one_step [OF lock_step.choice_right]
lemmas run_finally = run_one_step [OF lock_step.enter_finally]
lemmas run_proc = run_one_step [OF lock_step.enter_proc]
lemmas run_lock = run_one_step [OF lock_step.call_lock]
lemmas run_acquire = run_one_step [OF lock_step.acquire]

text \<open>One thread inside \<^verbatim>\<open>clear_lockout\<close>, another waiting to enter.\<close>

lemma two_clear:
  fixes now :: vault_code
  defines "k \<equiv> [Do (steps [Guard Tracker_Lock Skip]), EndProc, Do User]"
  shows "code_run (vault_calls now) ((\<lambda>l. None)(Lock Key_Locks 0 := Some 0))
    ((\<lambda>t. [Do User])(0 := Do Skip # Unlock (Lock Key_Locks 0) # k, 1 := Want (Lock Key_Locks 0) Skip # k))"
proof -
  let ?step = "lock_step (vault_calls now)"
  have call: "(?step t)\<^sup>*\<^sup>* (s, [Do User]) (s, Want (Lock Key_Locks 0) Skip # k)" for s t
    unfolding k_def
    by (rule run_user_call [of clear_lockout_locks])
       (auto simp: vault_calls_def clear_lockout_locks_def steps_def intro!: run_proc run_seq run_lock)
  have idle: "code_run (vault_calls now) (\<lambda>l. None) (\<lambda>t. [Do User])"
    by (rule threads_run.first) (simp add: all_free_def)
  have "(?step 0)\<^sup>*\<^sup>* (\<lambda>l. None, [Do User])
      ((\<lambda>l. None)(Lock Key_Locks 0 := Some 0), Do Skip # Unlock (Lock Key_Locks 0) # k)"
    by (rule rtranclp.rtrancl_into_rtrancl [OF call]) (rule lock_step.acquire, simp)
  from threads_run_solo [OF this idle] have run: "code_run (vault_calls now) ((\<lambda>l. None)(Lock Key_Locks 0 := Some 0))
      ((\<lambda>t. [Do User])(0 := Do Skip # Unlock (Lock Key_Locks 0) # k))" .
  show ?thesis
    by (rule threads_run_solo [OF _ run, of 1]) (simp add: call)
qed

text \<open>The clock is read under locks: in \<^verbatim>\<open>key_locked_slow\<close> under that of the per-key lockouts, in \<^verbatim>\<open>unlock_with_master\<close> under
  that of the backoff. A clock that calls the vault from \<^verbatim>\<open>now\<close> can leave its thread waiting for itself for ever.\<close>

lemma clock_that_calls_back:
  "\<exists>s p. code_run (vault_calls User) s p \<and> p 0 \<noteq> [] \<and>
    (\<forall>s' p'. threads_reach (lock_step (vault_calls User)) s p s' p' \<longrightarrow> p' 0 = p 0)"
proof -
  let ?step = "lock_step (vault_calls User) 0" and ?free = "\<lambda>l::lock_kind lock. None::nat option" and ?l = "Lock Key_Locks 0"
  have "\<exists>k. ?step\<^sup>*\<^sup>* (?free, [Do User]) (?free(?l := Some 0), Do User # k)"
    by (intro exI, rule run_user_call [of "is_key_locked_out_locks User"])
       (simp add: vault_calls_def,
        unfold is_key_locked_out_locks_def key_locked_locks_def key_locked_slow_locks_def cell_access_locks_def
          steps_def maybe_def foldr.simps comp_def id_def,
        rule run_proc, rule run_seq, rule run_left, rule run_skip, rule run_seq, rule run_finally, rule run_right,
        rule run_proc, rule run_seq, rule run_left, rule run_skip, rule run_seq, rule run_proc, rule run_lock,
        rule run_acquire, simp, rule run_seq, rule run_left, rule run_skip, rule run_seq, rule rtranclp.rtrancl_refl)
  then obtain k where k: "?step\<^sup>*\<^sup>* (?free, [Do User]) (?free(?l := Some 0), Do User # k)" ..
  have "\<exists>r. ?step\<^sup>*\<^sup>* (?free(?l := Some 0), Do User # k) (?free(?l := Some 0), Want ?l Skip # r)"
    by (intro exI, rule run_user_call [of clear_lockout_locks])
       (simp add: vault_calls_def, unfold clear_lockout_locks_def steps_def foldr.simps comp_def,
        rule run_proc, rule run_seq, rule run_lock, rule rtranclp.rtrancl_refl)
  then obtain r where r: "?step\<^sup>*\<^sup>* (?free(?l := Some 0), Do User # k) (?free(?l := Some 0), Want ?l Skip # r)" ..
  have run: "code_run (vault_calls User) (?free(?l := Some 0)) ((\<lambda>t. [Do User])(0 := Want ?l Skip # r))"
    using rtranclp_trans [OF k r] by (intro threads_run_solo [of _ 0 ?free]) (auto simp: all_free_def intro: threads_run.first)
  have "p' 0 = Want ?l Skip # r"
    if "threads_reach (lock_step (vault_calls User)) (?free(?l := Some 0)) ((\<lambda>t. [Do User])(0 := Want ?l Skip # r)) s' p'" for s' p'
    using self_deadlock [OF that, of 0 ?l] holders.run_inv [OF run] by simp
  then show ?thesis
    using run by (intro exI [of _ "?free(?l := Some 0)"] exI [of _ "(\<lambda>t. [Do User])(0 := Want ?l Skip # r)"]) simp
qed

text \<open>(C18) No deadlock. Any number of threads call any functions of the library, in any order and on any number of
  vaults; callbacks, monitors, audit sinks, codices and fragment strategies call back into the library as they
  like, panic, and catch panics; the clock takes at most a lock of its own. Then in every state that such threads reach:
  whenever code of the application runs, its thread holds no lock of the library; for a thread that has not finished, it
  or some thread that holds a lock can go on; and the threads that have started can all be run to their end, after
  which every lock is free. The clock is the exception: it is read under locks, and one that calls the vault from \<^verbatim>\<open>now\<close> can
  make its thread wait for itself for ever.\<close>

theorem no_deadlock:
  assumes "clock_apart now" "code_run (vault_calls now) s p"
  shows "(\<forall>t k. p t = Do User # k \<longrightarrow> owned_by s t = {}) \<and>
    (\<forall>t. p t \<noteq> [] \<longrightarrow>
      (\<exists>w s' k. (w = t \<or> owned_by s w \<noteq> {}) \<and> lock_step (vault_calls now) w (s, p w) (s', k))) \<and>
    (\<exists>s' p'. threads_reach (lock_step (vault_calls now)) s p s' p' \<and> all_free s' \<and>
      (\<forall>t. p' t = (if p t = [Do User] then [Do User] else []))) \<and>
    (\<exists>s p. code_run (vault_calls User) s p \<and> p 0 \<noteq> [] \<and>
      (\<forall>s' p'. threads_reach (lock_step (vault_calls User)) s p s' p' \<longrightarrow> p' 0 = p 0))"
proof -
  note order = vault_lock_order [OF assms(1)]
  show ?thesis
    using lock_order.user_holds_nothing [OF order assms(2)] lock_order.run_goes_on [OF order assms(2)]
      lock_order.run_can_end [OF order assms(2)] clock_that_calls_back by (intro conjI allI impI) blast+
qed

text \<open>A thread waits in \<^verbatim>\<open>clear_lockout\<close> for the other; both can be run to the end.\<close>

theorem no_deadlock_witness:
  "\<exists>s p. code_run (vault_calls std_clock_now_locks) s p \<and> blocked s (p 1) \<and>
    (\<exists>s' p'. threads_reach (lock_step (vault_calls std_clock_now_locks)) s p s' p' \<and> all_free s' \<and> p' 0 = [] \<and> p' 1 = [])"
proof -
  let ?k = "[Do (steps [Guard Tracker_Lock Skip]), EndProc, Do User]" and ?l = "Lock Key_Locks 0"
  let ?p = "(\<lambda>t. [Do User])(0 := Do Skip # Unlock ?l # ?k, 1 := Want ?l Skip # ?k)"
  let ?s = "(\<lambda>l. None)(?l := Some 0) :: lock_kind owners"
  obtain s' p' where reach: "threads_reach (lock_step (vault_calls std_clock_now_locks)) ?s ?p s' p'" "all_free s'"
      "\<And>t. p' t = (if ?p t = [Do User] then [Do User] else [])"
    using no_deadlock [OF std_clock.apart two_clear] by blast
  moreover have "blocked ?s (?p 1)"
    by (simp add: blocked_def)
  moreover have "p' 0 = []" "p' 1 = []"
    using reach(3) [of 0] reach(3) [of 1] by simp_all
  ultimately show ?thesis
    using two_clear [of std_clock_now_locks] by blast
qed

end
