(* ===== verification/Spec2Isabelle.thy ===== *)
theory Spec2Isabelle
  imports Trail Scratch Concurrency Fetch Tee Sync Sharing Platform Redaction Guessing Tracking Ranges Residue Deadlock
begin

text \<open>
  A verification library for the crate \<^verbatim>\<open>key-vault\<close> (\<^verbatim>\<open>src/src/\<close>): an in-process store for
  secret keys that keeps each key split into shuffled, optionally encoded, optionally
  page-protected fragments and hands the plain bytes out only inside a callback.

  \<^bold>\<open>Parts and theories.\<close> One theory per part of the crate, each naming the functions it models.

  \<^item> \<open>Prelude\<close>: machine integers, durations, results. A \<open>result\<close> is a sum of a fault (an
    \<^verbatim>\<open>Error\<close>, a panic, a memory fault, a loop that did not end) and a value; a computation on a
    world is a function to a result and the next world (\<open>rand\<close>, with \<open>rbind\<close>, \<open>rret\<close>). Allocating more
    than \<^verbatim>\<open>isize::MAX\<close> bytes panics, as a \<^verbatim>\<open>Vec\<close> does (\<open>zero_vec\<close>).
  \<^item> \<open>Rng\<close>: \<^verbatim>\<open>rng.rs\<close>, \<^verbatim>\<open>fragment/util.rs\<close>. \<^verbatim>\<open>getrandom\<close> is a parameter.
  \<^item> \<open>Os\<close>, \<open>Guarded\<close>: the memory layer. The backend is a parameter record, which \<open>Platform\<close> fills
    with \<^verbatim>\<open>memory/unix.rs\<close> over \<^verbatim>\<open>libc\<close> and \<^verbatim>\<open>memory/windows.rs\<close> over Win32, parameters in turn;
    \<^verbatim>\<open>memory/guarded.rs\<close> is modelled with the protection and the bytes of each region, and as a
    step relation over any interleaving of guards.
  \<^item> \<open>Paging\<close>, \<open>Buffers\<close>, \<open>Scratch\<close>: the page reference counts, the size-class pool, \<^verbatim>\<open>LockedBytes\<close>
    and the scratch buffers of \<^verbatim>\<open>memory/mod.rs\<close>, \<^verbatim>\<open>memory/pool.rs\<close> and \<^verbatim>\<open>vault/mod.rs\<close> on a memory of
    bytes, as state machines. The allocator is a parameter; \<open>lock_law\<close> and \<open>space_law\<close> say what
    \<^verbatim>\<open>mlock\<close>, \<^verbatim>\<open>mmap\<close> and the allocator promise. Unlocking may fail, as its result is ignored;
    \<open>unlock_frees\<close>, where it is assumed, says that it does not. The other theories see a buffer as the list of
    its bytes, which is what \<open>locked_bytes_hold\<close> and \<open>scratch_refines\<close> justify.
  \<^item> \<open>Fragments\<close>: \<^verbatim>\<open>fragment/mod.rs\<close>. The trait \<^verbatim>\<open>FragmentStrategy\<close> is the locale
    \<open>fragment_strategy\<close>; \<open>Standard\<close>, \<open>Random_Fragmenter\<close>, \<open>Interleaved\<close> and \<open>Layered\<close> model the
    four strategies and interpret it.
  \<^item> \<open>Decoys\<close> (\<^verbatim>\<open>decoy/\<close>, \<^verbatim>\<open>normalize.rs\<close>) and \<open>Codices\<close> (\<^verbatim>\<open>codex/\<close>), with the locales
    \<open>decoy_strategy\<close>, \<open>codex_law\<close> and \<open>involution\<close>. BLAKE3 is a parameter.
  \<^item> \<open>Handle\<close> (\<^verbatim>\<open>handle.rs\<close>, \<^verbatim>\<open>metadata.rs\<close>) and \<open>Hooks\<close> (\<^verbatim>\<open>monitor/\<close>, \<^verbatim>\<open>audit/\<close>).
  \<^item> \<open>Vault_State\<close>, \<open>Lockout\<close>, \<open>Vault\<close>, \<open>Master\<close>, \<open>Builder\<close>: \<^verbatim>\<open>vault/mod.rs\<close>. The record
    \<open>vault\<close> holds what \<^verbatim>\<open>build\<close> fixes, \<open>vstate\<close> everything that changes (the registry map, the
    failure tracker, both lockouts, the lock counter as a 64-bit word, the backoff, the thread's
    scratch buffer with its borrow flag, the events handed to the sinks, the world).
  \<^item> \<open>Registry\<close>, \<open>Refinement\<close>, \<open>Reachable\<close>: the specification of the registry (a map from ids
    to name, plain bytes and metadata), the invariant \<open>store_inv\<close> that links the registry and the
    region table to it, one refinement lemma per operation, and \<open>reach\<close>, the states that
    sequences of public operations lead to. \<open>Service\<close> and \<open>Trail\<close> hold the facts about the whole
    vault that the properties below share, and an example vault for the witnesses.

  \<^item> \<open>Concurrency\<close>: several threads on one vault. The registry operations cut into their atomic steps
    (early check, work, writer lock, load, swap, release), and the per-key locks with their atomic
    counter, as step relations over any interleaving. Outside the theories of this item one operation runs at a time.
    \<open>Sharing\<close>: readers and writers on the reference-counted maps and key storages. \<open>Sync\<close>:
    \<^verbatim>\<open>sync.rs\<close>, the spin lock and the replaceable pointer of builds without the standard library.
    \<open>Guessing\<close>: parallel master unlocks on the backoff. \<open>Tracking\<close>: parallel failure reports on the tracker and the
    vault-wide flag. These two, the registry, the spin lock and the lock order below run on \<open>Threads\<close>, whose locale \<open>thread_invariant\<close> carries an invariant over every
    interleaving.
  \<^item> \<open>Locking\<close>, \<open>Deadlock\<close>: the order in which the functions of the crate take their locks. Every function appears as a
    skeleton of critical sections, early returns, destructors and calls of the application's hooks; the locale
    \<open>lock_order\<close> says what a ranking of the locks gives for any threads, and \<open>lock_rank\<close> is the ranking of this crate.
  \<^item> \<open>Ranges\<close>: what the natural numbers of the model that stand for \<^verbatim>\<open>u32\<close> and \<^verbatim>\<open>Duration\<close> can become.
  \<^item> \<open>Fetch\<close>: \<^verbatim>\<open>fetcher/\<close>, with the trait \<^verbatim>\<open>KeyFetch\<close> as the locale \<open>key_fetch\<close>. The file system, the
    process environment and the \<^verbatim>\<open>keyring\<close> crate are parameters. \<open>Tee\<close>: \<^verbatim>\<open>tee/\<close>, with \<^verbatim>\<open>CPUID\<close> a parameter.
  \<^item> \<open>Wiping\<close>, \<open>Residue\<close>: growing buffers on the memory of \<open>Buffers\<close>, with the \<^verbatim>\<open>zeroize\<close> crate a parameter: \<^verbatim>\<open>RawKey\<close> and
    the reading loop of the file fetcher; the temporary layouts of the strategies.
  \<^item> \<open>Redaction\<close>: the \<^verbatim>\<open>Debug\<close> implementations.

  \<^bold>\<open>What is proved.\<close> Keys come back exactly as registered or rotated, through every strategy,
  lawful codex and protection setting, in every reachable state; the lookups answer what the
  specification says; registration succeeds, page-protected or not, where the environment does; failing updates change nothing; the scratch buffer is zero after every
  read, however it ends; the two sliding-window detectors agree with detectors that remember
  the whole history, for locks that last and for locks that expire; the lock counter is exact, so the fast path is sound; the master unlock and
  its backoff; one audit event per operation. Per component: round trips of the four
  strategies, of the codices, totality of fragmentation and robustness of reassembly on corrupt
  input, with the one length at which \<^verbatim>\<open>defragment\<close> panics, permutation of the shuffle, uniqueness of ids, safety of the guarded regions, exact page
  counts, buffers that keep their bytes and leave zeros behind. Across threads: the registry is
  linearizable, also the pointer it is kept in; storage is freed by the last reference and never under a
  reader; parallel guesses at the master credential wait for one another's backoff; reports that reach the tracker late
  miscount by no more than their delay; the lock counter is sound except in runs with one race, where \<^verbatim>\<open>clear_lockout\<close> meets an unfinished \<^verbatim>\<open>clear_key_lockout\<close>; and no threads deadlock, whatever the
  hooks other than the clock do, because none of them runs under a lock. The counts and times of a
  reachable vault, and those its monitor is told, stay in the range of their Rust types. The
  backends, over system functions that may fail, meet the laws the memory layer relies on and so keep its promises. Fetchers: what the permission
  checks establish, that the whole file is read, that errors carry no secret, that neither the reading nor the
  dropped key leaves bytes in freed memory; the temporary layouts are wiped too, except in the scattering strategy. \<^verbatim>\<open>Debug\<close> output
  does not depend on keys.

  \<^bold>\<open>Loops and fuel.\<close> The two sampling loops take fuel (the key length): each pass removes at
  least one byte, so the fuel is enough, and \<open>standard_fragment_total\<close> and
  \<open>random_fragment_ok\<close> prove that the result is never the diverging one. The page loops take one
  unit per page of the buffer; \<open>page_table_exact\<close> shows that they end. The reading loop of the file
  fetcher, on lists and on memory, takes any fuel; \<open>read_wiping_all\<close> says how much is enough, and
  \<open>file_key_leaves_no_trace\<close> that the two end alike. All other
  recursions are structural.

  \<^bold>\<open>Not modelled.\<close> The test code. Memory orderings: the steps of the concurrent theories interleave sequentially consistently.
  Fairness of the locks: \<open>no_deadlock\<close> shows that all threads can finish, not that a scheduler lets them.
  The wiping of dropped temporaries by the \<^verbatim>\<open>zeroize\<close> crate outside the buffers modelled in \<open>Buffers\<close>, \<open>Wiping\<close> and \<open>Residue\<close>.
\<close>

section \<open>Keys come back\<close>

text \<open>(C1) The main guarantee: in every state a vault can get into by any sequence of its operations
  (successful or not), \<^verbatim>\<open>with_key\<close> on the handle of a live key that is not locked out runs its callback on
  exactly the bytes the key was last registered or rotated with (after normalization), whatever strategy,
  codex, decoys and page protection are configured, and returns what the callback returns.\<close>

theorem with_key_reads_registered:
  assumes "vault_ok v" "os_ok E v" "reach E v k s A" "A (handle_id h) = Some (n, bs, md)"
    and "\<not> is_locked_out s" "\<not> fst (key_locked E n s)"
  shows "fst (with_key E v h (pure_cb g) s) = (case g bs of Some a \<Rightarrow> Inr a | None \<Rightarrow> Inl Panic)"
  using with_key_result [OF assms(1-4)] assms(5,6) by (simp add: is_locked_out_def)

theorem with_key_reads_registered_witness:
  "\<exists>s. register demo_env demo_vault ''api'' [1, 2, 3] demo_state = (Inr \<lparr>handle_id = 1\<rparr>, s) \<and>
     fst (with_key demo_env demo_vault \<lparr>handle_id = 1\<rparr> (pure_cb (\<lambda>bs. Some (rev bs))) s) = Inr [3, 2, 1]"
proof -
  obtain k s md where d: "register demo_env demo_vault ''api'' [1, 2, 3] demo_state = (Inr \<lparr>handle_id = 1\<rparr>, s)"
    "reach demo_env demo_vault k s [1 \<mapsto> (''api'', [1, 2, 3], md)]" "\<not> locked_out s" "key_locks_active s = 0"
    by (rule demo_session)
  have "fst (with_key demo_env demo_vault \<lparr>handle_id = 1\<rparr> (pure_cb (\<lambda>bs. Some (rev bs))) s) =
      (case Some (rev [1, 2, 3]) of Some a \<Rightarrow> Inr a | None \<Rightarrow> Inl Panic)"
    by (rule with_key_reads_registered [OF demo_vault_ok _ d(2), of _ "''api''" "[1, 2, 3]" md])
       (use d in \<open>simp_all add: is_locked_out_def key_locked_def\<close>)
  with d(1) show ?thesis by auto
qed

text \<open>(C2) The registry refines its specification: in every reachable state the ids are distinct, no two live
  keys have one name, and \<^verbatim>\<open>contains\<close>, \<^verbatim>\<open>metadata\<close>, \<^verbatim>\<open>handle_for_name\<close> and \<^verbatim>\<open>key_count\<close> answer exactly
  what the specification map says.\<close>

theorem registry_refines_spec:
  assumes "vault_ok v" "reach E v k s A"
  shows "distinct (map fst (keys s)) \<and> distinct (map (\<lambda>(i, e). ke_name e) (keys s)) \<and>
    (\<forall>h. (contains h s \<longleftrightarrow> A (handle_id h) \<noteq> None) \<and>
         metadata h s = map_option (\<lambda>(n, bs, md). md) (A (handle_id h))) \<and>
    (\<forall>n h. handle_for_name n s = Some h \<longleftrightarrow> (\<exists>bs md. A (handle_id h) = Some (n, bs, md))) \<and>
    key_count s = card (dom A)"
proof -
  have i: "store_inv v k A s"
    using reach_inv [OF assms] by blast
  have "distinct (map fst (keys s))" "distinct (map (\<lambda>(i, e). ke_name e) (keys s))"
    using i by (simp_all add: store_inv_def names_inv_def)
  then show ?thesis
    using contains_spec [OF i] metadata_inv [OF i] handle_for_name_spec [OF i] key_count_spec [OF i] by blast
qed

theorem registry_refines_spec_witness:
  "\<exists>s. snd (register demo_env demo_vault ''api'' [1, 2, 3] demo_state) = s \<and> key_count s = 1 \<and>
     handle_for_name ''api'' s = Some \<lparr>handle_id = 1\<rparr> \<and> contains \<lparr>handle_id = 1\<rparr> s"
proof -
  obtain k s md where d: "register demo_env demo_vault ''api'' [1, 2, 3] demo_state = (Inr \<lparr>handle_id = 1\<rparr>, s)"
    "reach demo_env demo_vault k s [1 \<mapsto> (''api'', [1, 2, 3], md)]"
    by (rule demo_session)
  from registry_refines_spec [OF demo_vault_ok d(2)] d(1) show ?thesis
    by simp
qed



text \<open>(C29) What \<^verbatim>\<open>build\<close> returns meets the contract everything else rests on: whatever the options, with the
  strategies of this crate (also those chosen by Cargo features) and a lawful codex, the vault is well formed
  and its first state is reachable, holding no key; the secret of a derived normalization key is the derived
  key.\<close>

theorem built_vault_reachable:
  assumes "finish E b ic w = (v, s)" "fragmenter_choice_ok (b_fragmenter b)"
    and "\<And>c. b_codex b = Some c \<Longrightarrow> codex_law (encode c) (decode c)"
  shows "vault_ok v \<and> (\<exists>k. reach E v k s Map.empty \<and>
    (\<forall>d st. b_normalization_key b = NKDerived d \<longrightarrow> v_normalizer v = NormKeyed st \<longrightarrow> normalization_key k = d))"
  using finish_vault_ok [OF assms] finish_reach [OF assms(1)] by blast

theorem built_vault_reachable_witness:
  "vault_ok demo_vault \<and> (\<exists>k. reach demo_env demo_vault k demo_state Map.empty)"
  using built_vault_reachable [of demo_env demo_builder 1 0 demo_vault demo_state]
  by (auto simp: demo_vault_def demo_state_def demo_builder_def fragmenter_choice_ok_def with_failure_threshold_def
      with_key_lockout_def with_codex_def with_audit_sink_def normalize_with_blake3_def builder_new_def
      demo_codex_def codex_law_def)

section \<open>The scratch buffer\<close>

text \<open>(C7) No key bytes stay in the thread's scratch buffer: however \<^verbatim>\<open>with_key\<close> ends in a reachable state, for
  any callback (one that returns, unwinds, or calls the vault again), afterwards the buffer holds only zeros
  and is no longer borrowed.\<close>

theorem scratch_wiped:
  assumes "vault_ok v" "reach E v k s A" "with_key E v h f s = (r, s')"
  shows "set (scratch s') \<subseteq> {0} \<and> \<not> scratch_borrowed s'"
proof -
  have a: "aux_inv s" using reach_inv [OF assms(1,2)] by blast
  have f: "fragmenter_ok (v_fragmenter v)" using assms(1) by (simp add: vault_ok_def)
  show ?thesis
  proof (cases "locked_out s \<or> kv_get (handle_id h) (keys s) = None \<or>
         (\<exists>e. kv_get (handle_id h) (keys s) = Some e \<and> fst (key_locked E (ke_name e) s))")
    case True
    from with_key_refused [OF assms(3) this] a show ?thesis
      by (auto simp: aux_inv_def)
  next
    case False
    then obtain e s1 where e: "kv_get (handle_id h) (keys s) = Some e" "key_locked E (ke_name e) s = (False, s1)"
      "\<not> locked_out s"
      by (metis (full_types) option.exhaust prod.collapse)
    have "aux_inv s1"
      using aux_inv_key_locked [OF a, of E "ke_name e"] e(2) by simp
    from read_key_scratch [OF f this] show ?thesis
      using assms(3) unfolding with_key_entry [OF e(1,3,2)]
      by (fastforce simp: rbind_def split: prod.splits sum.splits if_splits)
  qed
qed

theorem scratch_wiped_witness:
  "\<exists>s. register demo_env demo_vault ''api'' [1, 2, 3] demo_state = (Inr \<lparr>handle_id = 1\<rparr>, s) \<and>
     set (scratch (snd (with_key demo_env demo_vault \<lparr>handle_id = 1\<rparr> (\<lambda>bs s. (None :: unit option, s)) s))) \<subseteq> {0}"
proof -
  obtain k s md where d: "register demo_env demo_vault ''api'' [1, 2, 3] demo_state = (Inr \<lparr>handle_id = 1\<rparr>, s)"
    "reach demo_env demo_vault k s [1 \<mapsto> (''api'', [1, 2, 3], md)]"
    by (rule demo_session)
  from scratch_wiped [OF demo_vault_ok d(2), of "\<lparr>handle_id = 1\<rparr>" "\<lambda>bs s. (None :: unit option, s)"] d(1)
  show ?thesis by (metis prod.collapse)
qed

text \<open>(C32) A callback must not use the vault's keys again: \<^verbatim>\<open>with_key\<close> called for a live, unlocked key from inside
  the callback of another \<^verbatim>\<open>with_key\<close> panics on the second borrow of the thread's scratch buffer, and the outer
  call unwinds with it (after wiping the buffer).\<close>

theorem nested_with_key_panics:
  assumes "vault_ok v" "os_ok E v" "reach E v k s A" "\<not> is_locked_out s"
    and "A (handle_id h) = Some (n, bs, md)" "A (handle_id h2) = Some (n2, bs2, md2)"
    and "key_locks s n = None" "key_locks s n2 = None"
  shows "fst (with_key E v h (reading_again E v h2 f) s) = Inl Panic"
proof -
  note i = reach_inv [OF assms(1,3)]
  have free: "key_locked E m t = (False, t)" if "key_locks t m = None" for m t
    using that by (simp add: key_locked_def key_locked_slow_def)
  obtain w rs tail where "with_key E v h (reading_again E v h2 f) s =
      (case reading_again E v h2 f bs
         (s\<lparr>world := w, regions_tab := rs, scratch := bs @ tail, scratch_borrowed := True\<rparr>) of
         (None, s') \<Rightarrow> (Inl Panic, end_read (length bs) (bs @ tail) s')
       | (Some a, s') \<Rightarrow> (Inr a, let s2 = end_read (length bs) (bs @ tail) s' in
                             if v_audit_no_op v then s2 else emit_audit E v n Read [] s2))"
    using with_key_calls [OF assms(1,2) conjunct1 [OF i] assms(5) _ free [OF assms(7)], of "reading_again E v h2 f"]
      i assms(4)
    by (auto simp: is_locked_out_def aux_inv_def)
  moreover obtain e2 where e2: "kv_get (handle_id h2) (keys s) = Some e2" "ke_name e2 = n2"
    using store_inv_get [OF conjunct1 [OF i] assms(6)] by metis
  moreover have "with_key E v h2 f t = (Inl Panic, t)"
    if "t = s\<lparr>world := w, regions_tab := rs, scratch := bs @ tail, scratch_borrowed := True\<rparr>" for t
    using that e2 assms(4,8) by (simp add: with_key_def is_locked_out_def free rbind_def read_key_def)
  ultimately show ?thesis by (simp add: reading_again_def)
qed

theorem nested_with_key_panics_witness:
  "\<exists>s. register demo_env demo_vault ''api'' [1, 2, 3] demo_state = (Inr \<lparr>handle_id = 1\<rparr>, s) \<and>
     fst (with_key demo_env demo_vault \<lparr>handle_id = 1\<rparr>
       (reading_again demo_env demo_vault \<lparr>handle_id = 1\<rparr> (pure_cb Some)) s) = Inl Panic"
proof -
  obtain k s md where d: "register demo_env demo_vault ''api'' [1, 2, 3] demo_state = (Inr \<lparr>handle_id = 1\<rparr>, s)"
    "reach demo_env demo_vault k s [1 \<mapsto> (''api'', [1, 2, 3], md)]" "\<not> locked_out s" "key_locks s = Map.empty"
    by (rule demo_session)
  from nested_with_key_panics [OF demo_vault_ok _ d(2), of "\<lparr>handle_id = 1\<rparr>" "''api''" "[1, 2, 3]" md
      "\<lparr>handle_id = 1\<rparr>" "''api''" "[1, 2, 3]" md "pure_cb Some"] d show ?thesis
    by (simp add: is_locked_out_def)
qed

section \<open>Changing the registry\<close>

text \<open>(C3) A failing \<^verbatim>\<open>register\<close> or \<^verbatim>\<open>rotate\<close> changes nothing a caller can see: whatever the reason of the error
  (lockout, duplicate name, unknown handle, a failing random source, strategy or operating system), the state
  after it is reachable with the same specification, so every live key still reads back as before.\<close>

theorem failed_update_keeps_keys:
  assumes "vault_ok v" "os_ok E v" "reach E v k s A"
    and "register E v name key s = (Inl e, s') \<or> rotate E v h key s = (Inl e, s')"
    and "A (handle_id h2) = Some (n, bs, md)" "\<not> is_locked_out s" "key_locks s n = None"
  shows "contains h2 s' \<and> metadata h2 s' = Some md \<and> key_count s' = key_count s \<and>
    fst (with_key E v h2 (pure_cb g) s') = (case g bs of Some a \<Rightarrow> Inr a | None \<Rightarrow> Inl Panic)"
proof -
  have r: "reach E v k s' A"
    using assms(3,4) by (auto intro: reach.register_err reach.rotate_err)
  note i = conjunct1 [OF reach_inv [OF assms(1,3)]] and i' = conjunct1 [OF reach_inv [OF assms(1) r]]
  have l: "locked_out s' = locked_out s \<and> key_locks s' n = None"
    using assms(4)
  proof
    assume "register E v name key s = (Inl e, s')"
    then show ?thesis
      using store_only_register [of s E v name key] assms(7) by (simp add: store_only_def)
  next
    assume "rotate E v h key s = (Inl e, s')"
    then show ?thesis
      using rotate_locks [where E = E and v = v and h = h and key = key and s = s] assms(7) by simp
  qed
  have "key_locked E n s' = (False, s')"
    using l by (simp add: key_locked_def key_locked_slow_def)
  then have "fst (with_key E v h2 (pure_cb g) s') = (case g bs of Some a \<Rightarrow> Inr a | None \<Rightarrow> Inl Panic)"
    using with_key_result [OF assms(1,2) r assms(5)] l assms(6) by (simp add: is_locked_out_def)
  then show ?thesis
    using contains_spec [OF i', of h2] metadata_inv [OF i', of h2] key_count_spec [OF i] key_count_spec [OF i'] assms(5)
    by simp
qed

theorem failed_update_keeps_keys_witness:
  "\<exists>s. register demo_env demo_vault ''api'' [1, 2, 3] demo_state = (Inr \<lparr>handle_id = 1\<rparr>, s) \<and>
     fst (with_key demo_env demo_vault \<lparr>handle_id = 1\<rparr> (pure_cb Some)
       (snd (register demo_env demo_vault ''api'' [5] s))) = Inr [1, 2, 3]"
proof -
  obtain k s md where d: "register demo_env demo_vault ''api'' [1, 2, 3] demo_state = (Inr \<lparr>handle_id = 1\<rparr>, s)"
    "reach demo_env demo_vault k s [1 \<mapsto> (''api'', [1, 2, 3], md)]" "\<not> locked_out s" "key_locks s = Map.empty"
    by (rule demo_session)
  have "handle_for_name ''api'' s = Some \<lparr>handle_id = 1\<rparr>"
    using handle_for_name_spec [OF conjunct1 [OF reach_inv [OF demo_vault_ok d(2)]]] by simp
  then have "kv_has_name ''api'' (keys s)"
    by (auto simp: handle_for_name_def kv_has_name_def dest!: find_SomeD)
  then have "register demo_env demo_vault ''api'' [5] s = (Inl (duplicate ''api''), s)"
    using d(3) by (simp add: register_def is_locked_out_def)
  from failed_update_keeps_keys [OF demo_vault_ok _ d(2) disjI1 [OF this], of "\<lparr>handle_id = 1\<rparr>" "''api''"
      "[1, 2, 3]" md Some] d this show ?thesis
    by (simp add: is_locked_out_def)
qed

text \<open>(C4) Rotation replaces the bytes and the metadata behind one handle and nothing else: after a successful
  \<^verbatim>\<open>rotate\<close> the handle reads the new key (it is not under a per-key lock, since \<^verbatim>\<open>rotate\<close> would have refused) and
  has fresh metadata with the new length; the name, the number of keys, every other handle's metadata, every other
  name's handle and lock are the old ones, and every other live key that is not locked reads what it held before.\<close>

theorem rotate_replaces:
  assumes "vault_ok v" "os_ok E v" "reach E v k s A" "A (handle_id h) = Some (n, old, md)"
    and "rotate E v h key s = (Inr (), s')"
  shows "fst (with_key E v h (pure_cb Some) s') = Inr (norm_value E v k key) \<and>
    (\<exists>t. metadata h s' = Some (key_metadata_new t (length key) None)) \<and>
    handle_for_name n s' = Some h \<and> key_count s' = key_count s \<and>
    (\<forall>h2. handle_id h2 \<noteq> handle_id h \<longrightarrow> metadata h2 s' = metadata h2 s \<and> contains h2 s' = contains h2 s) \<and>
    (\<forall>m. m \<noteq> n \<longrightarrow> handle_for_name m s' = handle_for_name m s \<and> key_locks s' m = key_locks s m) \<and>
    (\<forall>h2 n2 bs2 md2. handle_id h2 \<noteq> handle_id h \<longrightarrow> A (handle_id h2) = Some (n2, bs2, md2) \<longrightarrow>
       \<not> fst (key_locked E n2 s') \<longrightarrow> fst (with_key E v h2 (pure_cb Some) s') = Inr bs2)"
proof -
  note i = conjunct1 [OF reach_inv [OF assms(1,3)]]
  have "\<not> locked_out s"
    using assms(5) by (auto simp: rotate_def is_locked_out_def split: if_splits)
  then have l: "\<not> locked_out s'"
    using rotate_locks(1) [of E v h key s] assms(5) by simp
  obtain t where i2: "store_inv v k (A(handle_id h \<mapsto>
      (n, norm_value E v k key, key_metadata_new t (length key) None))) s'"
    using rotate_refines [OF assms(1) i assms(5)] assms(4) by auto
  let ?md = "key_metadata_new t (length key) None"
  let ?A = "A(handle_id h \<mapsto> (n, norm_value E v k key, ?md))"
  have m: "metadata h s' = Some ?md"
    using metadata_inv [OF i2, of h] by simp
  have r: "reach E v k s' ?A"
    by (rule reach.rotate_ok [OF assms(3,4,5) m])
  obtain e where e: "kv_get (handle_id h) (keys s) = Some e" "ke_name e = n"
    using store_inv_get [OF i assms(4)] by metis
  note u = rotate_unlocked [OF assms(5) e(1), unfolded e(2)]
  have own: "fst (with_key E v h (pure_cb Some) s') = Inr (norm_value E v k key)"
    using with_key_result [OF assms(1,2) r _ l u(1), of h _ _ Some] by simp
  have other: "fst (with_key E v h2 (pure_cb Some) s') = Inr bs2"
    if "handle_id h2 \<noteq> handle_id h" "A (handle_id h2) = Some (n2, bs2, md2)" "\<not> fst (key_locked E n2 s')" for h2 n2 bs2 md2
    using with_key_result [OF assms(1,2) r _ l that(3), of h2 _ _ Some] that(1,2) by simp
  have same: "metadata h2 s' = metadata h2 s" "contains h2 s' = contains h2 s" if "handle_id h2 \<noteq> handle_id h" for h2
    using metadata_inv [OF i, of h2] metadata_inv [OF i2, of h2] contains_spec [OF i, of h2] contains_spec [OF i2, of h2] that
    by simp_all
  have name: "handle_for_name m' s' = handle_for_name m' s" if "m' \<noteq> n" for m'
  proof -
    have "handle_for_name m' s' = Some g \<longleftrightarrow> handle_for_name m' s = Some g" for g
      using handle_for_name_spec [OF i, of m' g] handle_for_name_spec [OF i2, of m' g] that assms(4) by auto
    then show ?thesis
      by (metis not_Some_eq)
  qed
  have "card (dom ?A) = card (dom A)"
    using assms(4) by (simp add: insert_absorb domIff)
  then have "key_count s' = key_count s" "handle_for_name n s' = Some h"
    using handle_for_name_spec [OF i2, of n h] key_count_spec [OF i] key_count_spec [OF i2] by simp_all
  then show ?thesis
    using own m other same name u(2) by blast
qed

theorem rotate_replaces_witness:
  "\<exists>s s'. rotate demo_env demo_vault \<lparr>handle_id = 1\<rparr> [4, 5] s = (Inr (), s') \<and>
     fst (with_key demo_env demo_vault \<lparr>handle_id = 1\<rparr> (pure_cb Some) s') = Inr [4, 5] \<and>
     fst (with_key demo_env demo_vault \<lparr>handle_id = 2\<rparr> (pure_cb Some) s') = Inr [9, 9]"
proof -
  obtain k s1 md md2 s where d: "reach demo_env demo_vault k s
      [1 \<mapsto> (''api'', [1, 2, 3], md), 2 \<mapsto> (''tls'', [9, 9], md2)]" "\<not> locked_out s" "key_locks s = Map.empty"
    by (rule demo_second)
  note i = conjunct1 [OF reach_inv [OF demo_vault_ok d(1)]]
  obtain s' where r: "rotate demo_env demo_vault \<lparr>handle_id = 1\<rparr> [4, 5] s = (Inr (), s')"
    using rotate_total [OF demo_vault_ok i, of demo_env "[4, 5]" "\<lparr>handle_id = 1\<rparr>"] d demo_total [of "Suc (Suc 0)"]
      unprotected_room [of demo_vault]
    by (auto simp: usable_normalizer_def u32_max_def)
  note ok = rotate_replaces [OF demo_vault_ok _ d(1) _ r, of "''api''" "[1, 2, 3]" md, simplified]
  have "key_locks s' ''tls'' = None"
    using ok d(3) by simp
  then have "\<not> fst (key_locked demo_env ''tls'' s')"
    by (simp add: key_locked_def key_locked_slow_def)
  then show ?thesis
    using ok r by (intro exI [of _ s] exI [of _ s']) simp
qed

text \<open>(C5) An unregistered key is gone: after \<^verbatim>\<open>unregister\<close> the handle is unknown to every operation, its name resolves to
  nothing and can be registered again, one key fewer is counted, and a page-protected mapping the key had is no
  longer in the vault's region table. The next \<^verbatim>\<open>unregister\<close> of the handle fails.\<close>

theorem unregister_forgets:
  assumes "vault_ok v" "reach E v k s A" "A (handle_id h) = Some (n, bs, md)" "unregister E v h s = (r, s')"
    and "kv_get (handle_id h) (keys s) = Some e"
  shows "r = Inr () \<and> \<not> contains h s' \<and> handle_for_name n s' = None \<and> Suc (key_count s') = key_count s \<and>
    (\<forall>f. fst (with_key E v h (pure_cb f) s') = Inl (Err (if is_locked_out s' then LockedOut else KeyNotFound))) \<and>
    unregister E v h s' = (Inl (Err KeyNotFound), s') \<and>
    regions_tab s' ` region_ids (ke_fragments e) \<subseteq> {None}"
proof -
  note i = conjunct1 [OF reach_inv [OF assms(1,2)]]
  have r: "r = Inr ()" and i2: "store_inv v k (A(handle_id h := None)) s'"
    using unregister_refines [OF i assms(4)] assms(3) by auto
  have none: "kv_get (handle_id h) (keys s') = None"
    using store_inv_None [OF i2, of "handle_id h"] by simp
  have "handle_for_name n s' \<noteq> Some g" for g
  proof
    assume "handle_for_name n s' = Some g"
    then obtain bs' md' where "handle_id g \<noteq> handle_id h" "A (handle_id g) = Some (n, bs', md')"
      using handle_for_name_spec [OF i2, of n g] by (auto split: if_splits)
    then have "handle_for_name n s = Some g" "handle_for_name n s = Some h"
      using handle_for_name_spec [OF i] assms(3) by auto
    then show False
      using \<open>handle_id g \<noteq> handle_id h\<close> by simp
  qed
  then have "handle_for_name n s' = None"
    by (cases "handle_for_name n s'") auto
  moreover have "Suc (card (dom (A(handle_id h := None)))) = card (dom A)"
  proof -
    have "finite (dom A)"
      using finite_spec [OF i] .
    then show ?thesis
      using card_Suc_Diff1 [of "dom A" "handle_id h"] assms(3) by (simp add: domIff dom_fun_upd)
  qed
  moreover have "regions_tab s' ` region_ids (ke_fragments e) \<subseteq> {None}"
    using assms(4,5) by (cases "ke_fragments e")
      (auto simp: unregister_def release_entry_def free_storage_def Let_def split: option.splits prod.splits)
  ultimately show ?thesis
    using r none key_count_spec [OF i] key_count_spec [OF i2]
    by (simp add: contains_def with_key_def unregister_def is_locked_out_def)
qed

theorem unregister_forgets_witness:
  "\<exists>s s'. register demo_env demo_vault ''api'' [1, 2, 3] demo_state = (Inr \<lparr>handle_id = 1\<rparr>, s) \<and>
     unregister demo_env demo_vault \<lparr>handle_id = 1\<rparr> s = (Inr (), s') \<and> key_count s' = 0"
proof -
  obtain k s md where d: "register demo_env demo_vault ''api'' [1, 2, 3] demo_state = (Inr \<lparr>handle_id = 1\<rparr>, s)"
    "reach demo_env demo_vault k s [1 \<mapsto> (''api'', [1, 2, 3], md)]"
    by (rule demo_session)
  note i = conjunct1 [OF reach_inv [OF demo_vault_ok d(2)]]
  obtain e where e: "kv_get 1 (keys s) = Some e"
    using store_inv_get [OF i, of 1 "''api''" "[1, 2, 3]" md] by auto
  obtain r s' where u: "unregister demo_env demo_vault \<lparr>handle_id = 1\<rparr> s = (r, s')"
    by fastforce
  from unregister_forgets [OF demo_vault_ok d(2) _ u, of "''api''" "[1, 2, 3]" md e] e key_count_spec [OF i] d(1) u
  show ?thesis by auto
qed

section \<open>Lockouts\<close>

text \<open>(C8) Exactness of the vault-wide threshold: after any run of failure reports from a fresh
  tracker, under a clock that does not go backwards, the vault is locked out if and only if at one of the
  reported failures the number of failures of that key name inside the sliding window, counted over the
  whole history, had reached the configured maximum. The timestamps the tracker throws away never matter.\<close>

theorem lockout_exact:
  assumes "clock_monotone E" "max_failures_before_lockout (v_config v) \<le> u32_max"
    and "failure_tracker s = Map.empty" "\<not> is_locked_out s"
    and "report_all E v ns s = (ts, s')"
  shows "is_locked_out s' \<longleftrightarrow> breached (v_config v) (zip ts ns)"
proof -
  have "tracks v [] 0 s"
    using assms(3,4) by (simp add: tracks_def breached_def times_of_def tracked_def is_locked_out_def)
  from report_all_tracks [OF assms(1,2) this _ assms(5)] show ?thesis
    by (auto simp: tracks_def is_locked_out_def)
qed

theorem lockout_exact_witness:
  "is_locked_out (snd (report_all demo_env demo_vault [''a'', ''b'', ''a''] demo_state)) \<and>
   \<not> is_locked_out (snd (report_all demo_env demo_vault [''a'', ''b''] demo_state))"
proof -
  have ts: "fst (report_all demo_env demo_vault [''a'', ''b'', ''a''] demo_state) = [0, 0, 0]"
    "fst (report_all demo_env demo_vault [''a'', ''b''] demo_state) = [0, 0]"
    by (simp_all add: split_beta demo_report_world)
  have "is_locked_out (snd (report_all demo_env demo_vault ns demo_state)) \<longleftrightarrow>
      breached (v_config demo_vault) (zip (fst (report_all demo_env demo_vault ns demo_state)) ns)" for ns
    by (rule lockout_exact) (simp_all add: is_locked_out_def u32_max_def)
  moreover have "breached (v_config demo_vault) (zip [0, 0, 0] [''a'', ''b'', ''a''])"
    "\<not> breached (v_config demo_vault) (zip [0, 0] [''a'', ''b''])"
    by (simp_all add: breached_def failures_at_def lessThan_Suc)
  ultimately show ?thesis
    using ts by (simp del: report_all.simps)
qed

text \<open>(C9) Exactness of the per-key threshold, for locks that last and for locks that expire: after any run of failure
  reports from a vault without failures and locks, a query for a key name answers that it is locked if and only if
  at one of its own reported failures the failures of that name inside the per-key window had reached the per-key
  threshold, and the lockout duration, if there is one, has not yet passed since then. Failures of other names never
  count. A query that finds an expired lock removes it, together with the failures counted for the name.\<close>

theorem key_lockout_exact:
  assumes "clock_monotone E" "max_failures_before_lockout (v_config v) \<le> u32_max"
    and "key_lockout_threshold (v_config v) \<le> u32_max"
    and "failure_tracker s = Map.empty" "\<not> is_locked_out s" "key_locks s = Map.empty" "key_locks_active s = 0"
    and "report_all E v ns s = (ts, s')" "length ns < 2 ^ 64"
  shows "(fst (key_locked E n s') \<longleftrightarrow>
      key_locked_at (v_config v) (zip ts ns) (report_marks E v ns s) n (fst (env_now E (world s')))) \<and>
    (\<not> fst (key_locked E n s') \<and> key_locks s' n \<noteq> None \<longrightarrow>
      key_locks (snd (key_locked E n s')) n = None \<and> failure_tracker (snd (key_locked E n s')) n = None)"
proof -
  have t: "tracks v [] 0 s" "key_tracks v [] [] (fst (env_now E (world s))) s"
    using assms(4-6)
    by (simp_all add: tracks_def key_tracks_def hit_marks_def lock_of_def breached_def times_of_def tracked_def is_locked_out_def)
  have k: "key_tracks v (zip ts ns) (report_marks E v ns s) (fst (env_now E (world s'))) s'"
    using report_all_key_tracks [OF assms(1-3) t(1) _ t(2) assms(8)] by simp
  have inv: "locks_inv s'" "card (dom (key_locks s')) < 2 ^ 64"
    using report_all_locks_inv [of s E v ns] report_all_card [of E v ns s] assms(6-9) by (auto simp: locks_inv_def)
  show ?thesis
  proof
    show "fst (key_locked E n s') \<longleftrightarrow>
        key_locked_at (v_config v) (zip ts ns) (report_marks E v ns s) n (fst (env_now E (world s')))"
      unfolding key_locked_iff [OF inv] lock_of_locked [OF k] ..
    show "\<not> fst (key_locked E n s') \<and> key_locks s' n \<noteq> None \<longrightarrow>
        key_locks (snd (key_locked E n s')) n = None \<and> failure_tracker (snd (key_locked E n s')) n = None"
      unfolding key_locked_eq [OF inv]
      using key_locked_slow_expired [of E n s'] by (cases "key_locked_slow E n s'") auto
  qed
qed

text \<open>
  The witness: a clock that ticks at every reading and locks that last two ticks. The second failure of \<open>''a''\<close> is
  recorded at time 1, and its lock, set at 2, ends at 4: a query at 3 is refused, one at 4 (after a failure of another
  name) is not.
\<close>

theorem key_lockout_exact_witness:
  "\<exists>E v. E = demo_env\<lparr>env_now := \<lambda>w. (w, Suc w)\<rparr> \<and>
     v = demo_vault\<lparr>v_config := (v_config demo_vault)\<lparr>key_lockout_duration := Some 2\<rparr>\<rparr> \<and>
     fst (key_locked E ''a'' (snd (report_all E v [''a'', ''a''] demo_state))) \<and>
     \<not> fst (key_locked E ''a'' (snd (report_all E v [''a'', ''a'', ''b''] demo_state))) \<and>
     \<not> fst (key_locked E ''b'' (snd (report_all E v [''a'', ''a''] demo_state)))"
proof -
  define E where "E = demo_env\<lparr>env_now := \<lambda>w. (w, Suc w)\<rparr>"
  define v where "v = demo_vault\<lparr>v_config := (v_config demo_vault)\<lparr>key_lockout_duration := Some 2\<rparr>\<rparr>"
  have now: "env_now E w = (w, Suc w)" for w
    by (simp add: E_def)
  have run: "report_all E v [''a'', ''a'', ''b''] demo_state = ([0, 1, 3], s3)"
    "report_all E v [''a'', ''a''] demo_state = ([0, 1], s2)" "world s2 = 3" "world s3 = 4"
    "report_marks E v [''a'', ''a'', ''b''] demo_state = [1, 2, 4]" "report_marks E v [''a'', ''a''] demo_state = [1, 2]"
    if "s2 = report_failure E v ''a'' None (report_failure E v ''a'' None demo_state)"
      "s3 = report_failure E v ''b'' None s2" for s2 s3
    using that by (simp_all add: now v_def report_failure_def handle_failure_def record_failure_def key_threshold_block_def
        vault_threshold_def count_within_def Let_def clock_now_def u32_max_def)
  let ?s2 = "report_failure E v ''a'' None (report_failure E v ''a'' None demo_state)"
  let ?s3 = "report_failure E v ''b'' None ?s2"
  note run' = run [OF refl refl]
  have ok: "clock_monotone E" "max_failures_before_lockout (v_config v) \<le> u32_max"
    "key_lockout_threshold (v_config v) \<le> u32_max"
    by (simp_all add: now clock_monotone_def v_def u32_max_def)
  have free: "failure_tracker demo_state = Map.empty" "\<not> is_locked_out demo_state"
    "key_locks demo_state = Map.empty" "key_locks_active demo_state = 0"
    by (simp_all add: is_locked_out_def)
  have len: "length [''a'', ''a''] < 2 ^ 64" "length [''a'', ''a'', ''b''] < 2 ^ 64"
    by simp_all
  note two = key_lockout_exact [OF ok free run'(2) len(1), THEN conjunct1, unfolded run'(3,6) now fst_conv]
    and three = key_lockout_exact [OF ok free run'(1) len(2), THEN conjunct1, unfolded run'(4,5) now fst_conv]
  have at: "key_locked_at (v_config v) (zip [0, 1] [''a'', ''a'']) [1, 2] ''a'' 3"
    "\<not> key_locked_at (v_config v) (zip [0, 1] [''a'', ''a'']) [1, 2] ''b'' 3"
    "\<not> key_locked_at (v_config v) (zip [0, 1, 3] [''a'', ''a'', ''b'']) [1, 2, 4] ''a'' 4"
    by (simp_all add: key_locked_at_def key_hit_def failures_at_def v_def lessThan_Suc dur_saturating_add_def duration_max_def)
  show ?thesis
    by (intro exI [of _ E] exI [of _ v] conjI; (rule E_def | rule v_def)?)
       (simp_all only: run'(1,2) snd_conv two three at not_False_eq_True)
qed

text \<open>(C10) The lock counter is exact and the fast path of \<^verbatim>\<open>key_locked\<close> is sound, for one caller at a time: in every
  reachable state the counter is the number of entries of the lock table (modulo \<open>2 ^ 64\<close>), and below \<open>2 ^ 64\<close> locks
  a key name is reported as locked exactly when the table holds a lock of it that has not expired at the current
  time.\<close>

theorem key_locked_sound:
  assumes "vault_ok v" "reach E v k s A"
  shows "finite (dom (key_locks s)) \<and> key_locks_active s = word_of_nat (card (dom (key_locks s))) \<and>
    (card (dom (key_locks s)) < 2 ^ 64 \<longrightarrow>
      unat (key_locks_active s) = card (dom (key_locks s)) \<and>
      (fst (key_locked E n s) \<longleftrightarrow>
        (\<exists>u. key_locks s n = Some u \<and> (\<forall>t. u = Some t \<longrightarrow> fst (env_now E (world s)) < t))))"
proof -
  have l: "locks_inv s"
    using reach_inv [OF assms] by (simp add: aux_inv_def)
  then have "unat (key_locks_active s) = card (dom (key_locks s))" if "card (dom (key_locks s)) < 2 ^ 64"
    using that by (simp add: locks_inv_def unsigned_of_nat take_bit_nat_eq_self)
  then show ?thesis
    using l key_locked_iff [OF l, of E n] by (auto simp: locks_inv_def)
qed

text \<open>The witness reports two failures of a registered key: one lock, counted, and the key is refused.\<close>

theorem key_locked_sound_witness:
  "\<exists>s. (\<exists>k A. reach demo_env demo_vault k s A) \<and> key_locks_active s = 1 \<and>
     fst (key_locked demo_env ''api'' s) \<and> \<not> fst (key_locked demo_env ''tls'' s)"
proof -
  obtain k where r: "reach demo_env demo_vault k demo_state Map.empty"
    using demo_built by blast
  let ?s = "report_failure demo_env demo_vault ''api'' None (report_failure demo_env demo_vault ''api'' None demo_state)"
  have r2: "reach demo_env demo_vault k ?s Map.empty"
    by (intro reach.failure r)
  have m: "key_locks ?s = [''api'' \<mapsto> None]"
    by (rule demo_two_failures(1)) simp_all
  have "key_locks_active ?s = 1" "fst (key_locked demo_env ''api'' ?s)" "\<not> fst (key_locked demo_env ''tls'' ?s)"
    using key_locked_sound [OF demo_vault_ok r2, of "''api''"] key_locked_sound [OF demo_vault_ok r2, of "''tls''"]
    unfolding m by simp_all
  then show ?thesis
    using r2 by blast
qed

text \<open>A locked-out vault refuses: \<^verbatim>\<open>register\<close>, \<^verbatim>\<open>rotate\<close>, \<^verbatim>\<open>with_key\<close> and the one-shot operations return
  \<^verbatim>\<open>LockedOut\<close> and leave the whole state as it is (no audit event, no random bytes drawn), until
  \<^verbatim>\<open>clear_lockout\<close>.\<close>

lemma locked_out_refuses:
  assumes "is_locked_out s"
  shows "register E v name key s = (Inl (Err LockedOut), s) \<and> rotate E v h key s = (Inl (Err LockedOut), s) \<and>
    with_key E v h f s = (Inl (Err LockedOut), s) \<and> vault_fragment E v key s = (Inl (Err LockedOut), s) \<and>
    vault_defragment E v fr s = (Inl (Err LockedOut), s) \<and> \<not> is_locked_out (clear_lockout s)"
  using assms
  by (simp add: register_def rotate_def with_key_def vault_fragment_def vault_defragment_def is_locked_out_def
      clear_lockout_def)

section \<open>The master credential\<close>

text \<open>(C11) Emergency unlock: an attempt that is not rate-limited succeeds exactly when the keyed hash of the attempt
  equals the stored one; then every lockout, every failure count and the backoff are cleared. Otherwise the
  attempt is refused: the failure count of the backoff goes up by one (saturating), the next attempt is allowed only
  after the backoff delay, every per-key lock stays as it is and a vault-wide lockout stays on, and only the reserved
  name has one more failure. Neither touches the registry.\<close>

theorem master_unlock_outcome:
  assumes "vault_ok v" "reach E v k s A" "v_master v = Some (MasterReady st)" "protect_total (env_os E)"
    and "env_now E (world s) = (now, w)" "next_allowed (master_backoff s) \<le> now"
    and "unlock_with_master E v attempt s = (r, s')"
  shows "keys s' = keys s \<and>
    (if master_matches (env_blake3 E) attempt (master_stored k)
     then r = Inr () \<and> \<not> is_locked_out s' \<and> key_locks s' = Map.empty \<and> key_locks_active s' = 0 \<and>
          failure_tracker s' = Map.empty \<and> master_backoff s' = backoff_default
     else r = Inl (Err (Acquisition ''master'' ''master credential did not match'')) \<and>
          failures (master_backoff s') = min (failures (master_backoff s) + 1) u32_max \<and>
          next_allowed (master_backoff s') =
            dur_saturating_add now (backoff_delay v (failures (master_backoff s'))) \<and>
          (is_locked_out s \<longrightarrow> is_locked_out s') \<and> key_locks s' = key_locks s \<and>
          key_locks_active s' = key_locks_active s \<and>
          (\<forall>n. n \<noteq> MASTER_NAME \<longrightarrow> failure_tracker s' n = failure_tracker s n) \<and>
          (\<exists>es. failure_tracker s' MASTER_NAME = Some es \<and> es \<noteq> []))"
proof -
  note i = conjunct1 [OF reach_inv [OF assms(1,2)]]
  obtain w' rs where u: "unlock_with_master E v attempt s =
    (let matched = master_matches (env_blake3 E) attempt (master_stored k);
         s3 = s\<lparr>world := w', regions_tab := rs, master_backoff := backoff_after v now matched (master_backoff s)\<rparr>;
         s4 = emit_audit E v MASTER_NAME (MasterUnlockAttempt matched) [] s3
     in if matched then (Inr (), clear_lockout s4)
        else (Inl (Err (Acquisition ''master'' ''master credential did not match'')),
              handle_failure E v MASTER_NAME (Some ''invalid master credential'') False s4))"
    using unlock_compares [OF i assms(3-6)] by blast
  show ?thesis
  proof (cases "master_matches (env_blake3 E) attempt (master_stored k)")
    case True
    then show ?thesis
      using assms(7) unfolding u by (auto simp: Let_def backoff_after_def is_locked_out_def clear_lockout_def)
  next
    case False
    then show ?thesis
      using assms(7) unfolding u
      by (auto simp: Let_def backoff_after_def is_locked_out_def handle_failure_stays_locked handle_failure_vault_wide)
  qed
qed

text \<open>The witness locks the example vault and a key of it, then tries a wrong and the right credential.\<close>

theorem master_unlock_outcome_witness:
  "\<exists>s s1 s2. is_locked_out s \<and> key_locks s = [''a'' \<mapsto> None] \<and>
     unlock_with_master demo_env master_vault [6] s =
       (Inl (Err (Acquisition ''master'' ''master credential did not match'')), s1) \<and>
     next_allowed (master_backoff s1) = 42 \<and> is_locked_out s1 \<and> key_locks s1 = [''a'' \<mapsto> None] \<and>
     unlock_with_master demo_env master_vault [5] s = (Inr (), s2) \<and> \<not> is_locked_out s2 \<and> key_locks s2 = Map.empty"
proof -
  obtain k where k: "reach demo_env master_vault k master_state Map.empty" "master_stored k = master_verifier_bytes"
    using master_vault_reach(2) by blast
  let ?s = "report_failure demo_env master_vault ''a'' None (report_failure demo_env master_vault ''a'' None master_state)"
  have r: "reach demo_env master_vault k ?s Map.empty"
    by (intro reach.failure k(1))
  have fails: "key_locks ?s = [''a'' \<mapsto> None]" "locked_out ?s"
    by (rule demo_two_failures; simp)+
  then have lock: "is_locked_out ?s" "key_locks ?s = [''a'' \<mapsto> None]" "master_backoff ?s = backoff_default"
    by (simp_all add: is_locked_out_def report_failure_def)
  have now: "env_now demo_env (world ?s) = (32, 32)"
    by (simp add: demo_report_world(2)) (simp add: demo_env_def)
  obtain r1 s1 where u1: "unlock_with_master demo_env master_vault [6] ?s = (r1, s1)" by fastforce
  obtain r2 s2 where u2: "unlock_with_master demo_env master_vault [5] ?s = (r2, s2)" by fastforce
  have m: "\<not> master_matches (env_blake3 demo_env) [6] (master_stored k)"
    "master_matches (env_blake3 demo_env) [5] (master_stored k)"
    unfolding k(2) by (simp_all add: demo_env_def master_matches_def master_verifier_bytes_def blake3_keyed_into_def
        xof_fill_def toy_blake3_def upt_conv_Cons)
  note out = master_unlock_outcome [OF master_vault_reach(1) r _ _ now]
  have "r1 = Inl (Err (Acquisition ''master'' ''master credential did not match''))" "next_allowed (master_backoff s1) = 42"
    "is_locked_out s1" "key_locks s1 = [''a'' \<mapsto> None]"
    using out [OF _ _ _ u1] m(1) lock
    by (simp_all add: backoff_default_def backoff_delay_def dur_checked_mul_def duration_max_def dur_saturating_add_def u32_max_def)
  moreover have "r2 = Inr ()" "\<not> is_locked_out s2" "key_locks s2 = Map.empty"
    using out [OF _ _ _ u2] m(2) lock by (simp_all add: backoff_default_def)
  ultimately show ?thesis
    using lock(1,2) u1 u2 by blast
qed

text \<open>While the backoff delay runs, no attempt is compared: \<^verbatim>\<open>unlock_with_master\<close> answers \<^verbatim>\<open>RateLimited\<close> with
  the time that remains, whatever the credential, and changes nothing but reading the clock.\<close>

lemma master_rate_limited:
  assumes "has_master_key v" "env_now E (world s) = (now, w)" "now < next_allowed (master_backoff s)"
  shows "unlock_with_master E v attempt s =
    (Inl (Err (RateLimited (next_allowed (master_backoff s) - now))), s\<lparr>world := w\<rparr>)"
  using assms by (auto simp: unlock_with_master_def has_master_key_def clock_now_def)

text \<open>(C37) The delay after the \<open>n\<close>th failure in a row is the base delay doubled \<open>n - 1\<close> times, capped by the
  configured maximum; it never shrinks from one failure to the next, and the doubling stops at the 32nd failure.\<close>

theorem backoff_delay_formula:
  assumes "master_backoff_max (v_config v) \<le> duration_max" "1 \<le> n"
  shows "backoff_delay v n =
      min (master_backoff_base (v_config v) * 2 ^ (min n 32 - 1)) (master_backoff_max (v_config v)) \<and>
    backoff_delay v n \<le> backoff_delay v (Suc n)"
  using backoff_delay_eq [OF assms] backoff_delay_mono [OF assms, of "Suc n"] by simp

theorem backoff_delay_formula_witness: "backoff_delay master_vault 2 = 20 \<and> backoff_delay master_vault 9 = 40"
  using backoff_delay_formula [of master_vault 2] backoff_delay_formula [of master_vault 9]
  by (simp add: duration_max_def)

section \<open>One-shot fragmentation\<close>

text \<open>(C30) The one-shot operations: unless the vault is locked out, \<^verbatim>\<open>defragment\<close> of what \<^verbatim>\<open>fragment\<close> returned in a
  reachable state gives the normalized key when there is no codex, whatever happened to the vault in between. With a
  codex it encodes again instead of decoding: the result is the normalized key with the codex's \<^verbatim>\<open>encode\<close> applied
  twice. So a codex whose encoding is an involution round-trips, and a lawful one that is not does not, while
  \<^verbatim>\<open>with_key\<close>, which applies \<^verbatim>\<open>decode\<close>, does.\<close>

theorem one_shot_round_trip:
  assumes "vault_ok v" "reach E v k s A" "vault_fragment E v key s = (Inr fr, s1)" "\<not> is_locked_out s2"
  shows "fst (vault_defragment E v fr s2) = Inr (case v_codex v of
      None \<Rightarrow> norm_value E v k key
    | Some c \<Rightarrow> map (encode c) (map (encode c) (norm_value E v k key))) \<and>
    ((\<forall>c. v_codex v = Some c \<longrightarrow> (\<forall>b. encode c (encode c b) = b)) \<longrightarrow>
       fst (vault_defragment E v fr s2) = Inr (norm_value E v k key))"
proof -
  have "fst (vault_defragment E v fr s2) = Inr (enc_bytes v (enc_bytes v (norm_value E v k key)))"
    using one_shot_twice [OF assms(1) conjunct1 [OF reach_inv [OF assms(1,2)]] assms(3)] assms(4)
    by (simp add: is_locked_out_def)
  then show ?thesis
    by (auto simp: enc_bytes_def codex_apply_def map_idI split: option.split)
qed

text \<open>The example vault, whose codex adds one to every byte.\<close>

theorem one_shot_round_trip_witness:
  "\<exists>fr s1. vault_fragment demo_env demo_vault [1, 2, 3] demo_state = (Inr fr, s1) \<and>
     fst (vault_defragment demo_env demo_vault fr s1) = Inr [3, 4, 5]"
proof -
  obtain k where r: "reach demo_env demo_vault k demo_state Map.empty"
    using demo_built by blast
  obtain fr s' where "fragment_pipeline demo_env demo_vault [1, 2, 3] demo_state = (Inr fr, s')"
    using fragment_pipeline_total [OF conjunct1 [OF reach_inv [OF demo_vault_ok r]], of demo_env "[1, 2, 3]"]
      demo_total [of "Suc (Suc (Suc 0))"]
    by (auto simp: usable_normalizer_def u32_max_def)
  then obtain s1 where f: "vault_fragment demo_env demo_vault [1, 2, 3] demo_state = (Inr fr, s1)"
    by (auto simp: vault_fragment_def is_locked_out_def)
  have "locked_out s1 = False"
    using store_only_fragment [of demo_state demo_env demo_vault "[1, 2, 3]"] f by (simp add: store_only_def)
  with conjunct1 [OF one_shot_round_trip [OF demo_vault_ok r f, of s1]] f show ?thesis
    by (auto simp: is_locked_out_def demo_codex_def)
qed

section \<open>The audit trail\<close>

text \<open>(C31) One event per operation: a successful \<^verbatim>\<open>register\<close>, \<^verbatim>\<open>rotate\<close>, \<^verbatim>\<open>unregister\<close>, \<^verbatim>\<open>with_key\<close>, one-shot
  operation or master unlock hands the audit sink exactly one event, with the right kind and key name (nothing
  when the sink is a no-op); a failing one hands it nothing, except for a refused master credential, which may
  be recorded as a failed attempt.\<close>

theorem audit_trail:
  "(case register E v name key s of
      (Inr h, s') \<Rightarrow> audited E v name Register s s' | (Inl e, s') \<Rightarrow> audit_log s' = audit_log s) \<and>
   (case rotate E v h key s of
      (Inr u, s') \<Rightarrow> \<exists>e. kv_get (handle_id h) (keys s) = Some e \<and> audited E v (ke_name e) Rotate s s'
    | (Inl e, s') \<Rightarrow> audit_log s' = audit_log s) \<and>
   (case unregister E v h s of
      (Inr u, s') \<Rightarrow> \<exists>e. kv_get (handle_id h) (keys s) = Some e \<and> audited E v (ke_name e) Unregister s s'
    | (Inl e, s') \<Rightarrow> s' = s) \<and>
   (case with_key E v h (pure_cb g) s of
      (Inr a, s') \<Rightarrow> \<exists>e. kv_get (handle_id h) (keys s) = Some e \<and> audited E v (ke_name e) Read s s'
    | (Inl e, s') \<Rightarrow> audit_log s' = audit_log s) \<and>
   (case vault_fragment E v key s of
      (Inr fr, s') \<Rightarrow> audited E v [] OneShotFragment s s' | (Inl e, s') \<Rightarrow> audit_log s' = audit_log s) \<and>
   (case vault_defragment E v fr s of
      (Inr bs, s') \<Rightarrow> audited E v [] OneShotDefragment s s' | (Inl e, s') \<Rightarrow> s' = s) \<and>
   (case unlock_with_master E v attempt s of
      (Inr u, s') \<Rightarrow> audited E v MASTER_NAME (MasterUnlockAttempt True) s s'
    | (Inl e, s') \<Rightarrow> audit_log s' = audit_log s \<or> audited E v MASTER_NAME (MasterUnlockAttempt False) s s')"
  by (intro conjI register_audit rotate_audit unregister_audit with_key_audit fragment_audit defragment_audit
      unlock_audit)

end
